theory Spec2Isabelle
  imports Complex_Main
begin

section \<open>Errors and results\<close>

text \<open>
  The program is Python over NumPy and SciPy.  Floating-point numbers are modelled by
  the reals (exact arithmetic).  A Python exception is a value of type \<open>error\<close>; a
  computation that may raise returns \<open>error + 'a\<close>, with \<open>Inl\<close> for the exception.
  \<open>NotANumber\<close> is not an exception: it marks the places where the floating-point
  computation produces \<open>nan\<close> or \<open>inf\<close> (the mean of an empty selection, a division by
  zero) and so leaves the real numbers, or where a value is stored that an integer
  array cannot hold; the model stops there and says nothing about what follows.
\<close>

datatype error = IndexError | ValueError | AxisError | LinAlgError | UnboundLocalError | NotANumber

definition bindE :: "error + 'a \<Rightarrow> ('a \<Rightarrow> error + 'b) \<Rightarrow> error + 'b" where
  "bindE x f = (case x of Inl e \<Rightarrow> Inl e | Inr v \<Rightarrow> f v)"

text \<open>
  A \<open>for\<close> loop that produces one result per element and stops at the first exception,
  and a loop that runs a body a fixed number of times on a state.
\<close>

fun collect :: "('i \<Rightarrow> error + 'a) \<Rightarrow> 'i list \<Rightarrow> error + 'a list" where
  "collect f [] = Inr []"
| "collect f (i # is) = bindE (f i) (\<lambda>x. bindE (collect f is) (\<lambda>xs. Inr (x # xs)))"

fun repeat :: "nat \<Rightarrow> ('s \<Rightarrow> error + 's) \<Rightarrow> 's \<Rightarrow> error + 's" where
  "repeat 0 f st = Inr st"
| "repeat (Suc k) f st = bindE (f st) (repeat k f)"

section \<open>Two-dimensional arrays\<close>

text \<open>
  A two-dimensional \<open>ndarray\<close>: its shape and its rows.  The shape is kept beside the
  rows because an array without rows still has a width (\<open>v[:0, :]\<close> has shape
  \<open>(0, n)\<close>).
\<close>

record 'a array2 =
  nrows :: nat
  ncols :: nat
  rows :: "'a list list"

definition wf_array :: "'a array2 \<Rightarrow> bool" where
  "wf_array M = (length (rows M) = nrows M \<and> list_all (\<lambda>r. length r = ncols M) (rows M))"

definition entry :: "'a array2 \<Rightarrow> nat \<Rightarrow> nat \<Rightarrow> 'a" where
  "entry M i j = rows M ! i ! j"

definition mk_array :: "nat \<Rightarrow> nat \<Rightarrow> (nat \<Rightarrow> nat \<Rightarrow> 'a) \<Rightarrow> 'a array2" where
  "mk_array r c f = \<lparr>nrows = r, ncols = c, rows = map (\<lambda>i. map (\<lambda>j. f i j) [0..<c]) [0..<r]\<rparr>"

definition same_shape :: "'a array2 \<Rightarrow> 'b array2 \<Rightarrow> bool" where
  "same_shape M N = (nrows M = nrows N \<and> ncols M = ncols N)"

definition np_zeros :: "nat \<Rightarrow> nat \<Rightarrow> real array2" where
  "np_zeros r c = mk_array r c (\<lambda>i j. 0)"

definition map_array :: "('a \<Rightarrow> 'b) \<Rightarrow> 'a array2 \<Rightarrow> 'b array2" where
  "map_array f M = mk_array (nrows M) (ncols M) (\<lambda>i j. f (entry M i j))"

text \<open>
  Elementwise \<open>+\<close> and \<open>-\<close> of two arrays.  Every pair of operands in this program has
  one shape; operands of different shapes are reported as \<open>ValueError\<close>.
\<close>

definition ew_add :: "real array2 \<Rightarrow> real array2 \<Rightarrow> error + real array2" where
  "ew_add M N = (if \<not> same_shape M N then Inl ValueError
                 else Inr (mk_array (nrows M) (ncols M) (\<lambda>i j. entry M i j + entry N i j)))"

definition ew_sub :: "real array2 \<Rightarrow> real array2 \<Rightarrow> error + real array2" where
  "ew_sub M N = (if \<not> same_shape M N then Inl ValueError
                 else Inr (mk_array (nrows M) (ncols M) (\<lambda>i j. entry M i j - entry N i j)))"

text \<open>\<open>M.T\<close>\<close>

definition transposeA :: "'a array2 \<Rightarrow> 'a array2" where
  "transposeA M = mk_array (ncols M) (nrows M) (\<lambda>i j. entry M j i)"

text \<open>\<open>M @ N\<close> for two-dimensional operands, and for a matrix and a vector.\<close>

definition matmul :: "real array2 \<Rightarrow> real array2 \<Rightarrow> error + real array2" where
  "matmul M N = (if ncols M \<noteq> nrows N then Inl ValueError
                 else Inr (mk_array (nrows M) (ncols N)
                   (\<lambda>i j. sum_list (map (\<lambda>k. entry M i k * entry N k j) [0..<ncols M]))))"

definition matvec :: "real array2 \<Rightarrow> real list \<Rightarrow> error + real list" where
  "matvec M v = (if ncols M \<noteq> length v then Inl ValueError
                 else Inr (map (\<lambda>i. sum_list (map (\<lambda>k. entry M i k * v ! k) [0..<ncols M]))
                            [0..<nrows M]))"

text \<open>\<open>np.diag(vec)\<close>, \<open>u[:, :idx]\<close> and \<open>v[:idx, :]\<close>\<close>

definition np_diag :: "real list \<Rightarrow> real array2" where
  "np_diag vec = mk_array (length vec) (length vec) (\<lambda>i j. if i = j then vec ! i else 0)"

definition cols_upto :: "nat \<Rightarrow> 'a array2 \<Rightarrow> 'a array2" where
  "cols_upto idx u = mk_array (nrows u) (min idx (ncols u)) (\<lambda>i j. entry u i j)"

definition rows_upto :: "nat \<Rightarrow> 'a array2 \<Rightarrow> 'a array2" where
  "rows_upto idx v = mk_array (min idx (nrows v)) (ncols v) (\<lambda>i j. entry v i j)"

text \<open>\<open>np.linalg.norm(M, 'fro')\<close>\<close>

definition norm_fro :: "real array2 \<Rightarrow> real" where
  "norm_fro M = sqrt (sum_list (map (\<lambda>x. x * x) (concat (rows M))))"

text \<open>
  Slices of a one-dimensional array with bounds \<open>0 \<le> a\<close>, \<open>0 \<le> b\<close>: \<open>xs[a:b]\<close> and the
  assignment \<open>xs[a:b] = vs\<close> of as many values as the slice holds.
\<close>

definition slice :: "nat \<Rightarrow> nat \<Rightarrow> 'a list \<Rightarrow> 'a list" where
  "slice a b xs = take (b - a) (drop a xs)"

definition assign_slice :: "nat \<Rightarrow> nat \<Rightarrow> 'a list \<Rightarrow> 'a list \<Rightarrow> 'a list" where
  "assign_slice a b xs vs = take a xs @ vs @ drop (max a b) xs"

text \<open>\<open>xs[a:b] = v\<close> for a scalar \<open>v\<close>, and \<open>xs[n:]\<close> for an integer \<open>n\<close> of either sign.\<close>

definition fill_slice :: "nat \<Rightarrow> nat \<Rightarrow> 'a list \<Rightarrow> 'a \<Rightarrow> 'a list" where
  "fill_slice a b xs v = assign_slice a b xs (replicate (length (slice a b xs)) v)"

definition slice_from :: "int \<Rightarrow> 'a list \<Rightarrow> 'a list" where
  "slice_from n xs = (if 0 \<le> n then drop (nat n) xs else drop (length xs - nat (- n)) xs)"

text \<open>
  An integer index into an axis of length \<open>n\<close>: negative indices count from the end,
  an index outside \<open>[-n, n)\<close> raises \<open>IndexError\<close>.
\<close>

definition np_index :: "nat \<Rightarrow> int \<Rightarrow> error + nat" where
  "np_index n i = (if 0 \<le> i \<and> i < int n then Inr (nat i)
                   else if - int n \<le> i \<and> i < 0 then Inr (nat (i + int n))
                   else Inl IndexError)"

text \<open>
  \<open>M[m, :] = z\<close> into a row of width \<open>c\<close>: the values stored.  A one-element \<open>z\<close> is
  broadcast, another length is refused.
\<close>

definition row_values :: "nat \<Rightarrow> 'a list \<Rightarrow> error + 'a list" where
  "row_values c z = (if length z = c then Inr z
                     else if length z = 1 then Inr (replicate c (hd z))
                     else Inl ValueError)"

section \<open>Indexing by the missing positions\<close>

text \<open>
  \<open>pos_missing\<close> is either \<open>None\<close> (the default of the signature) or a Boolean mask of
  the shape of the matrix, as the caller of the notebook passes it.  Indexing a
  two-dimensional array with \<open>None\<close> selects every entry; indexing with a mask of
  another shape raises \<open>IndexError\<close>.  Selected entries are listed row by row.  With
  \<open>None\<close> NumPy adds an axis of length one: \<open>M[None]\<close> has the shape \<open>(1, r, c)\<close>.  Where
  \<open>M[None]\<close> is only copied between arrays of one shape (\<open>Z[pos] = mat[pos]\<close>) the model
  lists all entries; where it enters arithmetic (\<open>dense_test\<close> and \<open>X[pos_test]\<close>) it is
  kept with its shape, see \<open>np_pick\<close>.
\<close>

definition selected :: "bool array2 option \<Rightarrow> nat \<Rightarrow> nat \<Rightarrow> bool" where
  "selected pos i j = (case pos of None \<Rightarrow> True | Some msk \<Rightarrow> entry msk i j)"

definition wf_pos :: "bool array2 option \<Rightarrow> bool" where
  "wf_pos pos = (case pos of None \<Rightarrow> True | Some msk \<Rightarrow> wf_array msk)"

definition index_ok :: "bool array2 option \<Rightarrow> 'a array2 \<Rightarrow> bool" where
  "index_ok pos M = (case pos of None \<Rightarrow> True | Some msk \<Rightarrow> same_shape msk M)"

definition flat_mask :: "bool array2 option \<Rightarrow> 'a array2 \<Rightarrow> bool list" where
  "flat_mask pos M = (case pos of None \<Rightarrow> replicate (nrows M * ncols M) True
                                | Some msk \<Rightarrow> concat (rows msk))"

text \<open>\<open>M[pos]\<close>\<close>

definition take_mask :: "'a array2 \<Rightarrow> bool array2 option \<Rightarrow> error + 'a list" where
  "take_mask M pos = (if \<not> index_ok pos M then Inl IndexError
                      else Inr (map fst (filter snd (zip (concat (rows M)) (flat_mask pos M)))))"

text \<open>\<open>M[pos] = v\<close> for a scalar \<open>v\<close>\<close>

definition fill_mask :: "'a array2 \<Rightarrow> bool array2 option \<Rightarrow> 'a \<Rightarrow> error + 'a array2" where
  "fill_mask M pos v = (if \<not> index_ok pos M then Inl IndexError
                        else Inr (mk_array (nrows M) (ncols M)
                               (\<lambda>i j. if selected pos i j then v else entry M i j)))"

text \<open>
  \<open>M[pos] = vals\<close> for a one-dimensional \<open>vals\<close>: the values go to the selected
  positions in row-major order, the \<open>k\<close>-th value to the \<open>k\<close>-th selected position.
\<close>

definition rank_in :: "bool list \<Rightarrow> nat \<Rightarrow> nat" where
  "rank_in bs p = length (filter id (take p bs))"

definition put_mask :: "'a array2 \<Rightarrow> bool array2 option \<Rightarrow> 'a list \<Rightarrow> error + 'a array2" where
  "put_mask M pos vals =
     (if \<not> index_ok pos M then Inl IndexError
      else if length vals \<noteq> length (filter id (flat_mask pos M)) then Inl ValueError
      else Inr (mk_array (nrows M) (ncols M)
             (\<lambda>i j. if selected pos i j then vals ! rank_in (flat_mask pos M) (i * ncols M + j)
                    else entry M i j)))"

text \<open>\<open>np.mean\<close> of a one-dimensional array; of an empty one it is \<open>nan\<close> (\<open>None\<close>).\<close>

definition np_mean :: "real list \<Rightarrow> real option" where
  "np_mean xs = (if xs = [] then None else Some (sum_list xs / real (length xs)))"

text \<open>
  The dtype of an array decides what an assignment stores.  An array of floats takes
  the value as it is; an array of integers takes it truncated toward zero (the cast of
  C), and a value outside the range of \<open>int64\<close> has no defined result (\<open>None\<close>).  The
  entries of an integer array are held as reals with integer values.  \<open>sparse_mat\<close> is an
  array of \<open>float64\<close> or of \<open>int64\<close>; arrays of other dtypes are outside the model.
\<close>

datatype dtype = Float64 | Int64

definition trunc_toward_zero :: "real \<Rightarrow> int" where
  "trunc_toward_zero x = (if 0 \<le> x then \<lfloor>x\<rfloor> else \<lceil>x\<rceil>)"

definition store :: "dtype \<Rightarrow> real \<Rightarrow> real option" where
  "store dt x =
     (case dt of
        Float64 \<Rightarrow> Some x
      | Int64 \<Rightarrow> (let t = trunc_toward_zero x
                  in if - (2 ^ 63) \<le> t \<and> t < 2 ^ 63 then Some (of_int t) else None))"

definition store_all :: "dtype \<Rightarrow> real list \<Rightarrow> real list option" where
  "store_all dt xs = those (map (store dt) xs)"

text \<open>
  \<open>M[pos]\<close> as a value: one-dimensional for a mask, of shape \<open>(1, r, c)\<close> for \<open>None\<close>.
\<close>

datatype 'a picked = Flat "'a list" | Whole "'a array2"

definition np_pick :: "'a array2 \<Rightarrow> bool array2 option \<Rightarrow> error + 'a picked" where
  "np_pick M pos =
     (case pos of
        None \<Rightarrow> Inr (Whole M)
      | Some msk \<Rightarrow> bindE (take_mask M pos) (\<lambda>xs. Inr (Flat xs)))"

text \<open>
  \<open>var - var_hat\<close> with NumPy's broadcasting: two lengths of an axis fit when they are
  equal or one of them is \<open>1\<close>, and the operands are refused with \<open>ValueError\<close>
  otherwise.  A one-dimensional operand is a single row; the leading axis of
  \<open>M[None]\<close> has length one on both sides.
\<close>

definition broadcast_len :: "nat \<Rightarrow> nat \<Rightarrow> nat option" where
  "broadcast_len a b = (if a = b then Some a else if a = 1 then Some b
                        else if b = 1 then Some a else None)"

definition as_rows :: "real picked \<Rightarrow> real array2" where
  "as_rows p = (case p of Flat xs \<Rightarrow> \<lparr>nrows = 1, ncols = length xs, rows = [xs]\<rparr> | Whole M \<Rightarrow> M)"

definition elements :: "real picked \<Rightarrow> real list" where
  "elements p = (case p of Flat xs \<Rightarrow> xs | Whole M \<Rightarrow> concat (rows M))"

definition np_subtract :: "real picked \<Rightarrow> real picked \<Rightarrow> error + real picked" where
  "np_subtract p q =
     (let A = as_rows p; B = as_rows q in
      case (broadcast_len (nrows A) (nrows B), broadcast_len (ncols A) (ncols B)) of
        (Some r, Some c) \<Rightarrow>
          (let D = mk_array r c
                     (\<lambda>i j. entry A (if nrows A = 1 then 0 else i) (if ncols A = 1 then 0 else j)
                          - entry B (if nrows B = 1 then 0 else i) (if ncols B = 1 then 0 else j))
           in Inr (case (p, q) of (Flat xs, Flat ys) \<Rightarrow> Flat (concat (rows D)) | _ \<Rightarrow> Whole D))
      | _ \<Rightarrow> Inl ValueError)"

text \<open>
  \<open>compute_mae\<close> and \<open>compute_rmse\<close>.  \<open>var.shape[0]\<close> is the length of a
  one-dimensional \<open>var\<close> and \<open>1\<close> for \<open>M[None]\<close>.  The mean of no element and a division
  by zero are \<open>nan\<close> (\<open>None\<close>), which is printed like a number.
\<close>

definition shape0 :: "real picked \<Rightarrow> nat" where
  "shape0 p = (case p of Flat xs \<Rightarrow> length xs | Whole M \<Rightarrow> 1)"

definition compute_mae :: "real picked \<Rightarrow> real picked \<Rightarrow> error + real option" where
  "compute_mae var var_hat =
     bindE (np_subtract var var_hat) (\<lambda>d. Inr (np_mean (map abs (elements d))))"

definition compute_rmse :: "real picked \<Rightarrow> real picked \<Rightarrow> error + real option" where
  "compute_rmse var var_hat =
     bindE (np_subtract var var_hat) (\<lambda>d.
       Inr (if shape0 var = 0 then None
            else Some (sqrt (sum_list (map (\<lambda>x. x ^ 2) (elements d)) / real (shape0 var)))))"

text \<open>
  The two lines that print the errors, \<open>compute_mae(dense_test, X[pos_test])\<close> and
  \<open>compute_rmse(dense_test, X[pos_test])\<close>: what is printed is not part of the model,
  an exception of the arithmetic is.
\<close>

definition report :: "real picked \<Rightarrow> bool array2 option \<Rightarrow> real array2 \<Rightarrow> error + unit" where
  "report dense_test pos X =
     bindE (np_pick X pos) (\<lambda>shown.
     bindE (compute_mae dense_test shown) (\<lambda>mae.
     bindE (np_pick X pos) (\<lambda>shown'.
     bindE (compute_rmse dense_test shown') (\<lambda>rmse. Inr ()))))"

section \<open>Sparse matrices in coordinate format and the lag operators\<close>

record coo_matrix =
  coo_data :: "real list"
  coo_row :: "int list"
  coo_col :: "int list"
  coo_shape :: "int \<times> int"

text \<open>\<open>np.arange(a, b)\<close>, \<open>np.ones(n)\<close> and \<open>np.max\<close> of a one-dimensional integer array\<close>

definition arange :: "int \<Rightarrow> int \<Rightarrow> int list" where
  "arange a b = [a..b - 1]"

definition np_ones :: "int \<Rightarrow> error + real list" where
  "np_ones n = (if n < 0 then Inl ValueError else Inr (replicate (nat n) 1))"

definition np_max :: "int list \<Rightarrow> error + int" where
  "np_max xs = (case xs of [] \<Rightarrow> Inl ValueError | x # r \<Rightarrow> Inr (fold max r x))"

text \<open>
  \<open>sparse.coo_matrix((data, (row, col)), shape = shp)\<close>: the constructor refuses a
  negative shape, index arrays of another length than the data and, when there is at
  least one entry, an index outside the shape.
\<close>

definition coo_matrix :: "real list \<Rightarrow> int list \<Rightarrow> int list \<Rightarrow> int \<times> int \<Rightarrow> error + coo_matrix" where
  "coo_matrix dat row col shp =
     (if fst shp < 0 \<or> snd shp < 0 then Inl ValueError
      else if length row \<noteq> length dat \<or> length col \<noteq> length dat then Inl ValueError
      else if dat \<noteq> [] \<and> (\<exists>r \<in> set row. r \<ge> fst shp) then Inl ValueError
      else if dat \<noteq> [] \<and> (\<exists>c \<in> set col. c \<ge> snd shp) then Inl ValueError
      else if dat \<noteq> [] \<and> (\<exists>r \<in> set row. r < 0) then Inl ValueError
      else if dat \<noteq> [] \<and> (\<exists>c \<in> set col. c < 0) then Inl ValueError
      else Inr \<lparr>coo_data = dat, coo_row = row, coo_col = col, coo_shape = shp\<rparr>)"

text \<open>\<open>S.toarray()\<close>: entries with the same coordinates add up.\<close>

definition toarray :: "coo_matrix \<Rightarrow> real array2" where
  "toarray S = mk_array (nat (fst (coo_shape S))) (nat (snd (coo_shape S)))
     (\<lambda>i j. sum_list (map (\<lambda>(v, r, c). if r = int i \<and> c = int j then v else 0)
                (zip (coo_data S) (zip (coo_row S) (coo_col S)))))"

text \<open>The body of the loop of \<open>generate_Psi\<close> for index \<open>i\<close>, and the function.\<close>

definition Psi_at :: "int \<Rightarrow> int list \<Rightarrow> int \<Rightarrow> nat \<Rightarrow> error + coo_matrix" where
  "Psi_at dim_time time_lags max_lag i =
     (let row = arange 0 (dim_time - max_lag);
          col = (if i = 0 then map (\<lambda>k. k + max_lag) (arange 0 (dim_time - max_lag))
                 else map (\<lambda>k. k + max_lag - time_lags ! (i - 1)) (arange 0 (dim_time - max_lag)))
      in bindE (np_ones (dim_time - max_lag)) (\<lambda>dat.
         coo_matrix dat row col (dim_time - max_lag, dim_time)))"

definition generate_Psi :: "int \<Rightarrow> int list \<Rightarrow> error + coo_matrix list" where
  "generate_Psi dim_time time_lags =
     bindE (np_max time_lags) (\<lambda>max_lag.
       collect (Psi_at dim_time time_lags max_lag) [0..<length time_lags + 1])"

text \<open>
  What the specification says of the operators: a 0/1 matrix whose row \<open>k\<close> has its one
  at column \<open>k + off\<close>, where the offset of \<open>\<Psi>\<^sub>0\<close> is \<open>max_lag\<close> and that of \<open>\<Psi>\<^sub>i\<close> is
  \<open>max_lag - l\<^sub>i\<close>.  With \<open>cols - max_lag\<close> rows, the columns selected are
  \<open>[off, off + cols - max_lag)\<close>, that is \<open>[max_lag, cols)\<close> and \<open>[max_lag - l\<^sub>i, cols - l\<^sub>i)\<close>.
\<close>

definition selection_matrix :: "nat \<Rightarrow> nat \<Rightarrow> int \<Rightarrow> real array2" where
  "selection_matrix r c off = mk_array r c (\<lambda>k j. if int j = int k + off then 1 else 0)"

definition lag_offset :: "int list \<Rightarrow> nat \<Rightarrow> int" where
  "lag_offset time_lags i =
     (if i = 0 then Max (set time_lags) else Max (set time_lags) - time_lags ! (i - 1))"

section \<open>Tensors, unfolding and folding\<close>

text \<open>
  An \<open>ndarray\<close> of any order: its shape and its entries, listed in the order that
  NumPy calls \<open>'F'\<close> (the first index changes fastest).  In this listing a reshape
  with \<open>order = 'F'\<close> keeps the entries and changes the shape only.
\<close>

record 'a tensor =
  shape :: "nat list"
  flat :: "'a list"

definition wf_tensor :: "'a tensor \<Rightarrow> bool" where
  "wf_tensor t = (length (flat t) = prod_list (shape t))"

text \<open>The position of a multi-index in the listing, and the multi-index of a position.\<close>

fun ravel :: "nat list \<Rightarrow> nat list \<Rightarrow> nat" where
  "ravel (n # ns) (i # is) = i + n * ravel ns is"
| "ravel _ _ = 0"

fun unravel :: "nat list \<Rightarrow> nat \<Rightarrow> nat list" where
  "unravel [] p = []"
| "unravel (n # ns) p = (p mod n) # unravel ns (p div n)"

text \<open>
  \<open>np.transpose(t, order)\<close>: axis \<open>k\<close> of the result is axis \<open>order ! k\<close> of \<open>t\<close>, so the
  entry of the result at \<open>j\<close> is the entry of \<open>t\<close> at the multi-index \<open>i\<close> with
  \<open>i ! (order ! k) = j ! k\<close>.
\<close>

fun index_of :: "nat \<Rightarrow> nat list \<Rightarrow> nat" where
  "index_of a [] = 0"
| "index_of a (x # xs) = (if x = a then 0 else Suc (index_of a xs))"

definition source_index :: "nat list \<Rightarrow> nat list \<Rightarrow> nat list" where
  "source_index order j = map (\<lambda>a. j ! index_of a order) [0..<length order]"

definition np_transpose :: "'a tensor \<Rightarrow> nat list \<Rightarrow> 'a tensor" where
  "np_transpose t order =
     (let sh = map (\<lambda>a. shape t ! a) order
      in \<lparr>shape = sh,
          flat = map (\<lambda>p. flat t ! ravel (shape t) (source_index order (unravel sh p)))
                   [0..<prod_list sh]\<rparr>)"

text \<open>
  \<open>np.moveaxis(t, source, destination)\<close> for two axes that are not negative: the other
  axes keep their order, \<open>source\<close> is inserted at \<open>destination\<close>, and the tensor is
  transposed to that order.
\<close>

definition moveaxis :: "'a tensor \<Rightarrow> nat \<Rightarrow> nat \<Rightarrow> error + 'a tensor" where
  "moveaxis t source destination =
     (let n = length (shape t) in
      if source \<ge> n \<or> destination \<ge> n then Inl AxisError
      else (let order = filter (\<lambda>a. a \<noteq> source) [0..<n]
            in Inr (np_transpose t (take destination order @ [source] @ drop destination order))))"

text \<open>
  \<open>np.reshape(t, (a, -1), order = 'F')\<close>: the unknown length is the size divided by \<open>a\<close>;
  NumPy refuses to infer it when \<open>a = 0\<close> or when \<open>a\<close> does not divide the size.
  \<open>np.reshape(t, sh, order = 'F')\<close> refuses a shape of another size.
\<close>

definition reshape_infer :: "'a tensor \<Rightarrow> nat \<Rightarrow> error + 'a tensor" where
  "reshape_infer t a =
     (if a = 0 \<or> length (flat t) mod a \<noteq> 0 then Inl ValueError
      else Inr \<lparr>shape = [a, length (flat t) div a], flat = flat t\<rparr>)"

definition reshape :: "'a tensor \<Rightarrow> nat list \<Rightarrow> error + 'a tensor" where
  "reshape t sh = (if prod_list sh \<noteq> length (flat t) then Inl ValueError
                   else Inr \<lparr>shape = sh, flat = flat t\<rparr>)"

definition ten2mat :: "'a tensor \<Rightarrow> nat \<Rightarrow> error + 'a tensor" where
  "ten2mat tensor mode =
     bindE (moveaxis tensor mode 0) (\<lambda>moved. reshape_infer moved (shape tensor ! mode))"

definition mat2ten :: "'a tensor \<Rightarrow> nat list \<Rightarrow> nat \<Rightarrow> error + 'a tensor" where
  "mat2ten mat dims mode =
     (let index = mode # filter (\<lambda>i. i \<noteq> mode) [0..<length dims] in
      if mode \<ge> length dims then Inl IndexError
      else bindE (reshape mat (map (\<lambda>i. dims ! i) index)) (\<lambda>t. moveaxis t 0 mode))"

section \<open>Singular value thresholding with a truncated nuclear norm\<close>

text \<open>
  \<open>np.linalg.svd(M, full_matrices = 0)\<close> is a function of the library, not of this
  program: it is a parameter of the model.  It returns \<open>u\<close>, \<open>s\<close> and \<open>v\<close> (the last one
  already transposed) or raises.
\<close>

type_synonym svd_fn = "real array2 \<Rightarrow> error + (real array2 \<times> real list \<times> real array2)"

text \<open>
  The branch of \<open>svt_tnn\<close> that decomposes \<open>mat @ mat.T\<close> and the branch that decomposes
  \<open>mat\<close>, each from the decomposition on.  The square root of a negative number and a
  division by zero are \<open>nan\<close> or \<open>inf\<close>.
\<close>

definition svt_gram_part :: "real array2 \<Rightarrow> real \<Rightarrow> nat \<Rightarrow> real array2 \<times> real list \<times> real array2
    \<Rightarrow> error + real array2" where
  "svt_gram_part mat tau theta usv =
     (case usv of (u, s0, v) \<Rightarrow>
        if \<exists>x \<in> set s0. x < 0 then Inl NotANumber
        else
          (let s = map sqrt s0;
               idx = length (filter (\<lambda>x. x > tau) s);
               mid0 = fill_slice 0 theta (replicate idx 0) 1
           in if 0 \<in> set (slice theta idx s) then Inl NotANumber
              else
                (let mid = assign_slice theta idx mid0
                             (map (\<lambda>x. (x - tau) / x) (slice theta idx s))
                 in bindE (matmul (cols_upto idx u) (np_diag mid)) (\<lambda>left.
                    bindE (matmul (transposeA (cols_upto idx u)) mat) (\<lambda>right.
                    matmul left right)))))"

definition svt_direct_part :: "real \<Rightarrow> nat \<Rightarrow> real array2 \<times> real list \<times> real array2
    \<Rightarrow> error + real array2" where
  "svt_direct_part tau theta usv =
     (case usv of (u, s, v) \<Rightarrow>
        (let idx = length (filter (\<lambda>x. x > tau) s);
             vec = assign_slice theta idx (take idx s) (map (\<lambda>x. x - tau) (slice theta idx s))
         in bindE (matmul (cols_upto idx u) (np_diag vec)) (\<lambda>uv. matmul uv (rows_upto idx v))))"

function svt_tnn :: "svd_fn \<Rightarrow> real array2 \<Rightarrow> real \<Rightarrow> nat \<Rightarrow> error + real array2" where
  "svt_tnn svdf mat tau theta =
     (let m = nrows mat; n = ncols mat in
      if 2 * m < n then
        bindE (matmul mat (transposeA mat)) (\<lambda>gram.
        bindE (svdf gram) (svt_gram_part mat tau theta))
      else if m > 2 * n then
        bindE (svt_tnn svdf (transposeA mat) tau theta) (\<lambda>r. Inr (transposeA r))
      else bindE (svdf mat) (svt_direct_part tau theta))"
  by pat_completeness auto
termination
  by (relation "measure (\<lambda>(svdf, mat, tau, theta). if nrows mat > 2 * ncols mat then 1 else 0)")
     (auto simp: transposeA_def mk_array_def)

declare svt_tnn.simps [simp del]

text \<open>
  The two paths as functions of their own, to compare them on one matrix: what the
  code computes when it decomposes \<open>mat\<close> itself, and when it decomposes \<open>mat @ mat.T\<close>.
\<close>

definition svt_direct :: "svd_fn \<Rightarrow> real array2 \<Rightarrow> real \<Rightarrow> nat \<Rightarrow> error + real array2" where
  "svt_direct svdf mat tau theta = bindE (svdf mat) (svt_direct_part tau theta)"

definition svt_gram :: "svd_fn \<Rightarrow> real array2 \<Rightarrow> real \<Rightarrow> nat \<Rightarrow> error + real array2" where
  "svt_gram svdf mat tau theta =
     bindE (matmul mat (transposeA mat)) (\<lambda>gram. bindE (svdf gram) (svt_gram_part mat tau theta))"

text \<open>
  What the specification says of the result, from a decomposition \<open>(u, s, v)\<close>: the sum
  of the components whose singular value is greater than \<open>tau\<close>, the first \<open>theta\<close> of
  them with their singular value, the others with it less \<open>tau\<close>.
\<close>

definition shrunk :: "real \<Rightarrow> nat \<Rightarrow> real list \<Rightarrow> nat \<Rightarrow> real" where
  "shrunk tau theta s a = (if s ! a > tau then (if a < theta then s ! a else s ! a - tau) else 0)"

definition svt_spec :: "real \<Rightarrow> nat \<Rightarrow> real array2 \<times> real list \<times> real array2 \<Rightarrow> real array2" where
  "svt_spec tau theta usv =
     (case usv of (u, s, v) \<Rightarrow>
        mk_array (nrows u) (ncols v)
          (\<lambda>i j. sum_list (map (\<lambda>a. shrunk tau theta s a * entry u i a * entry v a j)
                     [0..<length s])))"

text \<open>
  What NumPy documents of \<open>svd(M, full_matrices = 0)\<close> for an \<open>m \<times> n\<close> matrix, with
  \<open>k = min m n\<close>: \<open>u\<close> is \<open>m \<times> k\<close> with orthonormal columns, \<open>s\<close> has \<open>k\<close> entries that are
  not negative and descend, \<open>v\<close> is \<open>k \<times> n\<close> with orthonormal rows, a \<open>u\<close> or \<open>v\<close> that is
  square is unitary (its rows and its columns are orthonormal), and
  \<open>M = u @ diag(s) @ v\<close>.
\<close>

definition identity :: "nat \<Rightarrow> real array2" where
  "identity k = mk_array k k (\<lambda>i j. if i = j then 1 else 0)"

definition is_svd :: "real array2 \<Rightarrow> real array2 \<times> real list \<times> real array2 \<Rightarrow> bool" where
  "is_svd M usv =
     (case usv of (u, s, v) \<Rightarrow>
        (let k = min (nrows M) (ncols M) in
         wf_array u \<and> wf_array v \<and>
         nrows u = nrows M \<and> ncols u = k \<and> length s = k \<and> nrows v = k \<and> ncols v = ncols M \<and>
         list_all (\<lambda>x. 0 \<le> x) s \<and> sorted (rev s) \<and>
         matmul (transposeA u) u = Inr (identity k) \<and>
         matmul v (transposeA v) = Inr (identity k) \<and>
         (nrows u = k \<longrightarrow> matmul u (transposeA u) = Inr (identity k)) \<and>
         (ncols v = k \<longrightarrow> matmul (transposeA v) v = Inr (identity k)) \<and>
         bindE (matmul u (np_diag s)) (\<lambda>us. matmul us v) = Inr M))"

section \<open>The imputer\<close>

text \<open>
  The library functions the imputer calls (\<open>np.linalg.svd\<close>, SciPy's \<open>spsolve\<close> and
  \<open>np.linalg.pinv\<close>) are parameters of the model, each returning its result or
  raising.  The arguments of a call are a record; \<open>arg_A_rand\<close> gives the entries of the array that
  \<open>np.random.rand(dim[0], d)\<close> returns in that call, and \<open>arg_dtype\<close> is the dtype of
  \<open>sparse_mat\<close>, which \<open>Z = sparse_mat.copy()\<close> keeps.
\<close>

record numlib =
  lib_svd :: svd_fn
  lib_spsolve :: "real array2 \<Rightarrow> real list \<Rightarrow> error + real list"
  lib_pinv :: "real array2 \<Rightarrow> error + real array2"

record args =
  arg_dense_mat :: "real array2"
  arg_sparse_mat :: "real array2"
  arg_time_lags :: "int list"
  arg_rho0 :: real
  arg_lambda0 :: real
  arg_theta :: nat
  arg_epsilon :: real
  arg_maxiter :: int
  arg_K :: nat
  arg_pos_missing :: "bool array2 option"
  arg_A_rand :: "nat \<Rightarrow> nat \<Rightarrow> real"
  arg_dtype :: dtype

text \<open>
  What the imputer computes once, before the loop, and the variables the loop changes.
  \<open>X\<close> and \<open>tol\<close> have no value before the loop; a \<open>tol\<close> that is \<open>nan\<close> or \<open>inf\<close> (the
  norm of \<open>sparse_mat\<close> is zero) is \<open>None\<close> as well.
\<close>

record prep =
  pr_rows :: nat
  pr_cols :: nat
  pr_d :: nat
  pr_max_lag :: int
  pr_Psis :: "coo_matrix list"
  pr_iden :: coo_matrix
  pr_ind :: "int list list"
  pr_snorm :: real
  pr_dense_test :: "real picked"

record state =
  st_Z :: "real array2"
  st_T :: "real array2"
  st_A :: "real array2"
  st_X :: "real array2 option"
  st_rho :: real
  st_last_mat :: "real array2"
  st_it :: int
  st_tol :: "real option"

text \<open>
  The lines of \<open>imputer\<close> before \<open>while True\<close>, in their order.

  \<open>Z = sparse_mat.copy()\<close> and \<open>Z[pos_missing] = np.mean(sparse_mat[sparse_mat != 0])\<close>:
  the result is an exception of the indexing, or the new \<open>Z\<close>, or \<open>None\<close> when no value
  of \<open>Z\<close> is defined: the mean of no entry is \<open>nan\<close>, which a float array takes at the
  missing positions (none of them, possibly) and an integer array cannot hold.  The
  run is not followed from there; the lines up to the loop are, for the exceptions
  they raise.
\<close>

definition nonzero_entries :: "real array2 \<Rightarrow> error + real list" where
  "nonzero_entries S = take_mask S (Some (map_array (\<lambda>x. x \<noteq> 0) S))"

definition initial_Z :: "dtype \<Rightarrow> real array2 \<Rightarrow> bool array2 option
    \<Rightarrow> error + real array2 option" where
  "initial_Z dt S pos =
     bindE (nonzero_entries S) (\<lambda>nz.
       case np_mean nz of
         Some v \<Rightarrow>
           (case store dt v of
              Some w \<Rightarrow> bindE (fill_mask S pos w) (\<lambda>Z. Inr (Some Z))
            | None \<Rightarrow> bindE (take_mask S pos) (\<lambda>sel. Inr None))
       | None \<Rightarrow> bindE (take_mask S pos) (\<lambda>sel.
                   if sel = [] \<and> dt = Float64 then Inr (Some S) else Inr None))"

definition imputer_init :: "args \<Rightarrow> error + prep \<times> state" where
  "imputer_init a =
     (let S = arg_sparse_mat a; r = nrows S; c = ncols S; lags = arg_time_lags a;
          d = length lags
      in bindE (np_max lags) (\<lambda>max_lag.
         bindE (np_pick (arg_dense_mat a) (arg_pos_missing a)) (\<lambda>dense_test.
         bindE (initial_Z (arg_dtype a) S (arg_pos_missing a)) (\<lambda>Z_opt.
         bindE (generate_Psi (int c) lags) (\<lambda>Psis.
         bindE (np_ones (int c)) (\<lambda>ones.
         bindE (coo_matrix ones (arange 0 (int c)) (arange 0 (int c)) (int c, int c)) (\<lambda>iden.
         if int c - max_lag < 0 then Inl ValueError
         else case Z_opt of
                None \<Rightarrow> Inl NotANumber
              | Some Z \<Rightarrow>
                  Inr (\<lparr>pr_rows = r, pr_cols = c, pr_d = d, pr_max_lag = max_lag, pr_Psis = Psis,
                        pr_iden = iden,
                        pr_ind = map (\<lambda>i. arange (max_lag - lags ! i) (int c - lags ! i)) [0..<d],
                        pr_snorm = norm_fro S, pr_dense_test = dense_test\<rparr>,
                       \<lparr>st_Z = Z, st_T = np_zeros r c,
                        st_A = mk_array r d (\<lambda>i j. 0.001 * arg_A_rand a i j),
                        st_X = None, st_rho = arg_rho0 a, st_last_mat = S, st_it = 0,
                        st_tol = None\<rparr>))))))))"

text \<open>
  \<open>B[m] = Psis0[0] - sum(Psis0[1 :])\<close> with \<open>Psis0[i + 1] = A[m, i] * Psis[i + 1]\<close>.
  Sparse matrices are modelled by their dense value once arithmetic starts.  Python's
  \<open>sum\<close> starts from the integer \<open>0\<close>, which a sparse matrix absorbs, and adds from the
  left.
\<close>

fun sum_arrays :: "real array2 \<Rightarrow> real array2 list \<Rightarrow> error + real array2" where
  "sum_arrays acc [] = Inr acc"
| "sum_arrays acc (P # Ps) = bindE (ew_add acc P) (\<lambda>acc'. sum_arrays acc' Ps)"

definition build_B :: "prep \<Rightarrow> real array2 \<Rightarrow> nat \<Rightarrow> error + real array2" where
  "build_B pr A m =
     (let Psis = pr_Psis pr;
          Psis0 = toarray (Psis ! 0) #
                  map (\<lambda>i. map_array (\<lambda>x. entry A m i * x) (toarray (Psis ! (i + 1))))
                    [0..<pr_d pr]
      in case tl Psis0 of
           [] \<Rightarrow> Inr (hd Psis0)
         | P # Ps \<Rightarrow> bindE (sum_arrays P Ps) (\<lambda>total. ew_sub (hd Psis0) total))"

text \<open>
  \<open>spsolve(B[m].T @ B[m] + rho * iden / lambda0, temp0[m, :])\<close>, and the array \<open>mat\<close>
  that the loop over \<open>m\<close> fills with \<open>temp0 = rho / lambda0 * (X + T / rho)\<close>.
\<close>

definition row_system :: "prep \<Rightarrow> real \<Rightarrow> real \<Rightarrow> real array2 \<Rightarrow> error + real array2" where
  "row_system pr rho lambda0 Bm =
     bindE (matmul (transposeA Bm) Bm) (\<lambda>BtB.
       ew_add BtB (map_array (\<lambda>x. x / lambda0) (map_array (\<lambda>x. rho * x) (toarray (pr_iden pr)))))"

definition solve_rows :: "numlib \<Rightarrow> prep \<Rightarrow> real \<Rightarrow> real \<Rightarrow> real array2 list \<Rightarrow> real array2
    \<Rightarrow> real array2 \<Rightarrow> error + real array2" where
  "solve_rows lib pr rho lambda0 B X T =
     bindE (ew_add X (map_array (\<lambda>x. x / rho) T)) (\<lambda>XT.
       (let temp0 = map_array (\<lambda>x. rho / lambda0 * x) XT
        in bindE (collect (\<lambda>m. bindE (row_system pr rho lambda0 (B ! m)) (\<lambda>lhs.
                               bindE (lib_spsolve lib lhs (rows temp0 ! m)) (row_values (pr_cols pr))))
                    [0..<pr_rows pr])
             (\<lambda>mat_rows. Inr \<lparr>nrows = pr_rows pr, ncols = pr_cols pr, rows = mat_rows\<rparr>)))"

text \<open>
  One pass of the loop \<open>for k in range(K)\<close>.  \<open>Z[pos_missing] = mat[pos_missing]\<close> stores
  the values as the dtype of \<open>Z\<close> takes them.
\<close>

definition inner_step :: "numlib \<Rightarrow> args \<Rightarrow> prep \<Rightarrow> real array2 list \<Rightarrow> state \<Rightarrow> error + state" where
  "inner_step lib a pr B st =
     (let rho = min (st_rho st * 1.05) 100000; pos = arg_pos_missing a
      in if rho = 0 then Inl NotANumber
         else
           bindE (ew_sub (st_Z st) (map_array (\<lambda>x. x / rho) (st_T st))) (\<lambda>ZT.
           bindE (svt_tnn (lib_svd lib) ZT (1 / rho) (arg_theta a)) (\<lambda>X.
           if arg_lambda0 a = 0 then Inl NotANumber
           else
             bindE (solve_rows lib pr rho (arg_lambda0 a) B X (st_T st)) (\<lambda>mat.
             bindE (take_mask mat pos) (\<lambda>vals.
             case store_all (arg_dtype a) vals of
               None \<Rightarrow> Inl NotANumber
             | Some stored \<Rightarrow>
                 bindE (put_mask (st_Z st) pos stored) (\<lambda>Z'.
                 bindE (ew_sub X Z') (\<lambda>XZ.
                 bindE (ew_add (st_T st) (map_array (\<lambda>x. rho * x) XZ)) (\<lambda>T'.
                 Inr (st\<lparr>st_Z := Z', st_T := T', st_X := Some X, st_rho := rho\<rparr>)))))))))"

text \<open>
  \<open>A[m, :] = np.linalg.pinv(Z[m, ind].T) @ Z[m, max_lag :]\<close>, where \<open>Z[m, ind]\<close> has the
  shape of \<open>ind\<close>.
\<close>

definition update_A_row :: "numlib \<Rightarrow> prep \<Rightarrow> real array2 \<Rightarrow> nat \<Rightarrow> error + real list" where
  "update_A_row lib pr Z m =
     bindE (collect (collect (\<lambda>p. bindE (np_index (pr_cols pr) p) (\<lambda>q. Inr (entry Z m q))))
              (pr_ind pr)) (\<lambda>picked.
       (let Zind = \<lparr>nrows = pr_d pr, ncols = nat (int (pr_cols pr) - pr_max_lag pr),
                    rows = picked\<rparr>
        in bindE (lib_pinv lib (transposeA Zind)) (\<lambda>P.
           bindE (matvec P (slice_from (pr_max_lag pr) (rows Z ! m))) (row_values (pr_d pr)))))"

text \<open>
  The body of \<open>while True\<close> up to the test: the list \<open>B\<close>, the \<open>K\<close> inner passes, the new
  \<open>A\<close>, \<open>tol\<close>, \<open>last_mat\<close> and \<open>it\<close>, and every 200 iterations the printing of the
  errors, which changes nothing and can raise.
\<close>

definition tol_of :: "real \<Rightarrow> real array2 \<Rightarrow> real option" where
  "tol_of snorm diff = (if snorm = 0 then None else Some (norm_fro diff / snorm))"

definition outer_iteration :: "numlib \<Rightarrow> args \<Rightarrow> prep \<Rightarrow> state \<Rightarrow> error + state" where
  "outer_iteration lib a pr st =
     bindE (collect (build_B pr (st_A st)) [0..<pr_rows pr]) (\<lambda>B.
     bindE (repeat (arg_K a) (inner_step lib a pr B) st) (\<lambda>st1.
     bindE (collect (update_A_row lib pr (st_Z st1)) [0..<pr_rows pr]) (\<lambda>A_rows.
     case st_X st1 of
       None \<Rightarrow> Inl UnboundLocalError
     | Some X \<Rightarrow>
         bindE (ew_sub X (st_last_mat st1)) (\<lambda>diff.
         bindE (if (st_it st1 + 1) mod 200 = 0
                then report (pr_dense_test pr) (arg_pos_missing a) X else Inr ())
           (\<lambda>printed.
         Inr (st1\<lparr>st_A := \<lparr>nrows = pr_rows pr, ncols = pr_d pr, rows = A_rows\<rparr>,
                  st_tol := tol_of (pr_snorm pr) diff,
                  st_last_mat := X,
                  st_it := st_it st1 + 1\<rparr>))))))"

text \<open>The test \<open>(tol < epsilon and tol != 0) or (it >= maxiter)\<close>: false on \<open>nan\<close> and \<open>inf\<close>.\<close>

definition converged :: "args \<Rightarrow> state \<Rightarrow> bool" where
  "converged a st = (case st_tol st of None \<Rightarrow> False | Some tol \<Rightarrow> tol < arg_epsilon a \<and> tol \<noteq> 0)"

definition stop :: "args \<Rightarrow> state \<Rightarrow> bool" where
  "stop a st = (converged a st \<or> st_it st \<ge> arg_maxiter a)"

text \<open>
  The loop \<open>while True\<close>.  Each pass adds one to \<open>it\<close> and the loop is left when the test
  holds, so the distance of \<open>it\<close> to \<open>maxiter\<close> decreases: the recursion terminates.
\<close>

lemma bindE_Inr [simp]: "bindE (Inr v) f = f v"
  by (simp add: bindE_def)

lemma bindE_Inl [simp]: "bindE (Inl e) f = Inl e"
  by (simp add: bindE_def)

lemma bindE_eq_Inr: "bindE x f = Inr y \<longleftrightarrow> (\<exists>v. x = Inr v \<and> f v = Inr y)"
  by (cases x) simp_all

lemma repeat_invariant:
  assumes step: "\<And>s s'. f s = Inr s' \<Longrightarrow> P s \<Longrightarrow> P s'"
  shows "repeat k f st = Inr st' \<Longrightarrow> P st \<Longrightarrow> P st'"
proof (induction k arbitrary: st)
  case 0
  then show ?case by simp
next
  case (Suc k)
  from Suc.prems(1) obtain s1 where s1: "f st = Inr s1" and r: "repeat k f s1 = Inr st'"
    by (auto simp: bindE_eq_Inr)
  from step [OF s1 Suc.prems(2)] have "P s1" .
  with Suc.IH [OF r] show ?case .
qed

lemma inner_step_it:
  "inner_step lib a pr B st = Inr st' \<Longrightarrow> st_it st' = st_it st"
  unfolding inner_step_def Let_def
  by (auto simp: bindE_eq_Inr split: if_splits option.splits)

lemma outer_iteration_it:
  assumes "outer_iteration lib a pr st = Inr st'"
  shows "st_it st' = st_it st + 1"
proof -
  from assms obtain B st1 where
    rep: "repeat (arg_K a) (inner_step lib a pr B) st = Inr st1" and it: "st_it st' = st_it st1 + 1"
    unfolding outer_iteration_def
    by (auto simp: bindE_eq_Inr split: option.splits if_splits)
  have "st_it st1 = st_it st"
    using repeat_invariant [where P = "\<lambda>s. st_it s = st_it st" and f = "inner_step lib a pr B", OF _ rep]
    by (simp add: inner_step_it)
  with it show ?thesis by simp
qed

function outer_loop :: "numlib \<Rightarrow> args \<Rightarrow> prep \<Rightarrow> state \<Rightarrow> error + state" where
  "outer_loop lib a pr st =
     (case outer_iteration lib a pr st of
        Inl e \<Rightarrow> Inl e
      | Inr st' \<Rightarrow> if stop a st' then Inr st' else outer_loop lib a pr st')"
  by pat_completeness auto
termination
proof (relation "measure (\<lambda>(lib, a, pr, st). nat (arg_maxiter a - st_it st))")
  show "wf (measure (\<lambda>(lib, a, pr, st). nat (arg_maxiter a - st_it st)))" by simp
next
  fix lib a pr st st'
  assume it: "outer_iteration lib a pr st = Inr st'" and ns: "\<not> stop a st'"
  from outer_iteration_it [OF it] ns
  show "((lib, a, pr, st'), lib, a, pr, st) \<in> measure (\<lambda>(lib, a, pr, st). nat (arg_maxiter a - st_it st))"
    by (simp add: stop_def)
qed

declare outer_loop.simps [simp del]

text \<open>
  The whole function: the lines before the loop, the loop, the final printing of the
  errors and \<open>return X\<close>.
\<close>

definition imputer :: "numlib \<Rightarrow> args \<Rightarrow> error + real array2" where
  "imputer lib a =
     bindE (imputer_init a) (\<lambda>(pr, st0).
     bindE (outer_loop lib a pr st0) (\<lambda>st.
       case st_X st of
         None \<Rightarrow> Inl UnboundLocalError
       | Some X \<Rightarrow>
           bindE (report (pr_dense_test pr) (arg_pos_missing a) X) (\<lambda>printed. Inr X)))"

section \<open>The per-row linear system of the specification\<close>





section \<open>Auxiliary notions for the proofs about singular value thresholding\<close>

text \<open>
  Matrices entry by entry, as functions of a row and a column, with sums over the
  indices below a bound: orthonormal columns, a square matrix whose rows and columns
  are orthonormal, the products of the columns of two matrices, a product
  \<open>A @ diag(d) @ B\<close>, and \<open>X @ X.T\<close>.  Then the factor by which a component of the
  decomposition is kept, and the condition that the singular values that are kept
  unshrunk differ from those that are shrunk.  \<open>decomposed\<close> is the matrix that
  \<open>svt_tnn\<close> hands to \<open>np.linalg.svd\<close>.
\<close>

definition orthonormal_cols :: "nat \<Rightarrow> nat \<Rightarrow> (nat \<Rightarrow> nat \<Rightarrow> real) \<Rightarrow> bool" where
  "orthonormal_cols p k U =
     (\<forall>a<k. \<forall>b<k. (\<Sum>r<p. U r a * U r b) = (if a = b then 1 else 0))"

definition orthogonal :: "nat \<Rightarrow> (nat \<Rightarrow> nat \<Rightarrow> real) \<Rightarrow> bool" where
  "orthogonal m U = (orthonormal_cols m m U \<and> orthonormal_cols m m (\<lambda>a r. U r a))"

definition overlap :: "nat \<Rightarrow> (nat \<Rightarrow> nat \<Rightarrow> real) \<Rightarrow> (nat \<Rightarrow> nat \<Rightarrow> real) \<Rightarrow> nat \<Rightarrow> nat \<Rightarrow> real" where
  "overlap m U U' a b = (\<Sum>r<m. U r a * U' r b)"

text \<open>A factorisation of M and one of its Gram matrix, entry by entry.\<close>

definition factorises :: "nat \<Rightarrow> nat \<Rightarrow> nat \<Rightarrow> (nat \<Rightarrow> nat \<Rightarrow> real) \<Rightarrow> (nat \<Rightarrow> nat \<Rightarrow> real) \<Rightarrow> real list \<Rightarrow> (nat \<Rightarrow> nat \<Rightarrow> real) \<Rightarrow> bool" where
  "factorises p k q X A d B =
     (\<forall>i<p. \<forall>j<q. X i j = (\<Sum>a<k. A i a * d ! a * B a j))"

definition gram_fn :: "nat \<Rightarrow> (nat \<Rightarrow> nat \<Rightarrow> real) \<Rightarrow> nat \<Rightarrow> nat \<Rightarrow> real" where
  "gram_fn n X i j = (\<Sum>c<n. X i c * X j c)"

definition keep_weight :: "real \<Rightarrow> nat \<Rightarrow> real list \<Rightarrow> nat \<Rightarrow> real" where
  "keep_weight tau theta s a =
     (if s ! a > tau then (if a < theta then 1 else (s ! a - tau) / s ! a) else 0)"

definition no_tie :: "real \<Rightarrow> nat \<Rightarrow> real list \<Rightarrow> bool" where
  "no_tie tau theta s =
     (theta = 0 \<or> length (filter (\<lambda>x. x > tau) s) \<le> theta \<or> s ! theta < s ! (theta - 1))"

definition decomposed :: "real array2 \<Rightarrow> error + real array2" where
  "decomposed mat =
     (let m = nrows mat; n = ncols mat in
      if 2 * m < n then matmul mat (transposeA mat)
      else if m > 2 * n then matmul (transposeA mat) (transposeA (transposeA mat))
      else Inr mat)"

section \<open>Auxiliary notions for the tensor proofs\<close>

text \<open>
  A multi-index that is inside a shape, a permutation of the axes, and the two axis orders
  that \<open>ten2mat\<close> and \<open>mat2ten\<close> hand to the transposition.
\<close>

definition valid_index :: "nat list \<Rightarrow> nat list \<Rightarrow> bool" where
  "valid_index sh idx = (length idx = length sh \<and> (\<forall>k < length sh. idx ! k < sh ! k))"

definition is_perm :: "nat list \<Rightarrow> nat \<Rightarrow> bool" where
  "is_perm order n = (length order = n \<and> distinct order \<and> set order = {..<n})"

definition unfold_order :: "nat \<Rightarrow> nat \<Rightarrow> nat list" where
  "unfold_order n mode = mode # [0..<mode] @ [Suc mode..<n]"

definition fold_order :: "nat \<Rightarrow> nat \<Rightarrow> nat list" where
  "fold_order n mode = [1..<Suc mode] @ 0 # [Suc mode..<n]"

section \<open>Properties of the working matrix, and a worked call\<close>

text \<open>
  \<open>Z\<close> has the shape of \<open>sparse_mat\<close> and its entries at the positions that are not
  missing.
\<close>

definition observed_kept :: "args \<Rightarrow> real array2 \<Rightarrow> bool" where
  "observed_kept a Z =
     (same_shape Z (arg_sparse_mat a) \<and>
      (\<forall>i < nrows (arg_sparse_mat a). \<forall>j < ncols (arg_sparse_mat a).
         \<not> selected (arg_pos_missing a) i j \<longrightarrow> entry Z i j = entry (arg_sparse_mat a) i j))"


text \<open>
  A call on a \<open>1 \<times> 2\<close> matrix whose second entry is missing, with the lag \<open>1\<close>, one
  inner pass per iteration and \<open>rho0\<close> chosen so that \<open>rho\<close> is \<open>1\<close> in the first pass.  The
  library functions are given on the arguments they receive in the first iteration (the
  decomposition of \<open>[[3, 4]]\<close>, the solution of a diagonal system, the pseudo-inverse of
  \<open>[[3]]\<close>) and raise elsewhere.  \<open>ex_pr\<close>, \<open>ex_st0\<close>, \<open>ex_st1\<close> and \<open>ex_st2\<close> are what the
  lines before the loop compute, the state before the loop, after the inner pass and
  after the first iteration.
\<close>

definition ex_S :: "real array2" where
  "ex_S = \<lparr>nrows = 1, ncols = 2, rows = [[3, 5]]\<rparr>"

definition ex_pos :: "bool array2 option" where
  "ex_pos = Some \<lparr>nrows = 1, ncols = 2, rows = [[False, True]]\<rparr>"

definition ex_args :: args where
  "ex_args = \<lparr>arg_dense_mat = ex_S, arg_sparse_mat = ex_S, arg_time_lags = [1],
     arg_rho0 = 20 / 21, arg_lambda0 = 1, arg_theta = 0, arg_epsilon = 1 / 10000, arg_maxiter = 1,
     arg_K = 1, arg_pos_missing = ex_pos,
     arg_A_rand = (\<lambda>i j. 0), arg_dtype = Float64\<rparr>"

definition ex_lib :: numlib where
  "ex_lib = \<lparr>
     lib_svd = (\<lambda>M. if M = \<lparr>nrows = 1, ncols = 2, rows = [[3, 4]]\<rparr>
                     then Inr (\<lparr>nrows = 1, ncols = 1, rows = [[1]]\<rparr>, [5],
                               \<lparr>nrows = 1, ncols = 2, rows = [[3 / 5, 4 / 5]]\<rparr>)
                     else Inl LinAlgError),
     lib_spsolve = (\<lambda>M b. if M = \<lparr>nrows = 2, ncols = 2, rows = [[1, 0], [0, 2]]\<rparr>
                     then Inr [b ! 0, b ! 1 / 2] else Inl LinAlgError),
     lib_pinv = (\<lambda>M. if M = \<lparr>nrows = 1, ncols = 1, rows = [[3]]\<rparr>
                     then Inr \<lparr>nrows = 1, ncols = 1, rows = [[1 / 3]]\<rparr> else Inl LinAlgError)\<rparr>"

definition ex_pr :: prep where
  "ex_pr = \<lparr>pr_rows = 1, pr_cols = 2, pr_d = 1, pr_max_lag = 1,
     pr_Psis = [\<lparr>coo_data = [1], coo_row = [0], coo_col = [1], coo_shape = (1, 2)\<rparr>,
                \<lparr>coo_data = [1], coo_row = [0], coo_col = [0], coo_shape = (1, 2)\<rparr>],
     pr_iden = \<lparr>coo_data = [1, 1], coo_row = [0, 1], coo_col = [0, 1], coo_shape = (2, 2)\<rparr>,
     pr_ind = [[0]], pr_snorm = norm_fro ex_S,
     pr_dense_test = Flat [5]\<rparr>"

definition ex_st0 :: state where
  "ex_st0 = \<lparr>st_Z = \<lparr>nrows = 1, ncols = 2, rows = [[3, 4]]\<rparr>, st_T = np_zeros 1 2,
     st_A = \<lparr>nrows = 1, ncols = 1, rows = [[0]]\<rparr>, st_X = None, st_rho = 20 / 21,
     st_last_mat = ex_S, st_it = 0, st_tol = None\<rparr>"

definition ex_B :: "real array2 list" where
  "ex_B = [\<lparr>nrows = 1, ncols = 2, rows = [[0, 1]]\<rparr>]"

definition ex_X1 :: "real array2" where
  "ex_X1 = \<lparr>nrows = 1, ncols = 2, rows = [[12 / 5, 16 / 5]]\<rparr>"

definition ex_st1 :: state where
  "ex_st1 = \<lparr>st_Z = \<lparr>nrows = 1, ncols = 2, rows = [[3, 8 / 5]]\<rparr>,
     st_T = \<lparr>nrows = 1, ncols = 2, rows = [[- 3 / 5, 8 / 5]]\<rparr>,
     st_A = \<lparr>nrows = 1, ncols = 1, rows = [[0]]\<rparr>, st_X = Some ex_X1, st_rho = 1,
     st_last_mat = ex_S, st_it = 0, st_tol = None\<rparr>"

definition ex_st2 :: state where
  "ex_st2 = \<lparr>st_Z = \<lparr>nrows = 1, ncols = 2, rows = [[3, 8 / 5]]\<rparr>,
     st_T = \<lparr>nrows = 1, ncols = 2, rows = [[- 3 / 5, 8 / 5]]\<rparr>,
     st_A = \<lparr>nrows = 1, ncols = 1, rows = [[8 / 15]]\<rparr>, st_X = Some ex_X1, st_rho = 1,
     st_last_mat = ex_X1, st_it = 1,
     st_tol = Some (norm_fro \<lparr>nrows = 1, ncols = 2, rows = [[- 3 / 5, - 9 / 5]]\<rparr> / norm_fro ex_S)\<rparr>"

text \<open>The same call on a matrix of zeros.\<close>

definition ex_zero_S :: "real array2" where
  "ex_zero_S = \<lparr>nrows = 1, ncols = 2, rows = [[0, 0]]\<rparr>"

definition ex_zero_args :: args where
  "ex_zero_args = ex_args\<lparr>arg_sparse_mat := ex_zero_S\<rparr>"

text \<open>
  The worked call on the integer array \<open>[[3, 6]]\<close>: the mean of the nonzero entries is
  \<open>4.5\<close> and the missing entry of \<open>Z\<close> becomes \<open>4\<close>.
\<close>

definition ex_int_S :: "real array2" where
  "ex_int_S = \<lparr>nrows = 1, ncols = 2, rows = [[3, 6]]\<rparr>"

definition ex_int_args :: args where
  "ex_int_args = \<lparr>arg_dense_mat = ex_int_S, arg_sparse_mat = ex_int_S, arg_time_lags = [1],
     arg_rho0 = 20 / 21, arg_lambda0 = 1, arg_theta = 0, arg_epsilon = 1 / 10000, arg_maxiter = 1,
     arg_K = 1, arg_pos_missing = ex_pos,
     arg_A_rand = (\<lambda>i j. 0), arg_dtype = Int64\<rparr>"

definition ex_int_pr :: prep where
  "ex_int_pr = \<lparr>pr_rows = 1, pr_cols = 2, pr_d = 1, pr_max_lag = 1,
     pr_Psis = [\<lparr>coo_data = [1], coo_row = [0], coo_col = [1], coo_shape = (1, 2)\<rparr>,
                \<lparr>coo_data = [1], coo_row = [0], coo_col = [0], coo_shape = (1, 2)\<rparr>],
     pr_iden = \<lparr>coo_data = [1, 1], coo_row = [0, 1], coo_col = [0, 1], coo_shape = (2, 2)\<rparr>,
     pr_ind = [[0]], pr_snorm = norm_fro ex_int_S,
     pr_dense_test = Flat [6]\<rparr>"

definition ex_int_st0 :: state where
  "ex_int_st0 = \<lparr>st_Z = \<lparr>nrows = 1, ncols = 2, rows = [[3, 4]]\<rparr>, st_T = np_zeros 1 2,
     st_A = \<lparr>nrows = 1, ncols = 1, rows = [[0]]\<rparr>, st_X = None, st_rho = 20 / 21,
     st_last_mat = ex_int_S, st_it = 0, st_tol = None\<rparr>"

text \<open>
  The worked call with the lag \<open>2\<close>, the number of columns: the lag operators have no
  rows, the systems to solve are the identity and the matrix to pseudo-invert is empty.
  Then three calls that fail: with the lag \<open>3\<close>, with a mask of another shape, and
  with a negative lag.
\<close>

definition ex_lag_args :: args where
  "ex_lag_args = ex_args\<lparr>arg_time_lags := [2]\<rparr>"

definition ex_lag_lib :: numlib where
  "ex_lag_lib = \<lparr>
     lib_svd = lib_svd ex_lib,
     lib_spsolve = (\<lambda>M b. if M = \<lparr>nrows = 2, ncols = 2, rows = [[1, 0], [0, 1]]\<rparr>
                     then Inr b else Inl LinAlgError),
     lib_pinv = (\<lambda>M. if M = \<lparr>nrows = 0, ncols = 1, rows = []\<rparr>
                     then Inr \<lparr>nrows = 1, ncols = 0, rows = [[]]\<rparr> else Inl LinAlgError)\<rparr>"

definition ex_lag_pr :: prep where
  "ex_lag_pr = \<lparr>pr_rows = 1, pr_cols = 2, pr_d = 1, pr_max_lag = 2,
     pr_Psis = [\<lparr>coo_data = [], coo_row = [], coo_col = [], coo_shape = (0, 2)\<rparr>,
                \<lparr>coo_data = [], coo_row = [], coo_col = [], coo_shape = (0, 2)\<rparr>],
     pr_iden = \<lparr>coo_data = [1, 1], coo_row = [0, 1], coo_col = [0, 1], coo_shape = (2, 2)\<rparr>,
     pr_ind = [[]], pr_snorm = norm_fro ex_S,
     pr_dense_test = Flat [5]\<rparr>"

definition ex_lag_st1 :: state where
  "ex_lag_st1 = \<lparr>st_Z = \<lparr>nrows = 1, ncols = 2, rows = [[3, 16 / 5]]\<rparr>,
     st_T = \<lparr>nrows = 1, ncols = 2, rows = [[- 3 / 5, 0]]\<rparr>,
     st_A = \<lparr>nrows = 1, ncols = 1, rows = [[0]]\<rparr>, st_X = Some ex_X1, st_rho = 1,
     st_last_mat = ex_X1, st_it = 1,
     st_tol = Some (norm_fro \<lparr>nrows = 1, ncols = 2, rows = [[- 3 / 5, - 9 / 5]]\<rparr> / norm_fro ex_S)\<rparr>"

definition ex_big_args :: args where
  "ex_big_args = ex_args\<lparr>arg_time_lags := [3]\<rparr>"

definition ex_badmask_args :: args where
  "ex_badmask_args = ex_args\<lparr>arg_pos_missing := Some \<lparr>nrows = 1, ncols = 1, rows = [[True]]\<rparr>\<rparr>"

definition ex_neg_args :: args where
  "ex_neg_args = ex_args\<lparr>arg_time_lags := [- 1, 1]\<rparr>"


text \<open>
  A second call, on the matrix \<open>[[3, 4]]\<close> with no entry missing, for which two
  iterations are followed.  Its library functions are correct on the arguments they
  accept: the decomposition of a positive multiple of \<open>[[3, 4]]\<close>, Cramer's rule for a
  regular \<open>2 \<times> 2\<close> system and the inverse of a nonzero \<open>1 \<times> 1\<close> matrix.
\<close>

definition ex2_S :: "real array2" where
  "ex2_S = \<lparr>nrows = 1, ncols = 2, rows = [[3, 4]]\<rparr>"

definition ex2_pos :: "bool array2 option" where
  "ex2_pos = Some \<lparr>nrows = 1, ncols = 2, rows = [[False, False]]\<rparr>"

definition ex2_args :: args where
  "ex2_args = \<lparr>arg_dense_mat = ex2_S, arg_sparse_mat = ex2_S, arg_time_lags = [1],
     arg_rho0 = 20 / 21, arg_lambda0 = 1, arg_theta = 0, arg_epsilon = 1 / 10000, arg_maxiter = 2,
     arg_K = 1, arg_pos_missing = ex2_pos,
     arg_A_rand = (\<lambda>i j. 0), arg_dtype = Float64\<rparr>"

definition ex2_lib :: numlib where
  "ex2_lib = \<lparr>
     lib_svd = (\<lambda>M. if nrows M = 1 \<and> ncols M = 2 \<and> length (rows M) = 1 \<and> length (rows M ! 0) = 2 \<and>
                        0 < entry M 0 0 \<and> 3 * entry M 0 1 = 4 * entry M 0 0
                     then Inr (\<lparr>nrows = 1, ncols = 1, rows = [[1]]\<rparr>, [5 * entry M 0 0 / 3],
                               \<lparr>nrows = 1, ncols = 2, rows = [[3 / 5, 4 / 5]]\<rparr>)
                     else Inl LinAlgError),
     lib_spsolve = (\<lambda>M b.
        (let det = entry M 0 0 * entry M 1 1 - entry M 0 1 * entry M 1 0 in
         if nrows M = 2 \<and> ncols M = 2 \<and> length b = 2 \<and> det \<noteq> 0
         then Inr [(entry M 1 1 * b ! 0 - entry M 0 1 * b ! 1) / det,
                   (entry M 0 0 * b ! 1 - entry M 1 0 * b ! 0) / det]
         else Inl LinAlgError)),
     lib_pinv = (\<lambda>M. if nrows M = 1 \<and> ncols M = 1 \<and> entry M 0 0 \<noteq> 0
                     then Inr \<lparr>nrows = 1, ncols = 1, rows = [[1 / entry M 0 0]]\<rparr>
                     else Inl LinAlgError)\<rparr>"

definition ex2_pr :: prep where
  "ex2_pr = ex_pr\<lparr>pr_snorm := norm_fro ex2_S, pr_dense_test := Flat []\<rparr>"

definition ex2_st0 :: state where
  "ex2_st0 = \<lparr>st_Z = ex2_S, st_T = np_zeros 1 2,
     st_A = \<lparr>nrows = 1, ncols = 1, rows = [[0]]\<rparr>, st_X = None, st_rho = 20 / 21,
     st_last_mat = ex2_S, st_it = 0, st_tol = None\<rparr>"

definition ex2_st1 :: state where
  "ex2_st1 = \<lparr>st_Z = ex2_S,
     st_T = \<lparr>nrows = 1, ncols = 2, rows = [[- 3 / 5, - 4 / 5]]\<rparr>,
     st_A = \<lparr>nrows = 1, ncols = 1, rows = [[4 / 3]]\<rparr>, st_X = Some ex_X1, st_rho = 1,
     st_last_mat = ex_X1, st_it = 1,
     st_tol = Some (norm_fro \<lparr>nrows = 1, ncols = 2, rows = [[- 3 / 5, - 4 / 5]]\<rparr> / norm_fro ex2_S)\<rparr>"

definition ex2_st2 :: state where
  "ex2_st2 = \<lparr>st_Z = ex2_S,
     st_T = \<lparr>nrows = 1, ncols = 2, rows = [[- 3 / 5, - 4 / 5]]\<rparr>,
     st_A = \<lparr>nrows = 1, ncols = 1, rows = [[4 / 3]]\<rparr>, st_X = Some ex2_S, st_rho = 21 / 20,
     st_last_mat = ex2_S, st_it = 2,
     st_tol = Some (norm_fro \<lparr>nrows = 1, ncols = 2, rows = [[3 / 5, 4 / 5]]\<rparr> / norm_fro ex2_S)\<rparr>"

text \<open>A tensor of shape \<open>(2, 3)\<close> and an empty tensor of shape \<open>(0, 3)\<close>.\<close>

definition ex_ten :: "real tensor" where
  "ex_ten = \<lparr>shape = [2, 3], flat = [1, 2, 3, 4, 5, 6]\<rparr>"

definition ex_empty_ten :: "real tensor" where
  "ex_empty_ten = \<lparr>shape = [0, 3], flat = []\<rparr>"

text \<open>
  Calls of \<open>svt_tnn\<close> on \<open>2 \<times> 5\<close> matrices and on a \<open>5 \<times> 2\<close> matrix, each with an
  \<open>np.linalg.svd\<close> that is given on the matrices it is called with: one for matrices
  with the singular values \<open>2\<close> and \<open>1\<close>, one for a matrix with the singular values \<open>1\<close>
  and \<open>1\<close>.
\<close>

definition ex_id2 :: "real array2" where
  "ex_id2 = \<lparr>nrows = 2, ncols = 2, rows = [[1, 0], [0, 1]]\<rparr>"

definition ex_swap2 :: "real array2" where
  "ex_swap2 = \<lparr>nrows = 2, ncols = 2, rows = [[0, 1], [1, 0]]\<rparr>"

definition ex_wide :: "real array2" where
  "ex_wide = \<lparr>nrows = 2, ncols = 5, rows = [[2, 0, 0, 0, 0], [0, 1, 0, 0, 0]]\<rparr>"

definition ex_wide_v :: "real array2" where
  "ex_wide_v = \<lparr>nrows = 2, ncols = 5, rows = [[1, 0, 0, 0, 0], [0, 1, 0, 0, 0]]\<rparr>"

definition ex_wide_gram :: "real array2" where
  "ex_wide_gram = \<lparr>nrows = 2, ncols = 2, rows = [[4, 0], [0, 1]]\<rparr>"

definition ex_tall :: "real array2" where
  "ex_tall = \<lparr>nrows = 5, ncols = 2, rows = [[2, 0], [0, 1], [0, 0], [0, 0], [0, 0]]\<rparr>"

definition ex_tall_u :: "real array2" where
  "ex_tall_u = \<lparr>nrows = 5, ncols = 2, rows = [[1, 0], [0, 1], [0, 0], [0, 0], [0, 0]]\<rparr>"

definition ex_wide_svd :: svd_fn where
  "ex_wide_svd A =
     (if A = ex_wide then Inr (ex_id2, [2, 1], ex_wide_v)
      else if A = ex_wide_gram then Inr (ex_id2, [4, 1], ex_id2)
      else if A = ex_tall then Inr (ex_tall_u, [2, 1], ex_id2)
      else Inl LinAlgError)"

definition ex_tall_result :: "real array2" where
  "ex_tall_result = \<lparr>nrows = 5, ncols = 2, rows = [[2, 0], [0, 1 / 2], [0, 0], [0, 0], [0, 0]]\<rparr>"

definition ex_wide_result :: "real array2" where
  "ex_wide_result = \<lparr>nrows = 2, ncols = 5, rows = [[2, 0, 0, 0, 0], [0, 1 / 2, 0, 0, 0]]\<rparr>"

definition ex_tie_svd :: svd_fn where
  "ex_tie_svd A =
     (if A = ex_wide_v then Inr (ex_id2, [1, 1], ex_wide_v)
      else if A = ex_id2 then Inr (ex_swap2, [1, 1], ex_swap2)
      else Inl LinAlgError)"

text \<open>
  A \<open>2 \<times> 5\<close> matrix with the singular values \<open>2\<close> and \<open>2\<close>, its Gram matrix, and an
  \<open>np.linalg.svd\<close> given on the two: for the matrix, \<open>u\<close> is the rotation by a quarter
  turn, for the Gram matrix \<open>4 I\<close> it is the identity.
\<close>

definition ex_rot_M :: "real array2" where
  "ex_rot_M = \<lparr>nrows = 2, ncols = 5, rows = [[1, 1, 1, 1, 0], [1, - 1, 1, - 1, 0]]\<rparr>"

definition ex_rot_u :: "real array2" where
  "ex_rot_u = \<lparr>nrows = 2, ncols = 2, rows = [[0, - 1], [1, 0]]\<rparr>"

definition ex_rot_v :: "real array2" where
  "ex_rot_v = \<lparr>nrows = 2, ncols = 5,
     rows = [[1 / 2, - 1 / 2, 1 / 2, - 1 / 2, 0], [- 1 / 2, - 1 / 2, - 1 / 2, - 1 / 2, 0]]\<rparr>"

definition ex_rot_gram :: "real array2" where
  "ex_rot_gram = \<lparr>nrows = 2, ncols = 2, rows = [[4, 0], [0, 4]]\<rparr>"

definition ex_rot_svd :: svd_fn where
  "ex_rot_svd A =
     (if A = ex_rot_M then Inr (ex_rot_u, [2, 2], ex_rot_v)
      else if A = ex_rot_gram then Inr (ex_id2, [4, 4], ex_id2)
      else Inl LinAlgError)"

definition ex_rot_gram_result :: "real array2" where
  "ex_rot_gram_result = \<lparr>nrows = 2, ncols = 5,
     rows = [[1, 1, 1, 1, 0], [3 / 4, - 3 / 4, 3 / 4, - 3 / 4, 0]]\<rparr>"

definition ex_rot_direct_result :: "real array2" where
  "ex_rot_direct_result = \<lparr>nrows = 2, ncols = 5,
     rows = [[3 / 4, 3 / 4, 3 / 4, 3 / 4, 0], [1, - 1, 1, - 1, 0]]\<rparr>"

text \<open>The \<open>2 \<times> 2\<close> matrix with the singular values \<open>4\<close> and \<open>1\<close>, thresholded.\<close>

definition ex_gram_result :: "real array2" where
  "ex_gram_result = \<lparr>nrows = 2, ncols = 2, rows = [[4, 0], [0, 1 / 2]]\<rparr>"









section \<open>Arrays: shapes, entries and flattening\<close>

lemma nrows_mk_array [simp]: "nrows (mk_array r c f) = r"
  by (simp add: mk_array_def)

lemma ncols_mk_array [simp]: "ncols (mk_array r c f) = c"
  by (simp add: mk_array_def)

lemma entry_mk_array [simp]: "i < r \<Longrightarrow> j < c \<Longrightarrow> entry (mk_array r c f) i j = f i j"
  by (simp add: mk_array_def entry_def)

lemma wf_mk_array [simp]: "wf_array (mk_array r c f)"
  by (simp add: wf_array_def mk_array_def list_all_iff)

lemma array_eqI:
  assumes "wf_array M" "wf_array N" "nrows M = nrows N" "ncols M = ncols N"
    and "\<And>i j. i < nrows M \<Longrightarrow> j < ncols M \<Longrightarrow> entry M i j = entry N i j"
  shows "M = N"
proof -
  have "rows M = rows N"
  proof (rule nth_equalityI)
    show "length (rows M) = length (rows N)"
      using assms(1-3) by (simp add: wf_array_def)
  next
    fix i assume i: "i < length (rows M)"
    then have iM: "i < nrows M" and iN: "i < length (rows N)"
      using assms(1-3) by (simp_all add: wf_array_def)
    have lM: "length (rows M ! i) = ncols M"
      using assms(1) i by (simp add: wf_array_def list_all_length)
    have lN: "length (rows N ! i) = ncols N"
      using assms(2) iN by (simp add: wf_array_def list_all_length)
    show "rows M ! i = rows N ! i"
    proof (rule nth_equalityI)
      show "length (rows M ! i) = length (rows N ! i)" using lM lN assms(4) by simp
    next
      fix j assume "j < length (rows M ! i)"
      then have "j < ncols M" using lM by simp
      from assms(5) [OF iM this] show "rows M ! i ! j = rows N ! i ! j"
        by (simp add: entry_def)
    qed
  qed
  then show ?thesis using assms(3,4) by simp
qed

lemma mk_array_entries: "wf_array M \<Longrightarrow> mk_array (nrows M) (ncols M) (entry M) = M"
  by (rule array_eqI) simp_all

lemma concat_uniform_length:
  "list_all (\<lambda>r. length r = c) xss \<Longrightarrow> length (concat xss) = length xss * c"
  by (induction xss) simp_all

lemma concat_uniform_nth:
  "list_all (\<lambda>r. length r = c) xss \<Longrightarrow> i < length xss \<Longrightarrow> j < c \<Longrightarrow>
     concat xss ! (i * c + j) = xss ! i ! j"
proof (induction xss arbitrary: i)
  case Nil
  then show ?case by simp
next
  case (Cons xs xss)
  show ?case
  proof (cases i)
    case 0
    then show ?thesis using Cons.prems by (simp add: nth_append)
  next
    case (Suc i')
    then show ?thesis using Cons.prems Cons.IH [of i'] by (simp add: nth_append)
  qed
qed

lemma flat_index_less: "i < r \<Longrightarrow> j < c \<Longrightarrow> i * c + j < r * (c::nat)"
proof -
  assume i: "i < r" and j: "j < c"
  have "i * c + j < i * c + c" using j by simp
  also have "\<dots> = Suc i * c" by simp
  also have "\<dots> \<le> r * c" using i by (intro mult_le_mono1) simp
  finally show ?thesis .
qed

lemma length_concat_rows: "wf_array M \<Longrightarrow> length (concat (rows M)) = nrows M * ncols M"
  by (auto simp: wf_array_def dest: concat_uniform_length)

lemma concat_rows_nth:
  "wf_array M \<Longrightarrow> i < nrows M \<Longrightarrow> j < ncols M \<Longrightarrow> concat (rows M) ! (i * ncols M + j) = entry M i j"
  by (simp add: wf_array_def entry_def concat_uniform_nth)

lemma filter_zip_rank:
  "length xs = length bs \<Longrightarrow> p < length bs \<Longrightarrow> bs ! p \<Longrightarrow>
     map fst (filter snd (zip xs bs)) ! rank_in bs p = xs ! p"
proof (induction bs arbitrary: xs p)
  case Nil
  then show ?case by simp
next
  case (Cons b bs)
  then obtain x xs' where xs: "xs = x # xs'" by (cases xs) auto
  show ?case
  proof (cases p)
    case 0
    then show ?thesis using Cons.prems xs by (simp add: rank_in_def)
  next
    case (Suc p')
    then have "map fst (filter snd (zip xs' bs)) ! rank_in bs p' = xs' ! p'"
      using Cons.prems xs by (intro Cons.IH) simp_all
    then show ?thesis using Suc xs by (simp add: rank_in_def)
  qed
qed

lemma length_filter_zip:
  "length xs = length bs \<Longrightarrow> length (filter snd (zip xs bs)) = length (filter id bs)"
proof (induction bs arbitrary: xs)
  case Nil
  then show ?case by simp
next
  case (Cons b bs)
  then obtain x xs' where "xs = x # xs'" by (cases xs) auto
  then show ?case using Cons by simp
qed

section \<open>The lag operators are selection matrices\<close>

lemma fold_max_Max: "fold max r (x::int) = Max (set (x # r))"
  by (simp only: Max.set_eq_fold)

lemma np_max_Max: "xs \<noteq> [] \<Longrightarrow> np_max xs = Inr (Max (set xs))"
  by (cases xs) (simp_all add: np_max_def fold_max_Max del: set_simps)

lemma upto_map_int: "[0..int N - 1] = map int [0..<N]"
proof (induction N)
  case 0
  show ?case by simp
next
  case (Suc N)
  have "[0..int (Suc N) - 1] = [0..int N]" by simp
  also have "\<dots> = [0..int N - 1] @ [int N]"
    by (rule upto_rec2) simp
  finally show ?case using Suc.IH by simp
qed

lemma arange_nat: "0 \<le> n \<Longrightarrow> arange 0 n = map int [0..<nat n]"
  using upto_map_int [of "nat n"] by (simp add: arange_def)

lemma collect_all_Inr:
  "(\<And>i. i \<in> set is \<Longrightarrow> f i = Inr (g i)) \<Longrightarrow> collect f is = Inr (map g is)"
  by (induction "is") simp_all

lemma coo_sum_diag:
  "sum_list (map (\<lambda>(v, r, c). if r = int i \<and> c = int j then v else 0)
      (zip (replicate N (1::real)) (zip (map int [0..<N]) (map (\<lambda>k. k + off) (map int [0..<N])))))
   = (if i < N \<and> int j = int i + off then 1 else 0)"
proof -
  have z: "zip (replicate N (1::real)) (zip (map int [0..<N]) (map (\<lambda>k. k + off) (map int [0..<N])))
        = map (\<lambda>k. (1, int k, int k + off)) [0..<N]"
    by (rule nth_equalityI) simp_all
  have e: "\<And>k. (if int k = int i \<and> int k + off = int j then 1::real else 0)
       = (if i = k then (if int j = int i + off then 1 else 0) else 0)"
    by auto
  have "sum_list (map (\<lambda>(v, r, c). if r = int i \<and> c = int j then v else 0)
           (map (\<lambda>k. (1::real, int k, int k + off)) [0..<N]))
        = sum_list (map (\<lambda>k. if i = k then (if int j = int i + off then 1 else 0) else 0) [0..<N])"
    by (simp only: map_map comp_def prod.case e)
  also have "\<dots> = (\<Sum>k \<in> {0..<N}. if i = k then (if int j = int i + off then 1 else 0) else 0)"
    by (simp only: interv_sum_list_conv_sum_set_nat set_upt)
  also have "\<dots> = (if i < N \<and> int j = int i + off then 1 else 0)"
    by (subst sum.delta') auto
  finally show ?thesis using z by simp
qed

lemma Psi_at_ok:
  assumes ne: "time_lags \<noteq> []"
    and lags: "\<forall>l \<in> set time_lags. 0 < l \<and> l < cols"
    and i: "i \<le> length time_lags"
  shows "Psi_at cols time_lags (Max (set time_lags)) i =
     Inr \<lparr>coo_data = replicate (nat (cols - Max (set time_lags))) 1,
          coo_row = map int [0..<nat (cols - Max (set time_lags))],
          coo_col = map (\<lambda>k. k + lag_offset time_lags i)
                      (map int [0..<nat (cols - Max (set time_lags))]),
          coo_shape = (cols - Max (set time_lags), cols)\<rparr>"
proof -
  let ?mx = "Max (set time_lags)"
  let ?N = "nat (cols - ?mx)"
  have mx_in: "?mx \<in> set time_lags" using ne by (simp add: Max_in)
  then have mx: "0 < ?mx" "?mx < cols" using lags by auto
  have off: "0 \<le> lag_offset time_lags i" "lag_offset time_lags i \<le> ?mx"
  proof -
    show "0 \<le> lag_offset time_lags i"
    proof (cases "i = 0")
      case True
      then show ?thesis using mx by (simp add: lag_offset_def)
    next
      case False
      then have "time_lags ! (i - 1) \<in> set time_lags" using i by simp
      then have "time_lags ! (i - 1) \<le> ?mx" by simp
      then show ?thesis using False by (simp add: lag_offset_def)
    qed
    show "lag_offset time_lags i \<le> ?mx"
    proof (cases "i = 0")
      case True
      then show ?thesis by (simp add: lag_offset_def)
    next
      case False
      then have "time_lags ! (i - 1) \<in> set time_lags" using i by simp
      then have "0 < time_lags ! (i - 1)" using lags by blast
      then show ?thesis using False by (simp add: lag_offset_def)
    qed
  qed
  have ar: "arange 0 (cols - ?mx) = map int [0..<?N]"
    using mx by (simp add: arange_nat)
  have col: "(if i = 0 then map (\<lambda>k. k + ?mx) (map int [0..<?N])
              else map (\<lambda>k. k + ?mx - time_lags ! (i - 1)) (map int [0..<?N]))
           = map (\<lambda>k. k + lag_offset time_lags i) (map int [0..<?N])"
    by (simp add: lag_offset_def algebra_simps)
  have ones: "np_ones (cols - ?mx) = Inr (replicate ?N 1)"
    using mx by (simp add: np_ones_def)
  have rng: "\<forall>k < ?N. 0 \<le> int k + lag_offset time_lags i \<and> int k + lag_offset time_lags i < cols"
    using off mx by auto
  have c1: "\<not> (\<exists>r \<in> set (map int [0..<?N]). r \<ge> cols - ?mx)" by auto
  have c2: "\<not> (\<exists>c \<in> set (map (\<lambda>k. k + lag_offset time_lags i) (map int [0..<?N])). c \<ge> cols)"
    using rng by auto
  have c3: "\<not> (\<exists>r \<in> set (map int [0..<?N]). r < 0)" by auto
  have c4: "\<not> (\<exists>c \<in> set (map (\<lambda>k. k + lag_offset time_lags i) (map int [0..<?N])). c < 0)"
    using rng by auto
  have c0: "\<not> (cols - ?mx < 0 \<or> cols < 0)" using mx by simp
  have "Psi_at cols time_lags ?mx i =
      coo_matrix (replicate ?N 1) (map int [0..<?N])
        (map (\<lambda>k. k + lag_offset time_lags i) (map int [0..<?N])) (cols - ?mx, cols)"
    by (simp only: Psi_at_def Let_def ar col ones bindE_Inr)
  also have "\<dots> = Inr \<lparr>coo_data = replicate ?N 1, coo_row = map int [0..<?N],
          coo_col = map (\<lambda>k. k + lag_offset time_lags i) (map int [0..<?N]),
          coo_shape = (cols - ?mx, cols)\<rparr>"
    unfolding coo_matrix_def fst_conv snd_conv
    by (simp only: c0 c1 c2 c3 c4 if_False length_map length_replicate length_upt
        simp_thms minus_nat.diff_0)
  finally show ?thesis .
qed

lemma toarray_selection:
  "0 \<le> r \<Longrightarrow> toarray \<lparr>coo_data = replicate (nat r) 1, coo_row = map int [0..<nat r],
        coo_col = map (\<lambda>k. k + off) (map int [0..<nat r]), coo_shape = (r, c)\<rparr>
   = selection_matrix (nat r) (nat c) off"
  by (simp only: toarray_def selection_matrix_def coo_matrix.select_convs fst_conv snd_conv
      coo_sum_diag) (simp add: mk_array_def)

lemma selection_matrix_row:
  "k < r \<Longrightarrow> rows (selection_matrix r c off) ! k
     = map (\<lambda>j. if int j = int k + off then 1 else 0) [0..<c]"
  by (simp add: selection_matrix_def mk_array_def)

lemma selection_matrix_one_per_row:
  assumes "k < r" "0 \<le> int k + off" "int k + off < int c"
  shows "length (filter (\<lambda>x. x \<noteq> 0) (rows (selection_matrix r c off) ! k)) = 1"
proof -
  have "{j. j < c \<and> map (\<lambda>j. if int j = int k + off then 1 else (0::real)) [0..<c] ! j \<noteq> 0}
        = {j. j < c \<and> int j = int k + off}"
    by (auto split: if_splits)
  also have "\<dots> = {nat (int k + off)}"
    using assms by auto
  finally show ?thesis
    using assms(1) by (simp add: selection_matrix_row length_filter_conv_card)
qed

lemma selection_matrix_zero_one:
  "k < r \<Longrightarrow> set (rows (selection_matrix r c off) ! k) \<subseteq> {0, 1}"
  by (auto simp: selection_matrix_row)

lemma generate_Psi_example:
  "map_sum id (map toarray) (generate_Psi 5 [1, 3]) =
     Inr [\<lparr>nrows = 2, ncols = 5, rows = [[0, 0, 0, 1, 0], [0, 0, 0, 0, 1]]\<rparr>,
          \<lparr>nrows = 2, ncols = 5, rows = [[0, 0, 1, 0, 0], [0, 0, 0, 1, 0]]\<rparr>,
          \<lparr>nrows = 2, ncols = 5, rows = [[1, 0, 0, 0, 0], [0, 1, 0, 0, 0]]\<rparr>]"
  by code_simp

lemma generate_Psi_general:
  assumes ne: "time_lags \<noteq> []"
    and lags: "\<forall>l \<in> set time_lags. 0 < l \<and> l < cols"
  shows "\<exists>Psis. generate_Psi cols time_lags = Inr Psis \<and> length Psis = length time_lags + 1 \<and>
         (\<forall>i \<le> length time_lags.
            coo_shape (Psis ! i) = (cols - Max (set time_lags), cols) \<and>
            toarray (Psis ! i) = selection_matrix (nat (cols - Max (set time_lags))) (nat cols)
                                   (lag_offset time_lags i) \<and>
            (\<forall>k < nat (cols - Max (set time_lags)).
               set (rows (toarray (Psis ! i)) ! k) \<subseteq> {0, 1} \<and>
               length (filter (\<lambda>x. x \<noteq> 0) (rows (toarray (Psis ! i)) ! k)) = 1))"
proof -
  let ?mx = "Max (set time_lags)"
  let ?N = "nat (cols - ?mx)"
  let ?P = "\<lambda>i. \<lparr>coo_data = replicate ?N 1, coo_row = map int [0..<?N],
          coo_col = map (\<lambda>k. k + lag_offset time_lags i) (map int [0..<?N]),
          coo_shape = (cols - ?mx, cols)\<rparr>"
  define Psis where "Psis = map ?P [0..<length time_lags + 1]"
  have mx_in: "?mx \<in> set time_lags" using ne by (simp add: Max_in)
  then have mx: "0 < ?mx" "?mx < cols" using lags by auto
  have gen: "generate_Psi cols time_lags = Inr Psis"
    unfolding generate_Psi_def np_max_Max [OF ne] bindE_Inr Psis_def
  proof (rule collect_all_Inr)
    fix i
    assume "i \<in> set [0..<length time_lags + 1]"
    then have "i \<le> length time_lags" by auto
    then show "Psi_at cols time_lags ?mx i = Inr (?P i)"
      by (rule Psi_at_ok [OF ne lags])
  qed
  have len: "length Psis = length time_lags + 1"
    by (simp add: Psis_def)
  have each: "coo_shape (Psis ! i) = (cols - ?mx, cols) \<and>
      toarray (Psis ! i) = selection_matrix ?N (nat cols) (lag_offset time_lags i) \<and>
      (\<forall>k < ?N. set (rows (toarray (Psis ! i)) ! k) \<subseteq> {0, 1} \<and>
          length (filter (\<lambda>x. x \<noteq> 0) (rows (toarray (Psis ! i)) ! k)) = 1)"
    if i: "i \<le> length time_lags" for i
  proof -
    have nth: "Psis ! i = ?P i"
      unfolding Psis_def using i by (simp only: nth_map_upt) simp
    have ta: "toarray (?P i) = selection_matrix ?N (nat cols) (lag_offset time_lags i)"
      using mx by (intro toarray_selection) simp
    have off: "0 \<le> lag_offset time_lags i"
    proof (cases "i = 0")
      case True
      then show ?thesis using mx by (simp add: lag_offset_def)
    next
      case False
      then have "time_lags ! (i - 1) \<in> set time_lags" using i by simp
      then have "time_lags ! (i - 1) \<le> ?mx" by simp
      then show ?thesis using False by (simp add: lag_offset_def)
    qed
    have off2: "lag_offset time_lags i \<le> ?mx"
    proof (cases "i = 0")
      case True
      then show ?thesis by (simp add: lag_offset_def)
    next
      case False
      then have "time_lags ! (i - 1) \<in> set time_lags" using i by simp
      then have "0 < time_lags ! (i - 1)" using lags by blast
      then show ?thesis using False by (simp add: lag_offset_def)
    qed
    have rowsok: "set (rows (selection_matrix ?N (nat cols) (lag_offset time_lags i)) ! k) \<subseteq> {0, 1} \<and>
          length (filter (\<lambda>x. x \<noteq> 0) (rows (selection_matrix ?N (nat cols) (lag_offset time_lags i)) ! k)) = 1"
      if k: "k < ?N" for k
    proof
      show "set (rows (selection_matrix ?N (nat cols) (lag_offset time_lags i)) ! k) \<subseteq> {0, 1}"
        using k by (rule selection_matrix_zero_one)
      have "int k + lag_offset time_lags i < int (nat cols)"
        using k off2 mx by linarith
      then show "length (filter (\<lambda>x. x \<noteq> 0)
           (rows (selection_matrix ?N (nat cols) (lag_offset time_lags i)) ! k)) = 1"
        using k off by (intro selection_matrix_one_per_row) simp_all
    qed
    show ?thesis
      unfolding nth ta using rowsok by simp
  qed
  show ?thesis
    using gen len each by blast
qed

text \<open>
  Claim C4.  For a time length \<open>cols\<close> and a non-empty list of lags, each positive and
  below \<open>cols\<close>, \<open>generate_Psi\<close> returns \<open>d + 1\<close> operators of shape
  \<open>(cols - max_lag, cols)\<close>; the dense value of operator \<open>i\<close> is the 0/1 matrix whose
  row \<open>k\<close> has its single nonzero entry, a one, at column \<open>k + max_lag\<close> for \<open>i = 0\<close> and
  at column \<open>k + max_lag - l\<^sub>i\<close> for \<open>i \<ge> 1\<close>, so that the operators select the columns
  \<open>[max_lag, cols)\<close> and \<open>[max_lag - l\<^sub>i, cols - l\<^sub>i)\<close>.  For \<open>cols = 5\<close> and lags
  \<open>[1, 3]\<close> the three operators are the matrices printed in the notebook.  (The list
  of lags is not empty: \<open>max_lag\<close> is its maximum.)
\<close>

theorem generate_Psi_selection:
  "(time_lags \<noteq> [] \<and> (\<forall>l \<in> set time_lags. 0 < l \<and> l < cols) \<longrightarrow>
      (\<exists>Psis. generate_Psi cols time_lags = Inr Psis \<and> length Psis = length time_lags + 1 \<and>
         (\<forall>i \<le> length time_lags.
            coo_shape (Psis ! i) = (cols - Max (set time_lags), cols) \<and>
            toarray (Psis ! i) = selection_matrix (nat (cols - Max (set time_lags))) (nat cols)
                                   (lag_offset time_lags i) \<and>
            (\<forall>k < nat (cols - Max (set time_lags)).
               set (rows (toarray (Psis ! i)) ! k) \<subseteq> {0, 1} \<and>
               length (filter (\<lambda>x. x \<noteq> 0) (rows (toarray (Psis ! i)) ! k)) = 1))))
   \<and> map_sum id (map toarray) (generate_Psi 5 [1, 3]) =
     Inr [\<lparr>nrows = 2, ncols = 5, rows = [[0, 0, 0, 1, 0], [0, 0, 0, 0, 1]]\<rparr>,
          \<lparr>nrows = 2, ncols = 5, rows = [[0, 0, 1, 0, 0], [0, 0, 0, 1, 0]]\<rparr>,
          \<lparr>nrows = 2, ncols = 5, rows = [[1, 0, 0, 0, 0], [0, 1, 0, 0, 0]]\<rparr>]"
  using generate_Psi_general [of time_lags cols] generate_Psi_example by blast

text \<open>The hypotheses hold for a time length of four and the single lag two.\<close>

theorem generate_Psi_selection_witness:
  "[2::int] \<noteq> [] \<and> list_all (\<lambda>l. 0 < l \<and> l < 4) [2::int] \<and>
   (\<exists>Psis. generate_Psi 4 [2] = Inr Psis \<and> length Psis = 2 \<and>
      coo_shape (Psis ! 1) = (2, 4) \<and>
      toarray (Psis ! 1) = \<lparr>nrows = 2, ncols = 4, rows = [[1, 0, 0, 0], [0, 1, 0, 0]]\<rparr> \<and>
      length (filter (\<lambda>x. x \<noteq> 0) (rows (toarray (Psis ! 1)) ! 0)) = 1)"
proof -
  have h: "[2::int] \<noteq> [] \<and> (\<forall>l \<in> set [2::int]. 0 < l \<and> l < 4)" by simp
  with generate_Psi_selection [of "[2]" 4]
  obtain Psis where g: "generate_Psi 4 [2] = Inr Psis" and l: "length Psis = length [2::int] + 1"
    and a: "\<forall>i \<le> length [2::int].
            coo_shape (Psis ! i) = (4 - Max (set [2]), 4) \<and>
            toarray (Psis ! i) = selection_matrix (nat (4 - Max (set [2]))) (nat 4)
                                   (lag_offset [2] i) \<and>
            (\<forall>k < nat (4 - Max (set [2])).
               set (rows (toarray (Psis ! i)) ! k) \<subseteq> {0, 1} \<and>
               length (filter (\<lambda>x. x \<noteq> 0) (rows (toarray (Psis ! i)) ! k)) = 1)"
    by blast
  from a [THEN spec, of 1] have a1: "coo_shape (Psis ! 1) = (2, 4)"
    and a2: "toarray (Psis ! 1) = selection_matrix 2 4 0"
    and a3: "\<forall>k < 2. length (filter (\<lambda>x. x \<noteq> 0) (rows (toarray (Psis ! 1)) ! k)) = 1"
    by (auto simp add: lag_offset_def)
  have s: "selection_matrix 2 4 0 = \<lparr>nrows = 2, ncols = 4, rows = [[1, 0, 0, 0], [0, 1, 0, 0]]\<rparr>"
    by code_simp
  from a3 have a3': "length (filter (\<lambda>x. x \<noteq> 0) (rows (toarray (Psis ! 1)) ! 0)) = 1" by simp
  show ?thesis using g l a1 a2 a3' s by simp
qed

section \<open>Observed entries of the working matrix are never overwritten\<close>

lemma collect_list_all2:
  "collect f xs = Inr ys \<Longrightarrow> list_all2 (\<lambda>x y. f x = Inr y) xs ys"
  by (induction xs arbitrary: ys) (auto simp: bindE_eq_Inr)

lemma collect_length: "collect f xs = Inr ys \<Longrightarrow> length ys = length xs"
  by (drule collect_list_all2) (simp add: list_all2_lengthD)

lemma collect_nth: "collect f xs = Inr ys \<Longrightarrow> i < length xs \<Longrightarrow> f (xs ! i) = Inr (ys ! i)"
  by (drule collect_list_all2) (auto dest: list_all2_nthD)

lemma row_values_length: "row_values c z = Inr v \<Longrightarrow> length v = c"
  by (auto simp: row_values_def split: if_splits)

lemma fill_mask_Inr:
  assumes "fill_mask M pos v = Inr Z"
  shows "Z = mk_array (nrows M) (ncols M) (\<lambda>i j. if selected pos i j then v else entry M i j)"
  using assms by (simp add: fill_mask_def split: if_splits)

lemma put_mask_Inr:
  assumes "put_mask M pos vals = Inr Z"
  shows "Z = mk_array (nrows M) (ncols M)
            (\<lambda>i j. if selected pos i j then vals ! rank_in (flat_mask pos M) (i * ncols M + j)
                   else entry M i j)"
    and "index_ok pos M"
  using assms by (simp_all add: put_mask_def split: if_splits)

lemma take_mask_Inr:
  assumes "take_mask M pos = Inr vals"
  shows "vals = map fst (filter snd (zip (concat (rows M)) (flat_mask pos M)))"
    and "index_ok pos M"
  using assms by (simp_all add: take_mask_def split: if_splits)

lemma initial_Z_Some:
  assumes "initial_Z dt S pos = Inr (Some Z)"
  shows "\<exists>nz. nonzero_entries S = Inr nz \<and>
           ((\<exists>v w. np_mean nz = Some v \<and> store dt v = Some w \<and> fill_mask S pos w = Inr Z) \<or>
            (np_mean nz = None \<and> take_mask S pos = Inr [] \<and> dt = Float64 \<and> Z = S))"
proof -
  from assms obtain nz where nz: "nonzero_entries S = Inr nz"
    and rest: "(case np_mean nz of
         Some v \<Rightarrow>
           (case store dt v of
              Some w \<Rightarrow> bindE (fill_mask S pos w) (\<lambda>Z. Inr (Some Z))
            | None \<Rightarrow> bindE (take_mask S pos) (\<lambda>sel. Inr None))
       | None \<Rightarrow> bindE (take_mask S pos) (\<lambda>sel.
                   if sel = [] \<and> dt = Float64 then Inr (Some S) else Inr None)) = Inr (Some Z)"
    by (auto simp: initial_Z_def bindE_eq_Inr)
  show ?thesis
  proof (cases "np_mean nz")
    case None
    with rest have "take_mask S pos = Inr [] \<and> dt = Float64 \<and> Z = S"
      by (auto simp: bindE_eq_Inr split: if_splits)
    with nz None show ?thesis by simp
  next
    case (Some v)
    show ?thesis
    proof (cases "store dt v")
      case None
      with rest Some show ?thesis by (auto simp: bindE_eq_Inr)
    next
      case w: (Some w)
      with rest Some have "fill_mask S pos w = Inr Z" by (auto simp: bindE_eq_Inr)
      with nz Some w show ?thesis by simp
    qed
  qed
qed

lemma initial_Z_kept:
  assumes "initial_Z dt S pos = Inr (Some Z)"
  shows "same_shape Z S" and "i < nrows S \<Longrightarrow> j < ncols S \<Longrightarrow> \<not> selected pos i j \<Longrightarrow> entry Z i j = entry S i j"
proof -
  have Z: "Z = S \<or> (\<exists>v. Z = mk_array (nrows S) (ncols S) (\<lambda>i j. if selected pos i j then v else entry S i j))"
    using initial_Z_Some [OF assms] by (auto dest: fill_mask_Inr)
  then show "same_shape Z S" by (auto simp: same_shape_def)
  show "entry Z i j = entry S i j" if "i < nrows S" "j < ncols S" "\<not> selected pos i j"
    using Z that by auto
qed

lemma imputer_init_Inr:
  assumes "imputer_init a = Inr (pr, st0)"
  shows "initial_Z (arg_dtype a) (arg_sparse_mat a) (arg_pos_missing a) = Inr (Some (st_Z st0))"
    and "pr_rows pr = nrows (arg_sparse_mat a)" and "pr_cols pr = ncols (arg_sparse_mat a)"
    and "st_last_mat st0 = arg_sparse_mat a" and "st_X st0 = None" and "st_it st0 = 0"
    and "pr_snorm pr = norm_fro (arg_sparse_mat a)"
    and "np_pick (arg_dense_mat a) (arg_pos_missing a) = Inr (pr_dense_test pr)"
  using assms unfolding imputer_init_def Let_def
  by (auto simp: bindE_eq_Inr split: if_splits option.splits)

lemma imputer_init_kept:
  "imputer_init a = Inr (pr, st0) \<Longrightarrow> observed_kept a (st_Z st0)"
  unfolding observed_kept_def
  using initial_Z_kept [of "arg_dtype a" "arg_sparse_mat a" "arg_pos_missing a" "st_Z st0"]
  by (auto dest: imputer_init_Inr(1))

lemma inner_step_Z:
  assumes "inner_step lib a pr B st = Inr st'"
  shows "\<exists>X mat vals stored. st_X st' = Some X \<and>
      solve_rows lib pr (st_rho st') (arg_lambda0 a) B X (st_T st) = Inr mat \<and>
      take_mask mat (arg_pos_missing a) = Inr vals \<and>
      store_all (arg_dtype a) vals = Some stored \<and>
      put_mask (st_Z st) (arg_pos_missing a) stored = Inr (st_Z st')"
  using assms unfolding inner_step_def Let_def
  by (auto simp: bindE_eq_Inr split: if_splits option.splits)

lemma inner_step_kept:
  assumes step: "inner_step lib a pr B st = Inr st'" and kept: "observed_kept a (st_Z st)"
  shows "observed_kept a (st_Z st')"
proof -
  from inner_step_Z [OF step] obtain stored where
    put: "put_mask (st_Z st) (arg_pos_missing a) stored = Inr (st_Z st')" by blast
  note Z' = put_mask_Inr(1) [OF put]
  from kept have sh: "nrows (st_Z st) = nrows (arg_sparse_mat a)" "ncols (st_Z st) = ncols (arg_sparse_mat a)"
    by (simp_all add: observed_kept_def same_shape_def)
  have "same_shape (st_Z st') (arg_sparse_mat a)"
    by (subst Z') (simp add: same_shape_def sh)
  moreover have "entry (st_Z st') i j = entry (arg_sparse_mat a) i j"
    if "i < nrows (arg_sparse_mat a)" "j < ncols (arg_sparse_mat a)" "\<not> selected (arg_pos_missing a) i j" for i j
  proof -
    have "entry (st_Z st') i j = entry (st_Z st) i j"
      by (subst Z') (use that sh in simp)
    with kept that show ?thesis by (simp add: observed_kept_def)
  qed
  ultimately show ?thesis by (simp add: observed_kept_def)
qed

lemma outer_iteration_parts:
  assumes "outer_iteration lib a pr st = Inr st'"
  shows "\<exists>B st1 X. collect (build_B pr (st_A st)) [0..<pr_rows pr] = Inr B \<and>
      repeat (arg_K a) (inner_step lib a pr B) st = Inr st1 \<and>
      st_X st1 = Some X \<and> st_Z st' = st_Z st1 \<and> st_T st' = st_T st1 \<and> st_X st' = Some X \<and>
      st_rho st' = st_rho st1 \<and>
      st_last_mat st' = X \<and> st_it st' = st_it st1 + 1 \<and>
      (\<exists>diff. ew_sub X (st_last_mat st1) = Inr diff \<and> st_tol st' = tol_of (pr_snorm pr) diff)"
  using assms unfolding outer_iteration_def
  by (auto simp: bindE_eq_Inr split: option.splits if_splits)

lemma outer_iteration_kept:
  assumes it: "outer_iteration lib a pr st = Inr st'" and kept: "observed_kept a (st_Z st)"
  shows "observed_kept a (st_Z st')"
proof -
  from outer_iteration_parts [OF it] obtain B st1 where
    rep: "repeat (arg_K a) (inner_step lib a pr B) st = Inr st1" and Z: "st_Z st' = st_Z st1"
    by blast
  have "observed_kept a (st_Z st1)"
    using repeat_invariant [where P = "\<lambda>s. observed_kept a (st_Z s)", OF _ rep kept]
    by (blast intro: inner_step_kept)
  with Z show ?thesis by simp
qed

lemma reachable_kept:
  assumes init: "imputer_init a = Inr (pr, st0)"
    and outer: "repeat n (outer_iteration lib a pr) st0 = Inr st"
    and inner: "repeat k (inner_step lib a pr B) st = Inr st'"
  shows "observed_kept a (st_Z st')"
proof -
  have "observed_kept a (st_Z st)"
    using repeat_invariant [where P = "\<lambda>s. observed_kept a (st_Z s)", OF _ outer imputer_init_kept [OF init]]
    by (blast intro: outer_iteration_kept)
  then show ?thesis
    using repeat_invariant [where P = "\<lambda>s. observed_kept a (st_Z s)", OF _ inner]
    by (blast intro: inner_step_kept)
qed

lemma ex_S_shape: "nrows ex_S = 1" "ncols ex_S = 2"
  by (simp_all add: ex_S_def)

lemma ex_init_parts:
  "np_max [1] = Inr 1"
  "np_pick ex_S ex_pos = Inr (Flat [5])"
  "initial_Z Float64 ex_S ex_pos = Inr (Some \<lparr>nrows = 1, ncols = 2, rows = [[3, 4]]\<rparr>)"
  "generate_Psi 2 [1] = Inr [\<lparr>coo_data = [1], coo_row = [0], coo_col = [1], coo_shape = (1, 2)\<rparr>,
                \<lparr>coo_data = [1], coo_row = [0], coo_col = [0], coo_shape = (1, 2)\<rparr>]"
  "np_ones 2 = Inr [1, 1]"
  "coo_matrix [1, 1] (arange 0 2) (arange 0 2) (2, 2) =
     Inr \<lparr>coo_data = [1, 1], coo_row = [0, 1], coo_col = [0, 1], coo_shape = (2, 2)\<rparr>"
  "arange 0 1 = [0]"
  by code_simp+

lemma mk_array_1_1:
  "mk_array (Suc 0) (Suc 0) f = \<lparr>nrows = Suc 0, ncols = Suc 0, rows = [[f 0 0]]\<rparr>"
  by (simp add: mk_array_def)

lemma ex_init: "imputer_init ex_args = Inr (ex_pr, ex_st0)"
  by (simp add: imputer_init_def ex_args_def ex_S_shape ex_init_parts ex_pr_def ex_st0_def Let_def
      mk_array_1_1)

text \<open>Evaluating the worked call.\<close>

lemmas array_eval = mk_array_def entry_def same_shape_def np_zeros_def map_array_def
  ew_add_def ew_sub_def transposeA_def matmul_def matvec_def np_diag_def cols_upto_def rows_upto_def
  take_mask_def put_mask_def fill_mask_def index_ok_def selected_def flat_mask_def rank_in_def
  toarray_def row_values_def slice_def assign_slice_def fill_slice_def slice_from_def np_index_def
  upt_conv_Cons

lemma ex_build_B: "collect (build_B ex_pr (st_A ex_st0)) [0..<pr_rows ex_pr] = Inr ex_B"
  by (simp add: ex_st0_def ex_pr_def ex_B_def build_B_def array_eval)

lemma ex_svt:
  "svt_tnn (lib_svd ex_lib) \<lparr>nrows = 1, ncols = 2, rows = [[3, 4]]\<rparr> 1 0 = Inr ex_X1"
  by (simp add: svt_tnn.simps ex_lib_def svt_direct_part_def ex_X1_def array_eval)

lemma ex_solve:
  "solve_rows ex_lib ex_pr 1 1 ex_B ex_X1 (np_zeros 1 2) = Inr \<lparr>nrows = 1, ncols = 2, rows = [[12 / 5, 8 / 5]]\<rparr>"
  by (simp add: solve_rows_def row_system_def ex_lib_def ex_pr_def ex_B_def ex_X1_def array_eval)

lemma ex_inner: "inner_step ex_lib ex_args ex_pr ex_B ex_st0 = Inr ex_st1"
  by (simp add: inner_step_def ex_args_def ex_st0_def ex_st1_def Let_def store_all_def store_def
    svt_tnn.simps svt_direct_part_def solve_rows_def row_system_def ex_lib_def ex_pr_def ex_B_def
    ex_pos_def ex_X1_def array_eval)

lemma solve_rows_Inr:
  assumes "solve_rows lib pr rho lam B X T = Inr mat"
  shows "\<exists>XT mat_rows. ew_add X (map_array (\<lambda>x. x / rho) T) = Inr XT \<and>
      collect (\<lambda>m. bindE (row_system pr rho lam (B ! m)) (\<lambda>lhs.
          bindE (lib_spsolve lib lhs (rows (map_array (\<lambda>x. rho / lam * x) XT) ! m))
            (row_values (pr_cols pr))))
          [0..<pr_rows pr] = Inr mat_rows \<and>
      mat = \<lparr>nrows = pr_rows pr, ncols = pr_cols pr, rows = mat_rows\<rparr>"
  using assms unfolding solve_rows_def Let_def bindE_eq_Inr by blast

lemma solve_rows_shape:
  assumes "solve_rows lib pr rho lam B X T = Inr mat"
  shows "wf_array mat" "nrows mat = pr_rows pr" "ncols mat = pr_cols pr"
proof -
  from solve_rows_Inr [OF assms] obtain XT mat_rows where
    c: "collect (\<lambda>m. bindE (row_system pr rho lam (B ! m)) (\<lambda>lhs.
          bindE (lib_spsolve lib lhs (rows (map_array (\<lambda>x. rho / lam * x) XT) ! m))
            (row_values (pr_cols pr))))
          [0..<pr_rows pr] = Inr mat_rows"
    and mat: "mat = \<lparr>nrows = pr_rows pr, ncols = pr_cols pr, rows = mat_rows\<rparr>"
    by blast
  have len: "length mat_rows = pr_rows pr"
    using collect_length [OF c] by simp
  have each: "length (mat_rows ! m) = pr_cols pr" if "m < pr_rows pr" for m
    using collect_nth [OF c, of m] that
    by (auto simp: bindE_eq_Inr dest: row_values_length)
  show "wf_array mat"
    using len each by (simp add: mat wf_array_def list_all_length)
  show "nrows mat = pr_rows pr" "ncols mat = pr_cols pr"
    by (simp_all add: mat)
qed

lemma flat_mask_length:
  "wf_pos pos \<Longrightarrow> index_ok pos M \<Longrightarrow> length (flat_mask pos M) = nrows M * ncols M"
  by (cases pos) (auto simp: flat_mask_def wf_pos_def index_ok_def same_shape_def length_concat_rows)

lemma flat_mask_nth:
  "wf_pos pos \<Longrightarrow> index_ok pos M \<Longrightarrow> i < nrows M \<Longrightarrow> j < ncols M \<Longrightarrow>
     flat_mask pos M ! (i * ncols M + j) = selected pos i j"
proof (cases pos)
  case None
  assume "i < nrows M" "j < ncols M"
  then have "i * ncols M + j < nrows M * ncols M" by (rule flat_index_less)
  then show ?thesis using None by (simp add: flat_mask_def selected_def)
next
  case (Some msk)
  assume "wf_pos pos" "index_ok pos M" "i < nrows M" "j < ncols M"
  then show ?thesis
    using Some concat_rows_nth [of msk i j]
    by (simp add: flat_mask_def selected_def wf_pos_def index_ok_def same_shape_def)
qed

lemma those_map_nth:
  "those (map f xs) = Some ys \<Longrightarrow>
     length ys = length xs \<and> (\<forall>k < length xs. f (xs ! k) = Some (ys ! k))"
proof (induction xs arbitrary: ys)
  case Nil
  then show ?case by simp
next
  case (Cons x xs)
  then obtain y ys' where y: "f x = Some y" and r: "those (map f xs) = Some ys'"
    and ys: "ys = y # ys'"
    by (auto split: option.splits)
  from Cons.IH [OF r] y ys show ?case by (auto simp: nth_Cons split: nat.splits)
qed

lemma store_all_nth:
  assumes "store_all dt vals = Some stored"
  shows "length stored = length vals"
    and "k < length vals \<Longrightarrow> store dt (vals ! k) = Some (stored ! k)"
  using those_map_nth [OF assms [unfolded store_all_def]] by simp_all

lemma store_all_Float64 [simp]: "store_all Float64 vals = Some vals"
  by (induction vals) (simp_all add: store_all_def store_def)

lemma rank_in_less:
  "p < length bs \<Longrightarrow> bs ! p \<Longrightarrow> rank_in bs p < length (filter id bs)"
proof (induction bs arbitrary: p)
  case Nil
  then show ?case by simp
next
  case (Cons b bs)
  show ?case
  proof (cases p)
    case 0
    with Cons.prems show ?thesis by (simp add: rank_in_def)
  next
    case (Suc p')
    with Cons.prems have "rank_in bs p' < length (filter id bs)" by (intro Cons.IH) simp_all
    with Suc show ?thesis by (simp add: rank_in_def id_def)
  qed
qed

lemma store_Float64 [simp]: "store Float64 x = Some x"
  by (simp add: store_def)

lemma store_Int64:
  "store Int64 x = Some w \<Longrightarrow> w = (if 0 \<le> x then of_int \<lfloor>x\<rfloor> else of_int \<lceil>x\<rceil>)"
  by (auto simp: store_def trunc_toward_zero_def Let_def split: if_splits)

lemma copy_selected_entry:
  assumes wf: "wf_pos pos" "wf_array mat"
    and sh: "nrows mat = nrows Z" "ncols mat = ncols Z"
    and tk: "take_mask mat pos = Inr vals"
    and st: "store_all dt vals = Some stored"
    and pt: "put_mask Z pos stored = Inr Z'"
    and ij: "i < nrows Z" "j < ncols Z"
  shows "if selected pos i j then store dt (entry mat i j) = Some (entry Z' i j)
         else entry Z' i j = entry Z i j"
proof -
  note vals = take_mask_Inr [OF tk]
  note Z' = put_mask_Inr [OF pt]
  have fm: "flat_mask pos Z = flat_mask pos mat"
    by (cases pos) (simp_all add: flat_mask_def sh)
  have e: "entry Z' i j = (if selected pos i j then stored ! rank_in (flat_mask pos mat) (i * ncols mat + j)
                          else entry Z i j)"
    by (subst Z'(1)) (use ij fm sh in simp)
  show ?thesis
  proof (cases "selected pos i j")
    case False
    then show ?thesis using e by simp
  next
    case True
    let ?p = "i * ncols mat + j"
    have len: "length (concat (rows mat)) = length (flat_mask pos mat)"
      using wf vals(2) by (simp add: flat_mask_length length_concat_rows)
    have p: "?p < length (flat_mask pos mat)"
      using wf vals(2) ij sh by (simp add: flat_mask_length flat_index_less)
    have at: "flat_mask pos mat ! ?p"
      using flat_mask_nth [OF wf(1) vals(2), of i j] ij sh True by simp
    have lv: "length vals = length (filter id (flat_mask pos mat))"
      unfolding vals(1) using length_filter_zip [OF len] by simp
    have r: "rank_in (flat_mask pos mat) ?p < length vals"
      using rank_in_less [OF p at] lv by simp
    have "vals ! rank_in (flat_mask pos mat) ?p = concat (rows mat) ! ?p"
      unfolding vals(1) using len p at by (rule filter_zip_rank)
    also have "\<dots> = entry mat i j"
      using concat_rows_nth [OF wf(2), of i j] ij sh by simp
    finally have "store dt (entry mat i j) = Some (stored ! rank_in (flat_mask pos mat) ?p)"
      using store_all_nth(2) [OF st r] by simp
    then show ?thesis using e True by simp
  qed
qed

lemma ex_snorm: "norm_fro ex_S \<noteq> 0"
  by (simp add: norm_fro_def ex_S_def)

lemma ex_update_A: "collect (update_A_row ex_lib ex_pr (st_Z ex_st1)) [0..<pr_rows ex_pr] = Inr [[8 / 15]]"
  by (simp add: update_A_row_def ex_lib_def ex_pr_def ex_st1_def ex_S_def array_eval)

lemma ex_outer: "outer_iteration ex_lib ex_args ex_pr ex_st0 = Inr ex_st2"
proof -
  have K: "arg_K ex_args = 1" by (simp add: ex_args_def)
  have rep: "repeat (arg_K ex_args) (inner_step ex_lib ex_args ex_pr ex_B) ex_st0 = Inr ex_st1"
    by (simp add: K ex_inner)
  have diff: "ew_sub ex_X1 (st_last_mat ex_st1) = Inr \<lparr>nrows = 1, ncols = 2, rows = [[- 3 / 5, - 9 / 5]]\<rparr>"
    by (simp add: ex_st1_def ex_X1_def ex_S_def array_eval)
  have X: "st_X ex_st1 = Some ex_X1" and it: "st_it ex_st1 = 0"
    by (simp_all add: ex_st1_def)
  show ?thesis
    unfolding outer_iteration_def ex_build_B bindE_Inr rep ex_update_A
    by (simp add: X it diff) (simp add: ex_st1_def ex_st2_def tol_of_def ex_snorm ex_pr_def)
qed

lemma reachable_shapes:
  assumes init: "imputer_init a = Inr (pr, st0)"
    and outer: "repeat n (outer_iteration lib a pr) st0 = Inr st"
    and inner: "repeat k (inner_step lib a pr B) st = Inr st'"
  shows "nrows (st_Z st') = pr_rows pr" "ncols (st_Z st') = pr_cols pr"
  using reachable_kept [OF assms] imputer_init_Inr(2,3) [OF init]
  by (simp_all add: observed_kept_def same_shape_def)

text \<open>
  Claim C1.  After the lines before the loop, any number \<open>n\<close> of outer iterations and
  any number \<open>k\<close> of further inner passes (with any list \<open>B\<close>), the entry of \<open>Z\<close> at every
  position that is not missing is the entry of \<open>sparse_mat\<close> there.  One more inner pass
  changes \<open>Z\<close> at the missing positions only, where it stores the entries of the array
  \<open>mat\<close> of the per-row solves: as they are when \<open>Z\<close> is an array of floats, truncated
  toward zero when it is an array of integers.
\<close>

theorem observed_entries_kept:
  assumes init: "imputer_init a = Inr (pr, st0)"
    and outer: "repeat n (outer_iteration lib a pr) st0 = Inr st"
    and inner: "repeat k (inner_step lib a pr B) st = Inr st'"
  shows "(\<forall>i < nrows (arg_sparse_mat a). \<forall>j < ncols (arg_sparse_mat a).
            \<not> selected (arg_pos_missing a) i j \<longrightarrow>
            entry (st_Z st') i j = entry (arg_sparse_mat a) i j) \<and>
         (wf_pos (arg_pos_missing a) \<longrightarrow>
            (\<forall>st''. inner_step lib a pr B st' = Inr st'' \<longrightarrow>
               (\<exists>X mat. st_X st'' = Some X \<and>
                  solve_rows lib pr (st_rho st'') (arg_lambda0 a) B X (st_T st') = Inr mat \<and>
                  (\<forall>i < nrows (arg_sparse_mat a). \<forall>j < ncols (arg_sparse_mat a).
                     (arg_dtype a = Float64 \<longrightarrow>
                        entry (st_Z st'') i j =
                          (if selected (arg_pos_missing a) i j then entry mat i j
                           else entry (st_Z st') i j)) \<and>
                     (arg_dtype a = Int64 \<longrightarrow>
                        entry (st_Z st'') i j =
                          (if selected (arg_pos_missing a) i j
                           then (if 0 \<le> entry mat i j then of_int \<lfloor>entry mat i j\<rfloor>
                                 else of_int \<lceil>entry mat i j\<rceil>)
                           else entry (st_Z st') i j))))))"
proof (intro conjI impI allI)
  fix i j
  assume "i < nrows (arg_sparse_mat a)" "j < ncols (arg_sparse_mat a)"
    "\<not> selected (arg_pos_missing a) i j"
  with reachable_kept [OF init outer inner]
  show "entry (st_Z st') i j = entry (arg_sparse_mat a) i j"
    by (simp add: observed_kept_def)
next
  fix st''
  assume wf: "wf_pos (arg_pos_missing a)" and step: "inner_step lib a pr B st' = Inr st''"
  from inner_step_Z [OF step] obtain X mat vals stored where
    X: "st_X st'' = Some X"
    and mat: "solve_rows lib pr (st_rho st'') (arg_lambda0 a) B X (st_T st') = Inr mat"
    and tk: "take_mask mat (arg_pos_missing a) = Inr vals"
    and sa: "store_all (arg_dtype a) vals = Some stored"
    and pt: "put_mask (st_Z st') (arg_pos_missing a) stored = Inr (st_Z st'')"
    by blast
  note sh = reachable_shapes [OF init outer inner] imputer_init_Inr(2,3) [OF init]
  note ms = solve_rows_shape [OF mat]
  have e: "if selected (arg_pos_missing a) i j
        then store (arg_dtype a) (entry mat i j) = Some (entry (st_Z st'') i j)
        else entry (st_Z st'') i j = entry (st_Z st') i j"
    if "i < nrows (arg_sparse_mat a)" "j < ncols (arg_sparse_mat a)" for i j
    using copy_selected_entry [OF wf ms(1) _ _ tk sa pt, of i j] that sh ms by simp
  have f: "arg_dtype a = Float64 \<longrightarrow>
        entry (st_Z st'') i j =
          (if selected (arg_pos_missing a) i j then entry mat i j else entry (st_Z st') i j)"
    if "i < nrows (arg_sparse_mat a)" "j < ncols (arg_sparse_mat a)" for i j
    using e [OF that] by (auto simp: store_def split: if_splits)
  have g: "arg_dtype a = Int64 \<longrightarrow>
        entry (st_Z st'') i j =
          (if selected (arg_pos_missing a) i j
           then (if 0 \<le> entry mat i j then of_int \<lfloor>entry mat i j\<rfloor>
                 else of_int \<lceil>entry mat i j\<rceil>)
           else entry (st_Z st') i j)"
    if "i < nrows (arg_sparse_mat a)" "j < ncols (arg_sparse_mat a)" for i j
  proof (cases "selected (arg_pos_missing a) i j")
    case False
    with e [OF that] show ?thesis by simp
  next
    case True
    with e [OF that] have st: "store (arg_dtype a) (entry mat i j) = Some (entry (st_Z st'') i j)"
      by simp
    show ?thesis
    proof
      assume "arg_dtype a = Int64"
      with st have "store Int64 (entry mat i j) = Some (entry (st_Z st'') i j)" by simp
      from store_Int64 [OF this] True
      show "entry (st_Z st'') i j =
          (if selected (arg_pos_missing a) i j
           then (if 0 \<le> entry mat i j then of_int \<lfloor>entry mat i j\<rfloor>
                 else of_int \<lceil>entry mat i j\<rceil>)
           else entry (st_Z st') i j)"
        by simp
    qed
  qed
  from X mat f g show "\<exists>X mat. st_X st'' = Some X \<and>
      solve_rows lib pr (st_rho st'') (arg_lambda0 a) B X (st_T st') = Inr mat \<and>
      (\<forall>i < nrows (arg_sparse_mat a). \<forall>j < ncols (arg_sparse_mat a).
         (arg_dtype a = Float64 \<longrightarrow>
            entry (st_Z st'') i j =
              (if selected (arg_pos_missing a) i j then entry mat i j
               else entry (st_Z st') i j)) \<and>
         (arg_dtype a = Int64 \<longrightarrow>
            entry (st_Z st'') i j =
              (if selected (arg_pos_missing a) i j
               then (if 0 \<le> entry mat i j then of_int \<lfloor>entry mat i j\<rfloor>
                     else of_int \<lceil>entry mat i j\<rceil>)
               else entry (st_Z st') i j)))"
    by (intro exI [of _ X] exI [of _ mat] conjI allI impI) simp_all
qed

text \<open>
  The worked call: after one outer iteration the observed entry is still \<open>3\<close>, and the
  first inner pass stores the solved value at the missing position.
\<close>

theorem observed_entries_kept_witness:
  "imputer_init ex_args = Inr (ex_pr, ex_st0) \<and>
   repeat 1 (outer_iteration ex_lib ex_args ex_pr) ex_st0 = Inr ex_st2 \<and>
   repeat 0 (inner_step ex_lib ex_args ex_pr ex_B) ex_st2 = Inr ex_st2 \<and>
   \<not> selected (arg_pos_missing ex_args) 0 0 \<and>
   entry (st_Z ex_st2) 0 0 = entry (arg_sparse_mat ex_args) 0 0 \<and>
   wf_pos (arg_pos_missing ex_args) \<and>
   inner_step ex_lib ex_args ex_pr ex_B ex_st0 = Inr ex_st1 \<and>
   selected (arg_pos_missing ex_args) 0 1 \<and>
   arg_dtype ex_args = Float64 \<and>
   (\<exists>X mat. st_X ex_st1 = Some X \<and>
      solve_rows ex_lib ex_pr (st_rho ex_st1) (arg_lambda0 ex_args) ex_B X (st_T ex_st0) = Inr mat \<and>
      entry (st_Z ex_st1) 0 1 = entry mat 0 1)"
proof -
  have o1: "repeat 1 (outer_iteration ex_lib ex_args ex_pr) ex_st0 = Inr ex_st2"
    by (simp add: ex_outer)
  have i0: "repeat 0 (inner_step ex_lib ex_args ex_pr ex_B) ex_st2 = Inr ex_st2"
    by simp
  have o0: "repeat 0 (outer_iteration ex_lib ex_args ex_pr) ex_st0 = Inr ex_st0"
    and j0: "repeat 0 (inner_step ex_lib ex_args ex_pr ex_B) ex_st0 = Inr ex_st0"
    by simp_all
  have sel: "\<not> selected (arg_pos_missing ex_args) 0 0" "selected (arg_pos_missing ex_args) 0 1"
    "wf_pos (arg_pos_missing ex_args)"
    by (simp_all add: ex_args_def ex_pos_def selected_def entry_def wf_pos_def wf_array_def)
  have sz: "(0::nat) < nrows (arg_sparse_mat ex_args)" "(0::nat) < ncols (arg_sparse_mat ex_args)"
    "(1::nat) < ncols (arg_sparse_mat ex_args)"
    by (simp_all add: ex_args_def ex_S_def)
  from observed_entries_kept [OF ex_init o1 i0] sel(1) sz
  have kept: "entry (st_Z ex_st2) 0 0 = entry (arg_sparse_mat ex_args) 0 0"
    by blast
  from observed_entries_kept [OF ex_init o0 j0] sel(3) ex_inner
  obtain X mat where "st_X ex_st1 = Some X"
    "solve_rows ex_lib ex_pr (st_rho ex_st1) (arg_lambda0 ex_args) ex_B X (st_T ex_st0) = Inr mat"
    "\<forall>i < nrows (arg_sparse_mat ex_args). \<forall>j < ncols (arg_sparse_mat ex_args).
        (arg_dtype ex_args = Float64 \<longrightarrow>
           entry (st_Z ex_st1) i j =
             (if selected (arg_pos_missing ex_args) i j then entry mat i j
              else entry (st_Z ex_st0) i j))"
    by blast
  note m = this
  have dt: "arg_dtype ex_args = Float64" by (simp add: ex_args_def)
  from m(3) [THEN spec, of 0, THEN mp, OF sz(1), THEN spec, of 1, THEN mp, OF sz(3)] sel(2) dt
  have "entry (st_Z ex_st1) 0 1 = entry mat 0 1" by simp
  with m(1,2) have "\<exists>X mat. st_X ex_st1 = Some X \<and>
      solve_rows ex_lib ex_pr (st_rho ex_st1) (arg_lambda0 ex_args) ex_B X (st_T ex_st0) = Inr mat \<and>
      entry (st_Z ex_st1) 0 1 = entry mat 0 1"
    by blast
  with ex_init o1 i0 sel kept ex_inner dt show ?thesis by blast
qed

section \<open>The initial fill is the mean of the nonzero entries\<close>

lemma rows_map_array:
  assumes "wf_array M"
  shows "rows (map_array f M) = map (map f) (rows M)"
proof (rule nth_equalityI)
  show "length (rows (map_array f M)) = length (map (map f) (rows M))"
    using assms by (simp add: map_array_def mk_array_def wf_array_def)
next
  fix i assume "i < length (rows (map_array f M))"
  then have i: "i < nrows M" by (simp add: map_array_def mk_array_def)
  then have len: "length (rows M ! i) = ncols M"
    using assms by (simp add: wf_array_def list_all_length)
  have "rows (map_array f M) ! i = map (\<lambda>j. f (rows M ! i ! j)) [0..<ncols M]"
    using i by (simp add: map_array_def mk_array_def entry_def)
  also have "\<dots> = map f (map (\<lambda>j. rows M ! i ! j) [0..<length (rows M ! i)])"
    by (simp add: len)
  also have "\<dots> = map f (rows M ! i)"
    by (simp only: map_nth)
  finally show "rows (map_array f M) ! i = map (map f) (rows M) ! i"
    using i assms by (simp add: wf_array_def)
qed

lemma filter_zip_map: "map fst (filter snd (zip xs (map P xs))) = filter P xs"
  by (induction xs) simp_all

lemma nonzero_entries_filter:
  assumes "wf_array S"
  shows "nonzero_entries S = Inr (filter (\<lambda>x. x \<noteq> 0) (concat (rows S)))"
proof -
  have "concat (rows (map_array (\<lambda>x. x \<noteq> 0) S)) = map (\<lambda>x. x \<noteq> 0) (concat (rows S))"
    by (simp add: rows_map_array [OF assms] map_concat)
  then show ?thesis
    by (simp add: nonzero_entries_def take_mask_def index_ok_def same_shape_def flat_mask_def
        map_array_def filter_zip_map)
qed

lemma no_selection_no_position:
  assumes wf: "wf_array S" "wf_pos pos"
    and tk: "take_mask S pos = Inr []"
    and ij: "i < nrows S" "j < ncols S"
  shows "\<not> selected pos i j"
proof
  assume sel: "selected pos i j"
  note t = take_mask_Inr [OF tk]
  have len: "length (concat (rows S)) = length (flat_mask pos S)"
    using wf t(2) by (simp add: flat_mask_length length_concat_rows)
  have "length (filter id (flat_mask pos S)) = 0"
    using t(1) length_filter_zip [OF len] by (metis length_0_conv length_map)
  then have none: "\<forall>b \<in> set (flat_mask pos S). \<not> b"
    by (auto simp: filter_empty_conv)
  have p: "i * ncols S + j < length (flat_mask pos S)"
    using wf t(2) ij by (simp add: flat_mask_length flat_index_less)
  have "flat_mask pos S ! (i * ncols S + j)"
    using flat_mask_nth [OF wf(2) t(2) ij] sel by simp
  with none p show False by (metis nth_mem)
qed

lemma initial_Z_entries:
  assumes wf: "wf_array S" "wf_pos pos"
    and Z: "initial_Z dt S pos = Inr (Some Z)"
    and ij: "i < nrows S" "j < ncols S"
  shows "selected pos i j \<longrightarrow>
           filter (\<lambda>x. x \<noteq> 0) (concat (rows S)) \<noteq> [] \<and>
           store dt (sum_list (filter (\<lambda>x. x \<noteq> 0) (concat (rows S)))
                      / real (length (filter (\<lambda>x. x \<noteq> 0) (concat (rows S)))))
             = Some (entry Z i j)"
    and "\<not> selected pos i j \<longrightarrow> entry Z i j = entry S i j"
proof -
  let ?nz = "filter (\<lambda>x. x \<noteq> 0) (concat (rows S))"
  from initial_Z_Some [OF Z] nonzero_entries_filter [OF wf(1)]
  have rest: "(\<exists>v w. np_mean ?nz = Some v \<and> store dt v = Some w \<and> fill_mask S pos w = Inr Z) \<or>
      (np_mean ?nz = None \<and> take_mask S pos = Inr [] \<and> dt = Float64 \<and> Z = S)"
    by auto
  show "selected pos i j \<longrightarrow> ?nz \<noteq> [] \<and>
      store dt (sum_list ?nz / real (length ?nz)) = Some (entry Z i j)"
  proof
    assume sel: "selected pos i j"
    from rest show "?nz \<noteq> [] \<and> store dt (sum_list ?nz / real (length ?nz)) = Some (entry Z i j)"
    proof
      assume "\<exists>v w. np_mean ?nz = Some v \<and> store dt v = Some w \<and> fill_mask S pos w = Inr Z"
      then obtain v w where v: "np_mean ?nz = Some v" and w: "store dt v = Some w"
        and f: "fill_mask S pos w = Inr Z" by blast
      from v have ne: "?nz \<noteq> []" and vv: "v = sum_list ?nz / real (length ?nz)"
        by (auto simp: np_mean_def split: if_splits)
      from fill_mask_Inr [OF f] sel ij have "entry Z i j = w" by simp
      with ne vv w show ?thesis by simp
    next
      assume "np_mean ?nz = None \<and> take_mask S pos = Inr [] \<and> dt = Float64 \<and> Z = S"
      then have "take_mask S pos = Inr []" by simp
      from no_selection_no_position [OF wf this ij] sel show ?thesis by simp
    qed
  qed
  show "\<not> selected pos i j \<longrightarrow> entry Z i j = entry S i j"
    using initial_Z_kept(2) [OF Z ij] by simp
qed

lemma initial_Z_all_zero:
  assumes wf: "wf_array S" "wf_pos pos"
    and zero: "\<forall>x \<in> set (concat (rows S)). x = 0"
    and ok: "index_ok pos S"
    and ij: "i < nrows S" "j < ncols S" "selected pos i j"
  shows "initial_Z dt S pos = Inr None"
proof -
  have nz: "filter (\<lambda>x. x \<noteq> 0) (concat (rows S)) = []"
    using zero by (simp add: filter_empty_conv)
  obtain sel where sel: "take_mask S pos = Inr sel"
    using ok by (simp add: take_mask_def)
  have "sel \<noteq> []"
    using no_selection_no_position [OF wf _ ij(1,2)] sel ij(3) by auto
  then show ?thesis
    by (simp add: initial_Z_def nonzero_entries_filter [OF wf(1)] nz np_mean_def sel)
qed

lemma imputer_init_needs_Z:
  assumes "initial_Z (arg_dtype a) (arg_sparse_mat a) (arg_pos_missing a) = Inr None"
  shows "imputer_init a \<noteq> Inr (pr, st0)"
proof
  assume "imputer_init a = Inr (pr, st0)"
  from imputer_init_Inr(1) [OF this] assms show False by simp
qed

text \<open>
  Claim C10, amended.  The lines before the loop select the nonzero entries of
  \<open>sparse_mat\<close>, whatever the missing positions are: an observed entry that is zero is
  left out of the mean, a nonzero entry at a missing position is not.  When
  \<open>sparse_mat\<close> is an array of floats, every missing entry of the initial \<open>Z\<close> is the
  sum of the selected entries divided by their number; when it is an array of integers,
  \<open>Z\<close> is one too and every missing entry is that quotient truncated toward zero.
  Every other entry is the entry of \<open>sparse_mat\<close>.  When all entries are zero the
  selection is empty and its mean is \<open>nan\<close>: as soon as one position is missing there is
  no initial \<open>Z\<close> over the reals, and the run is not followed further.
\<close>

theorem initial_fill_is_nonzero_mean:
  assumes wf: "wf_array (arg_sparse_mat a)" "wf_pos (arg_pos_missing a)"
  shows "nonzero_entries (arg_sparse_mat a) =
           Inr (filter (\<lambda>x. x \<noteq> 0) (concat (rows (arg_sparse_mat a)))) \<and>
         (\<forall>pr st0. imputer_init a = Inr (pr, st0) \<longrightarrow>
            (\<forall>i < nrows (arg_sparse_mat a). \<forall>j < ncols (arg_sparse_mat a).
               (selected (arg_pos_missing a) i j \<longrightarrow>
                  filter (\<lambda>x. x \<noteq> 0) (concat (rows (arg_sparse_mat a))) \<noteq> [] \<and>
                  (arg_dtype a = Float64 \<longrightarrow>
                     entry (st_Z st0) i j =
                       sum_list (filter (\<lambda>x. x \<noteq> 0) (concat (rows (arg_sparse_mat a))))
                         / real (length (filter (\<lambda>x. x \<noteq> 0) (concat (rows (arg_sparse_mat a)))))) \<and>
                  (arg_dtype a = Int64 \<longrightarrow>
                     entry (st_Z st0) i j =
                       (if 0 \<le> sum_list (filter (\<lambda>x. x \<noteq> 0) (concat (rows (arg_sparse_mat a))))
                        then of_int \<lfloor>sum_list (filter (\<lambda>x. x \<noteq> 0) (concat (rows (arg_sparse_mat a))))
                               / real (length (filter (\<lambda>x. x \<noteq> 0) (concat (rows (arg_sparse_mat a)))))\<rfloor>
                        else of_int \<lceil>sum_list (filter (\<lambda>x. x \<noteq> 0) (concat (rows (arg_sparse_mat a))))
                               / real (length (filter (\<lambda>x. x \<noteq> 0) (concat (rows (arg_sparse_mat a)))))\<rceil>))) \<and>
               (\<not> selected (arg_pos_missing a) i j \<longrightarrow>
                  entry (st_Z st0) i j = entry (arg_sparse_mat a) i j))) \<and>
         ((\<forall>x \<in> set (concat (rows (arg_sparse_mat a))). x = 0) \<longrightarrow>
            filter (\<lambda>x. x \<noteq> 0) (concat (rows (arg_sparse_mat a))) = [] \<and>
            (index_ok (arg_pos_missing a) (arg_sparse_mat a) \<and>
             (\<exists>i < nrows (arg_sparse_mat a). \<exists>j < ncols (arg_sparse_mat a).
                selected (arg_pos_missing a) i j) \<longrightarrow>
             initial_Z (arg_dtype a) (arg_sparse_mat a) (arg_pos_missing a) = Inr None \<and>
             (\<forall>pr st0. imputer_init a \<noteq> Inr (pr, st0))))"
proof (intro conjI allI impI)
  let ?nz = "filter (\<lambda>x. x \<noteq> 0) (concat (rows (arg_sparse_mat a)))"
  show "nonzero_entries (arg_sparse_mat a) = Inr ?nz"
    by (rule nonzero_entries_filter [OF wf(1)])
  { fix pr st0 i j
    assume init: "imputer_init a = Inr (pr, st0)"
      and ij: "i < nrows (arg_sparse_mat a)" "j < ncols (arg_sparse_mat a)"
    note Z = imputer_init_Inr(1) [OF init]
    { assume sel: "selected (arg_pos_missing a) i j"
      from initial_Z_entries(1) [OF wf Z ij] sel
      have ne: "?nz \<noteq> []"
        and st: "store (arg_dtype a) (sum_list ?nz / real (length ?nz)) = Some (entry (st_Z st0) i j)"
        by simp_all
      show "?nz \<noteq> []" by (rule ne)
      { assume "arg_dtype a = Float64"
        with st show "entry (st_Z st0) i j = sum_list ?nz / real (length ?nz)" by simp }
      { assume dt: "arg_dtype a = Int64"
        have pos: "0 \<le> sum_list ?nz / real (length ?nz) \<longleftrightarrow> 0 \<le> sum_list ?nz"
          using ne by (simp add: zero_le_divide_iff)
        from st dt have "entry (st_Z st0) i j =
            (if 0 \<le> sum_list ?nz / real (length ?nz) then of_int \<lfloor>sum_list ?nz / real (length ?nz)\<rfloor>
             else of_int \<lceil>sum_list ?nz / real (length ?nz)\<rceil>)"
          using store_Int64 by simp
        then show "entry (st_Z st0) i j =
            (if 0 \<le> sum_list ?nz then of_int \<lfloor>sum_list ?nz / real (length ?nz)\<rfloor>
             else of_int \<lceil>sum_list ?nz / real (length ?nz)\<rceil>)"
          by (simp only: pos) } }
    { assume "\<not> selected (arg_pos_missing a) i j"
      then show "entry (st_Z st0) i j = entry (arg_sparse_mat a) i j"
        using initial_Z_entries(2) [OF wf Z ij] by simp } }
  { assume zero: "\<forall>x \<in> set (concat (rows (arg_sparse_mat a))). x = 0"
    then show nz: "?nz = []"
      by (simp add: filter_empty_conv)
    assume "index_ok (arg_pos_missing a) (arg_sparse_mat a) \<and>
       (\<exists>i < nrows (arg_sparse_mat a). \<exists>j < ncols (arg_sparse_mat a). selected (arg_pos_missing a) i j)"
    then show none: "initial_Z (arg_dtype a) (arg_sparse_mat a) (arg_pos_missing a) = Inr None"
      using initial_Z_all_zero [OF wf zero] by blast
    fix pr st0
    show "imputer_init a \<noteq> Inr (pr, st0)"
      by (rule imputer_init_needs_Z [OF none]) }
qed

section \<open>Failures before the loop\<close>

lemma initial_Z_bad_index:
  assumes "\<not> index_ok pos S"
  shows "initial_Z dt S pos = Inl IndexError"
proof -
  obtain nz where nz: "nonzero_entries S = Inr nz"
    by (simp add: nonzero_entries_def take_mask_def index_ok_def same_shape_def map_array_def)
  show ?thesis
    using assms
    by (simp add: initial_Z_def nz fill_mask_def take_mask_def split: option.splits)
qed

lemma initial_Z_good_index:
  assumes "index_ok pos S"
  shows "initial_Z dt S pos = Inr None \<or> (\<exists>Z. initial_Z dt S pos = Inr (Some Z))"
proof -
  obtain nz where nz: "nonzero_entries S = Inr nz"
    by (simp add: nonzero_entries_def take_mask_def index_ok_def same_shape_def map_array_def)
  show ?thesis
    using assms
    by (simp add: initial_Z_def nz fill_mask_def take_mask_def split: option.splits)
qed

lemma np_pick_bad_index: "\<not> index_ok pos M \<Longrightarrow> np_pick M pos = Inl IndexError"
  by (cases pos) (simp_all add: np_pick_def take_mask_def index_ok_def)

lemma np_pick_good_index: "index_ok pos M \<Longrightarrow> \<exists>p. np_pick M pos = Inr p"
  by (cases pos) (simp_all add: np_pick_def take_mask_def)

lemma set_arange: "set (arange 0 n) = {0..n - 1}"
  by (simp add: arange_def)

lemma arange_empty: "arange 0 n = [] \<longleftrightarrow> n \<le> 0"
  by (auto simp: arange_def)

lemma Psi_at_outcome:
  assumes le: "0 < i \<longrightarrow> time_lags ! (i - 1) \<le> mx" and c: "0 \<le> c"
  shows "Psi_at c time_lags mx i =  Inl ValueError \<or> (\<exists>P. Psi_at c time_lags mx i = Inr P)"
    and "(\<exists>P. Psi_at c time_lags mx i = Inr P) \<longleftrightarrow>
         mx \<le> c \<and> (mx < c \<longrightarrow> (if i = 0 then 0 \<le> mx else 0 \<le> time_lags ! (i - 1)))"
proof -
  show "Psi_at c time_lags mx i =  Inl ValueError \<or> (\<exists>P. Psi_at c time_lags mx i = Inr P)"
    by (simp add: Psi_at_def np_ones_def coo_matrix_def Let_def)
  show "(\<exists>P. Psi_at c time_lags mx i = Inr P) \<longleftrightarrow>
         mx \<le> c \<and> (mx < c \<longrightarrow> (if i = 0 then 0 \<le> mx else 0 \<le> time_lags ! (i - 1)))"
  proof (cases "mx < c")
    case False
    then show ?thesis
      using c by (auto simp: Psi_at_def np_ones_def coo_matrix_def Let_def arange_def)
  next
    case True
    then have ne: "replicate (nat (c - mx)) (1::real) \<noteq> []" by simp
    have z: "(0::int) \<in> {0..c - mx - 1}" "c - mx - 1 \<in> {0..c - mx - 1}" "mx \<in> {mx..c - 1}"
      using True by auto
    show ?thesis
    proof (cases "i = 0")
      case i: True
      show ?thesis
        using True i z
        apply (simp add: Psi_at_def np_ones_def coo_matrix_def Let_def set_arange arange_def)
        apply auto
        apply (drule bspec [where x = mx])
         apply simp_all
        done
    next
      case i: False
      show ?thesis
        using True i z le
        apply (simp add: Psi_at_def np_ones_def coo_matrix_def Let_def set_arange arange_def)
        apply auto
        apply (drule bspec [where x = "c - mx - 1"])
         apply simp_all
        done
    qed
  qed
qed

lemma collect_outcome:
  "(\<exists>ys. collect f xs = Inr ys) \<longleftrightarrow> (\<forall>x \<in> set xs. \<exists>y. f x = Inr y)"
  "collect f xs = Inl e \<Longrightarrow> \<exists>x \<in> set xs. f x = Inl e"
proof -
  show "(\<exists>ys. collect f xs = Inr ys) \<longleftrightarrow> (\<forall>x \<in> set xs. \<exists>y. f x = Inr y)"
  proof (induction xs)
    case Nil show ?case by simp
  next
    case (Cons x xs)
    show ?case
    proof (cases "f x")
      case (Inl e) then show ?thesis by simp
    next
      case (Inr y)
      show ?thesis
      proof (cases "collect f xs")
        case (Inl e)
        with Cons Inr show ?thesis by auto
      next
        case r: (Inr ys)
        with Cons Inr show ?thesis by auto
      qed
    qed
  qed
  show "collect f xs = Inl e \<Longrightarrow> \<exists>x \<in> set xs. f x = Inl e"
  proof (induction xs)
    case Nil then show ?case by simp
  next
    case (Cons x xs)
    show ?case
    proof (cases "f x")
      case (Inl e') with Cons.prems show ?thesis by simp
    next
      case (Inr y)
      show ?thesis
      proof (cases "collect f xs")
        case (Inl e')
        with Cons Inr show ?thesis by auto
      next
        case r: (Inr ys)
        with Cons.prems Inr show ?thesis by simp
      qed
    qed
  qed
qed

lemma generate_Psi_outcome:
  assumes ne: "time_lags \<noteq> []" and c: "0 \<le> c"
  shows "(\<exists>Psis. generate_Psi c time_lags = Inr Psis) \<longleftrightarrow>
           Max (set time_lags) \<le> c \<and>
           (Max (set time_lags) < c \<longrightarrow> (\<forall>l \<in> set time_lags. 0 \<le> l))"
    and "generate_Psi c time_lags = Inl e \<Longrightarrow> e = ValueError"
proof -
  let ?mx = "Max (set time_lags)"
  have le: "0 < i \<longrightarrow> time_lags ! (i - 1) \<le> ?mx" if "i \<le> length time_lags" for i
    using that by (auto intro!: Max_ge)
  have g: "generate_Psi c time_lags = collect (Psi_at c time_lags ?mx) [0..<length time_lags + 1]"
    by (simp add: generate_Psi_def np_max_Max [OF ne])
  have mx_in: "?mx \<in> set time_lags" using ne by (simp add: Max_in)
  have "(\<exists>Psis. generate_Psi c time_lags = Inr Psis) \<longleftrightarrow>
      (\<forall>i \<le> length time_lags. \<exists>P. Psi_at c time_lags ?mx i = Inr P)"
    unfolding g collect_outcome(1) by (auto simp: less_Suc_eq_le)
  also have "\<dots> \<longleftrightarrow> (\<forall>i \<le> length time_lags.
       ?mx \<le> c \<and> (?mx < c \<longrightarrow> (if i = 0 then 0 \<le> ?mx else 0 \<le> time_lags ! (i - 1))))"
    using Psi_at_outcome(2) [OF le c] by simp
  also have "\<dots> \<longleftrightarrow> ?mx \<le> c \<and> (?mx < c \<longrightarrow> (\<forall>l \<in> set time_lags. 0 \<le> l))"
  proof (cases "?mx \<le> c \<and> ?mx < c")
    case False
    then show ?thesis by auto
  next
    case True
    have "(\<forall>i \<le> length time_lags. if i = 0 then 0 \<le> ?mx else 0 \<le> time_lags ! (i - 1))
          \<longleftrightarrow> (\<forall>l \<in> set time_lags. 0 \<le> l)"
    proof
      assume a: "\<forall>i \<le> length time_lags. if i = 0 then 0 \<le> ?mx else 0 \<le> time_lags ! (i - 1)"
      show "\<forall>l \<in> set time_lags. 0 \<le> l"
      proof
        fix l assume "l \<in> set time_lags"
        then obtain k where k: "k < length time_lags" "time_lags ! k = l"
          by (auto simp: in_set_conv_nth)
        from a [THEN spec, of "Suc k"] k show "0 \<le> l" by simp
      qed
    next
      assume a: "\<forall>l \<in> set time_lags. 0 \<le> l"
      show "\<forall>i \<le> length time_lags. if i = 0 then 0 \<le> ?mx else 0 \<le> time_lags ! (i - 1)"
        using a mx_in by auto
    qed
    with True show ?thesis by simp
  qed
  finally show "(\<exists>Psis. generate_Psi c time_lags = Inr Psis) \<longleftrightarrow>
           ?mx \<le> c \<and> (?mx < c \<longrightarrow> (\<forall>l \<in> set time_lags. 0 \<le> l))" .
  assume "generate_Psi c time_lags = Inl e"
  then have "\<exists>i \<in> set [0..<length time_lags + 1]. Psi_at c time_lags ?mx i = Inl e"
    unfolding g by (rule collect_outcome(2))
  then obtain i where "i \<in> set [0..<length time_lags + 1]" "Psi_at c time_lags ?mx i = Inl e"
    by blast
  then have i: "i \<le> length time_lags" "Psi_at c time_lags ?mx i = Inl e"
    by auto
  with Psi_at_outcome(1) [OF le [OF i(1)] c] show "e = ValueError" by auto
qed

lemma iden_ok:
  "\<exists>I. coo_matrix (replicate c 1) (arange 0 (int c)) (arange 0 (int c)) (int c, int c) = Inr I"
  by (auto simp: coo_matrix_def arange_def)

lemma imputer_init_outcome:
  assumes ne: "arg_time_lags a \<noteq> []"
  shows "\<not> (index_ok (arg_pos_missing a) (arg_dense_mat a) \<and>
            index_ok (arg_pos_missing a) (arg_sparse_mat a)) \<Longrightarrow>
         imputer_init a = Inl IndexError"
    and "index_ok (arg_pos_missing a) (arg_dense_mat a) \<Longrightarrow>
         index_ok (arg_pos_missing a) (arg_sparse_mat a) \<Longrightarrow>
         \<not> (Max (set (arg_time_lags a)) \<le> int (ncols (arg_sparse_mat a)) \<and>
            (Max (set (arg_time_lags a)) < int (ncols (arg_sparse_mat a)) \<longrightarrow>
               (\<forall>l \<in> set (arg_time_lags a). 0 \<le> l))) \<Longrightarrow>
         imputer_init a = Inl ValueError"
    and "index_ok (arg_pos_missing a) (arg_dense_mat a) \<Longrightarrow>
         index_ok (arg_pos_missing a) (arg_sparse_mat a) \<Longrightarrow>
         Max (set (arg_time_lags a)) \<le> int (ncols (arg_sparse_mat a)) \<Longrightarrow>
         (Max (set (arg_time_lags a)) < int (ncols (arg_sparse_mat a)) \<longrightarrow>
               (\<forall>l \<in> set (arg_time_lags a). 0 \<le> l)) \<Longrightarrow>
         initial_Z (arg_dtype a) (arg_sparse_mat a) (arg_pos_missing a) = Inr None \<Longrightarrow>
         imputer_init a = Inl NotANumber"
    and "index_ok (arg_pos_missing a) (arg_dense_mat a) \<Longrightarrow>
         index_ok (arg_pos_missing a) (arg_sparse_mat a) \<Longrightarrow>
         Max (set (arg_time_lags a)) \<le> int (ncols (arg_sparse_mat a)) \<Longrightarrow>
         (Max (set (arg_time_lags a)) < int (ncols (arg_sparse_mat a)) \<longrightarrow>
               (\<forall>l \<in> set (arg_time_lags a). 0 \<le> l)) \<Longrightarrow>
         initial_Z (arg_dtype a) (arg_sparse_mat a) (arg_pos_missing a) = Inr (Some Z) \<Longrightarrow>
         \<exists>pr st0. imputer_init a = Inr (pr, st0)"
proof -
  let ?S = "arg_sparse_mat a"
  let ?pos = "arg_pos_missing a"
  let ?lags = "arg_time_lags a"
  note mx = np_max_Max [OF ne]
  note gen = generate_Psi_outcome [OF ne, of "int (ncols ?S)"]
  obtain I where iden: "coo_matrix (replicate (ncols ?S) 1) (arange 0 (int (ncols ?S)))
      (arange 0 (int (ncols ?S))) (int (ncols ?S), int (ncols ?S)) = Inr I"
    using iden_ok by blast
  show "imputer_init a = Inl IndexError"
    if "\<not> (index_ok ?pos (arg_dense_mat a) \<and> index_ok ?pos ?S)"
  proof (cases "index_ok ?pos (arg_dense_mat a)")
    case False
    then show ?thesis
      by (simp add: imputer_init_def mx np_pick_bad_index)
  next
    case True
    with that have "\<not> index_ok ?pos ?S" by simp
    from initial_Z_bad_index [OF this] np_pick_good_index [OF True] show ?thesis
      by (auto simp: imputer_init_def mx)
  qed
  show "imputer_init a = Inl ValueError"
    if ok: "index_ok ?pos (arg_dense_mat a)" "index_ok ?pos ?S"
      and bad: "\<not> (Max (set ?lags) \<le> int (ncols ?S) \<and>
            (Max (set ?lags) < int (ncols ?S) \<longrightarrow> (\<forall>l \<in> set ?lags. 0 \<le> l)))"
  proof -
    from gen(1) bad have "\<not> (\<exists>Psis. generate_Psi (int (ncols ?S)) ?lags = Inr Psis)" by simp
    then obtain e where "generate_Psi (int (ncols ?S)) ?lags = Inl e"
      by (cases "generate_Psi (int (ncols ?S)) ?lags") auto
    with gen(2) have g: "generate_Psi (int (ncols ?S)) ?lags = Inl ValueError" by auto
    from np_pick_good_index [OF ok(1)] initial_Z_good_index [OF ok(2), of "arg_dtype a"] g
    show ?thesis
      by (auto simp: imputer_init_def mx)
  qed
  { assume ok: "index_ok ?pos (arg_dense_mat a)" "index_ok ?pos ?S"
      and good: "Max (set ?lags) \<le> int (ncols ?S)"
          "Max (set ?lags) < int (ncols ?S) \<longrightarrow> (\<forall>l \<in> set ?lags. 0 \<le> l)"
    from gen(1) good obtain Psis where g: "generate_Psi (int (ncols ?S)) ?lags = Inr Psis"
      by auto
    obtain p where p: "np_pick (arg_dense_mat a) ?pos = Inr p"
      using np_pick_good_index [OF ok(1)] by blast
    { assume "initial_Z (arg_dtype a) ?S ?pos = Inr None"
      then show "imputer_init a = Inl NotANumber"
        using good(1) by (simp add: imputer_init_def mx p g np_ones_def iden) }
    { assume "initial_Z (arg_dtype a) ?S ?pos = Inr (Some Z)"
      then show "\<exists>pr st0. imputer_init a = Inr (pr, st0)"
        using good(1) by (simp add: imputer_init_def mx p g np_ones_def iden Let_def) } }
qed

lemma imputer_fails_with_init: "imputer_init a = Inl e \<Longrightarrow> imputer lib a = Inl e"
  by (simp add: imputer_def)

lemma ex_lag_init_parts:
  "np_max [2] = Inr 2"
  "generate_Psi 2 [2] = Inr [\<lparr>coo_data = [], coo_row = [], coo_col = [], coo_shape = (0, 2)\<rparr>,
                \<lparr>coo_data = [], coo_row = [], coo_col = [], coo_shape = (0, 2)\<rparr>]"
  "arange 0 0 = []"
  by code_simp+

lemma ex_lag_init: "imputer_init ex_lag_args = Inr (ex_lag_pr, ex_st0)"
  by (simp add: imputer_init_def ex_lag_args_def ex_args_def ex_S_shape ex_init_parts
      ex_lag_init_parts ex_lag_pr_def ex_st0_def Let_def mk_array_1_1)

lemma ex_lag_outer: "outer_iteration ex_lag_lib ex_lag_args ex_lag_pr ex_st0 = Inr ex_lag_st1"
  by (simp add: outer_iteration_def build_B_def inner_step_def update_A_row_def tol_of_def norm_fro_def
      svt_tnn.simps svt_direct_part_def solve_rows_def row_system_def store_all_def store_def
      ex_lag_args_def ex_args_def ex_lag_lib_def ex_lib_def ex_lag_pr_def ex_st0_def ex_lag_st1_def
      ex_pos_def ex_X1_def ex_S_def Let_def array_eval)

lemma ex_report: "report (Flat [5]) ex_pos ex_X1 = Inr ()"
  by (simp add: report_def np_pick_def compute_mae_def compute_rmse_def np_subtract_def
      broadcast_len_def as_rows_def ex_pos_def ex_X1_def Let_def array_eval)

lemma ex_lag_imputer: "imputer ex_lag_lib ex_lag_args = Inr ex_X1"
proof -
  have stop: "stop ex_lag_args ex_lag_st1"
    by (simp add: stop_def ex_lag_args_def ex_args_def ex_lag_st1_def)
  have loop: "outer_loop ex_lag_lib ex_lag_args ex_lag_pr ex_st0 = Inr ex_lag_st1"
    by (subst outer_loop.simps) (simp add: ex_lag_outer stop)
  have shown: "report (pr_dense_test ex_lag_pr) (arg_pos_missing ex_lag_args) ex_X1 = Inr ()"
    by (simp add: ex_lag_args_def ex_args_def ex_lag_pr_def ex_report)
  show ?thesis
    by (simp add: imputer_def ex_lag_init loop) (simp add: ex_lag_st1_def shown)
qed

lemma ex_variants:
  "arg_time_lags ex_badmask_args = [1]" "arg_time_lags ex_big_args = [3]"
  "arg_time_lags ex_neg_args = [- 1, 1]" "arg_time_lags ex_lag_args = [2]"
  "arg_time_lags ex_zero_args = [1]"
  "ncols (arg_sparse_mat ex_big_args) = 2" "ncols (arg_sparse_mat ex_neg_args) = 2"
  "ncols (arg_sparse_mat ex_lag_args) = 2" "ncols (arg_sparse_mat ex_zero_args) = 2"
  "\<not> index_ok (arg_pos_missing ex_badmask_args) (arg_sparse_mat ex_badmask_args)"
  "index_ok (arg_pos_missing ex_big_args) (arg_dense_mat ex_big_args)"
  "index_ok (arg_pos_missing ex_big_args) (arg_sparse_mat ex_big_args)"
  "index_ok (arg_pos_missing ex_neg_args) (arg_dense_mat ex_neg_args)"
  "index_ok (arg_pos_missing ex_neg_args) (arg_sparse_mat ex_neg_args)"
  "index_ok (arg_pos_missing ex_lag_args) (arg_dense_mat ex_lag_args)"
  "index_ok (arg_pos_missing ex_lag_args) (arg_sparse_mat ex_lag_args)"
  "index_ok (arg_pos_missing ex_zero_args) (arg_dense_mat ex_zero_args)"
  "index_ok (arg_pos_missing ex_zero_args) (arg_sparse_mat ex_zero_args)"
  by (simp_all add: ex_badmask_args_def ex_big_args_def ex_neg_args_def ex_lag_args_def
      ex_zero_args_def ex_args_def ex_S_def ex_zero_S_def ex_pos_def index_ok_def same_shape_def)

lemma ex_variants_Z:
  "initial_Z (arg_dtype ex_lag_args) (arg_sparse_mat ex_lag_args) (arg_pos_missing ex_lag_args)
     = Inr (Some (st_Z ex_st0))"
  "initial_Z (arg_dtype ex_zero_args) (arg_sparse_mat ex_zero_args) (arg_pos_missing ex_zero_args)
     = Inr None"
proof -
  show "initial_Z (arg_dtype ex_lag_args) (arg_sparse_mat ex_lag_args) (arg_pos_missing ex_lag_args)
     = Inr (Some (st_Z ex_st0))"
    by (simp add: ex_lag_args_def ex_args_def ex_init_parts ex_st0_def)
  have "nonzero_entries ex_zero_S = Inr []" "take_mask ex_zero_S ex_pos = Inr [0]"
    by (simp_all add: nonzero_entries_def take_mask_def index_ok_def same_shape_def flat_mask_def
        map_array_def ex_zero_S_def ex_pos_def array_eval)
  then show "initial_Z (arg_dtype ex_zero_args) (arg_sparse_mat ex_zero_args)
      (arg_pos_missing ex_zero_args) = Inr None"
    by (simp add: ex_zero_args_def ex_args_def initial_Z_def np_mean_def)
qed

text \<open>
  Claim C8, amended.  The imputer has no check of its arguments: before the loop it
  fails where a NumPy or SciPy call of its first lines raises, and only there.  Apart
  from the case where the initial fill is \<open>nan\<close> or cannot be stored in an array of
  integers (there the model stops with \<open>NotANumber\<close> once the lines before the loop
  have passed, and follows the run no further), these lines raise

  \<^item> \<open>ValueError\<close> exactly when there is no time lag (\<open>np.max\<close> of an empty list) or,
    \<open>pos_missing\<close> being \<open>None\<close> or a mask of the shape of \<open>dense_mat\<close> and of
    \<open>sparse_mat\<close>, when the largest lag is greater than the number of columns (\<open>np.ones\<close>
    of a negative length in \<open>generate_Psi\<close>) or is smaller than it while some lag is
    negative (\<open>coo_matrix\<close> refuses a column index outside the matrix);

  \<^item> \<open>IndexError\<close> exactly when there is a time lag and \<open>pos_missing\<close> is a mask whose
    shape differs from that of \<open>dense_mat\<close> or from that of \<open>sparse_mat\<close>;

  \<^item> nothing in every other case: the loop is entered.  In particular a largest lag
    equal to the number of columns is accepted, whatever the other lags are.

  A failure before the loop is the failure of the call.
\<close>

theorem imputer_fails_before_loop:
  "(imputer_init a = Inl ValueError \<longleftrightarrow>
      arg_time_lags a = [] \<or>
      (index_ok (arg_pos_missing a) (arg_dense_mat a) \<and>
       index_ok (arg_pos_missing a) (arg_sparse_mat a) \<and>
       (int (ncols (arg_sparse_mat a)) < Max (set (arg_time_lags a)) \<or>
        (Max (set (arg_time_lags a)) < int (ncols (arg_sparse_mat a)) \<and>
         (\<exists>l \<in> set (arg_time_lags a). l < 0))))) \<and>
   (imputer_init a = Inl IndexError \<longleftrightarrow>
      arg_time_lags a \<noteq> [] \<and>
      \<not> (index_ok (arg_pos_missing a) (arg_dense_mat a) \<and>
         index_ok (arg_pos_missing a) (arg_sparse_mat a))) \<and>
   (imputer_init a = Inl NotANumber \<longleftrightarrow>
      arg_time_lags a \<noteq> [] \<and>
      index_ok (arg_pos_missing a) (arg_dense_mat a) \<and>
      index_ok (arg_pos_missing a) (arg_sparse_mat a) \<and>
      Max (set (arg_time_lags a)) \<le> int (ncols (arg_sparse_mat a)) \<and>
      (Max (set (arg_time_lags a)) < int (ncols (arg_sparse_mat a)) \<longrightarrow>
         (\<forall>l \<in> set (arg_time_lags a). 0 \<le> l)) \<and>
      initial_Z (arg_dtype a) (arg_sparse_mat a) (arg_pos_missing a) = Inr None) \<and>
   ((\<exists>pr st0. imputer_init a = Inr (pr, st0)) \<longleftrightarrow>
      arg_time_lags a \<noteq> [] \<and>
      index_ok (arg_pos_missing a) (arg_dense_mat a) \<and>
      index_ok (arg_pos_missing a) (arg_sparse_mat a) \<and>
      Max (set (arg_time_lags a)) \<le> int (ncols (arg_sparse_mat a)) \<and>
      (Max (set (arg_time_lags a)) < int (ncols (arg_sparse_mat a)) \<longrightarrow>
         (\<forall>l \<in> set (arg_time_lags a). 0 \<le> l)) \<and>
      (\<exists>Z. initial_Z (arg_dtype a) (arg_sparse_mat a) (arg_pos_missing a) = Inr (Some Z))) \<and>
   (\<forall>e. imputer_init a = Inl e \<longrightarrow>
      (e = ValueError \<or> e = IndexError \<or> e = NotANumber) \<and> imputer lib a = Inl e)"
proof (cases "arg_time_lags a = []")
  case True
  then have "imputer_init a = Inl ValueError"
    by (simp add: imputer_init_def np_max_def)
  with True show ?thesis
    by (simp add: imputer_fails_with_init)
next
  case ne: False
  let ?okd = "index_ok (arg_pos_missing a) (arg_dense_mat a)"
  let ?oks = "index_ok (arg_pos_missing a) (arg_sparse_mat a)"
  let ?good = "Max (set (arg_time_lags a)) \<le> int (ncols (arg_sparse_mat a)) \<and>
      (Max (set (arg_time_lags a)) < int (ncols (arg_sparse_mat a)) \<longrightarrow>
         (\<forall>l \<in> set (arg_time_lags a). 0 \<le> l))"
  let ?iz = "initial_Z (arg_dtype a) (arg_sparse_mat a) (arg_pos_missing a)"
  have bad_iff: "(int (ncols (arg_sparse_mat a)) < Max (set (arg_time_lags a)) \<or>
        (Max (set (arg_time_lags a)) < int (ncols (arg_sparse_mat a)) \<and>
         (\<exists>l \<in> set (arg_time_lags a). l < 0))) \<longleftrightarrow> \<not> ?good"
    by (auto simp: not_le)
  note o = imputer_init_outcome [OF ne]
  consider (idx) "\<not> (?okd \<and> ?oks)"
    | (lag) "?okd" "?oks" "\<not> ?good"
    | (nan) "?okd" "?oks" "?good" "?iz = Inr None"
    | (run) Z where "?okd" "?oks" "?good" "?iz = Inr (Some Z)"
    using initial_Z_good_index [of "arg_pos_missing a" "arg_sparse_mat a" "arg_dtype a"]
    by blast
  then show ?thesis
  proof cases
    case idx
    from o(1) [OF idx] have r: "imputer_init a = Inl IndexError" .
    show ?thesis
      unfolding bad_iff using ne idx by (simp add: r imputer_fails_with_init) blast
  next
    case lag
    from o(2) [OF lag] have r: "imputer_init a = Inl ValueError" .
    show ?thesis
      unfolding bad_iff using ne lag by (simp add: r imputer_fails_with_init) blast
  next
    case nan
    from nan(3) have g: "Max (set (arg_time_lags a)) \<le> int (ncols (arg_sparse_mat a))"
      "Max (set (arg_time_lags a)) < int (ncols (arg_sparse_mat a)) \<longrightarrow>
         (\<forall>l \<in> set (arg_time_lags a). 0 \<le> l)" by simp_all
    from o(3) [OF nan(1,2) g nan(4)] have r: "imputer_init a = Inl NotANumber" .
    show ?thesis
      unfolding bad_iff using ne nan by (simp add: r imputer_fails_with_init)
  next
    case run
    from run(3) have g: "Max (set (arg_time_lags a)) \<le> int (ncols (arg_sparse_mat a))"
      "Max (set (arg_time_lags a)) < int (ncols (arg_sparse_mat a)) \<longrightarrow>
         (\<forall>l \<in> set (arg_time_lags a). 0 \<le> l)" by simp_all
    from o(4) [OF run(1,2) g run(4)] obtain pr st0 where r: "imputer_init a = Inr (pr, st0)"
      by blast
    show ?thesis
      unfolding bad_iff using ne run by (simp add: r)
  qed
qed

text \<open>
  The cases on variants of the worked call: no lag, a mask of another shape, the lag
  \<open>3\<close> on two columns, the lags \<open>-1\<close> and \<open>1\<close>, a matrix of zeros, and the lag \<open>2\<close>.
\<close>

theorem imputer_fails_before_loop_witness:
  "arg_time_lags (ex_args\<lparr>arg_time_lags := []\<rparr>) = [] \<and>
   imputer ex_lib (ex_args\<lparr>arg_time_lags := []\<rparr>) = Inl ValueError \<and>
   \<not> index_ok (arg_pos_missing ex_badmask_args) (arg_sparse_mat ex_badmask_args) \<and>
   imputer ex_lib ex_badmask_args = Inl IndexError \<and>
   int (ncols (arg_sparse_mat ex_big_args)) < Max (set (arg_time_lags ex_big_args)) \<and>
   imputer ex_lib ex_big_args = Inl ValueError \<and>
   Max (set (arg_time_lags ex_neg_args)) < int (ncols (arg_sparse_mat ex_neg_args)) \<and>
   list_ex (\<lambda>l. l < 0) (arg_time_lags ex_neg_args) \<and>
   imputer ex_lib ex_neg_args = Inl ValueError \<and>
   initial_Z (arg_dtype ex_zero_args) (arg_sparse_mat ex_zero_args) (arg_pos_missing ex_zero_args)
     = Inr None \<and>
   imputer ex_lib ex_zero_args = Inl NotANumber \<and>
   Max (set (arg_time_lags ex_lag_args)) = int (ncols (arg_sparse_mat ex_lag_args)) \<and>
   (\<exists>pr st0. imputer_init ex_lag_args = Inr (pr, st0))"
proof -
  note t = imputer_fails_before_loop [of _ ex_lib]
  have a: "arg_time_lags (ex_args\<lparr>arg_time_lags := []\<rparr>) = []" by simp
  from t [of "ex_args\<lparr>arg_time_lags := []\<rparr>"] a
  have r1: "imputer ex_lib (ex_args\<lparr>arg_time_lags := []\<rparr>) = Inl ValueError" by blast
  have "imputer_init ex_badmask_args = Inl IndexError"
    using t [of ex_badmask_args] by (simp add: ex_variants)
  with t [of ex_badmask_args]
  have r2: "imputer ex_lib ex_badmask_args = Inl IndexError" by blast
  have "imputer_init ex_big_args = Inl ValueError"
    using t [of ex_big_args] by (simp add: ex_variants)
  with t [of ex_big_args]
  have r3: "imputer ex_lib ex_big_args = Inl ValueError" by blast
  have "imputer_init ex_neg_args = Inl ValueError"
    using t [of ex_neg_args] by (simp add: ex_variants)
  with t [of ex_neg_args]
  have r4: "imputer ex_lib ex_neg_args = Inl ValueError" by blast
  have "imputer_init ex_zero_args = Inl NotANumber"
    using t [of ex_zero_args] by (simp add: ex_variants ex_variants_Z)
  with t [of ex_zero_args]
  have r5: "imputer ex_lib ex_zero_args = Inl NotANumber" by blast
  have r6: "\<exists>pr st0. imputer_init ex_lag_args = Inr (pr, st0)"
    using t [of ex_lag_args] by (simp add: ex_variants ex_variants_Z)
  show ?thesis
    using a r1 r2 r3 r4 r5 r6 by (simp add: ex_variants ex_variants_Z)
qed

text \<open>
  Claim C8 as stated fails for a lag equal to the number of columns: the lines before
  the loop succeed, an iteration runs and the call returns its \<open>X\<close>.
\<close>

theorem lag_equal_to_width_counterexample:
  "list_ex (\<lambda>l. l \<ge> int (ncols (arg_sparse_mat ex_lag_args))) (arg_time_lags ex_lag_args) \<and>
   imputer_init ex_lag_args = Inr (ex_lag_pr, ex_st0) \<and>
   outer_iteration ex_lag_lib ex_lag_args ex_lag_pr ex_st0 = Inr ex_lag_st1 \<and>
   imputer ex_lag_lib ex_lag_args = Inr ex_X1"
proof -
  have "list_ex (\<lambda>l. l \<ge> int (ncols (arg_sparse_mat ex_lag_args))) (arg_time_lags ex_lag_args)"
    by (simp add: ex_lag_args_def ex_args_def ex_S_def)
  then show ?thesis
    using ex_lag_init ex_lag_outer ex_lag_imputer by blast
qed

section \<open>The initial fill on worked calls\<close>

lemma ex_int_S_shape: "nrows ex_int_S = 1" "ncols ex_int_S = 2"
  by (simp_all add: ex_int_S_def)

lemma ex_int_init_parts:
  "np_pick ex_int_S ex_pos = Inr (Flat [6])"
  "nonzero_entries ex_int_S = Inr [3, 6]"
  "fill_mask ex_int_S ex_pos 4 = Inr \<lparr>nrows = 1, ncols = 2, rows = [[3, 4]]\<rparr>"
  by code_simp+

lemma ex_int_store: "store Int64 (9 / 2) = Some 4"
  by (simp add: store_def trunc_toward_zero_def Let_def)

lemma ex_int_Z: "initial_Z Int64 ex_int_S ex_pos = Inr (Some \<lparr>nrows = 1, ncols = 2, rows = [[3, 4]]\<rparr>)"
  by (simp add: initial_Z_def ex_int_init_parts np_mean_def ex_int_store)

lemma ex_int_init: "imputer_init ex_int_args = Inr (ex_int_pr, ex_int_st0)"
  by (simp add: imputer_init_def ex_int_args_def ex_int_S_shape ex_init_parts ex_int_init_parts
      ex_int_Z ex_int_pr_def ex_int_st0_def Let_def mk_array_1_1)

text \<open>
  The worked call, where the fill is \<open>(3 + 5) / 2\<close>; the call on the integer array, where
  it is \<open>9 / 2\<close> truncated; and the call on a matrix of zeros, where there is none.
\<close>

theorem initial_fill_is_nonzero_mean_witness:
  "wf_array (arg_sparse_mat ex_args) \<and> wf_pos (arg_pos_missing ex_args) \<and>
   imputer_init ex_args = Inr (ex_pr, ex_st0) \<and> arg_dtype ex_args = Float64 \<and>
   nonzero_entries (arg_sparse_mat ex_args) = Inr [3, 5] \<and>
   selected (arg_pos_missing ex_args) 0 1 \<and> entry (st_Z ex_st0) 0 1 = (3 + 5) / 2 \<and>
   \<not> selected (arg_pos_missing ex_args) 0 0 \<and> entry (st_Z ex_st0) 0 0 = 3 \<and>
   wf_array (arg_sparse_mat ex_int_args) \<and> wf_pos (arg_pos_missing ex_int_args) \<and>
   imputer_init ex_int_args = Inr (ex_int_pr, ex_int_st0) \<and> arg_dtype ex_int_args = Int64 \<and>
   nonzero_entries (arg_sparse_mat ex_int_args) = Inr [3, 6] \<and>
   selected (arg_pos_missing ex_int_args) 0 1 \<and>
   entry (st_Z ex_int_st0) 0 1 = of_int \<lfloor>(3 + 6) / (2::real)\<rfloor> \<and>
   wf_array (arg_sparse_mat ex_zero_args) \<and> wf_pos (arg_pos_missing ex_zero_args) \<and>
   list_all (\<lambda>x. x = 0) (concat (rows (arg_sparse_mat ex_zero_args))) \<and>
   index_ok (arg_pos_missing ex_zero_args) (arg_sparse_mat ex_zero_args) \<and>
   selected (arg_pos_missing ex_zero_args) 0 1 \<and>
   nonzero_entries (arg_sparse_mat ex_zero_args) = Inr [] \<and>
   initial_Z (arg_dtype ex_zero_args) (arg_sparse_mat ex_zero_args) (arg_pos_missing ex_zero_args)
     = Inr None \<and>
   imputer_init ex_zero_args = Inl NotANumber"
proof -
  have wf: "wf_array (arg_sparse_mat ex_args)" "wf_pos (arg_pos_missing ex_args)"
    "wf_array (arg_sparse_mat ex_int_args)" "wf_pos (arg_pos_missing ex_int_args)"
    "wf_array (arg_sparse_mat ex_zero_args)" "wf_pos (arg_pos_missing ex_zero_args)"
    by (simp_all add: ex_args_def ex_int_args_def ex_zero_args_def ex_S_def ex_int_S_def
        ex_zero_S_def ex_pos_def wf_array_def wf_pos_def)
  have sh: "nrows (arg_sparse_mat ex_args) = 1" "ncols (arg_sparse_mat ex_args) = 2"
    "nrows (arg_sparse_mat ex_int_args) = 1" "ncols (arg_sparse_mat ex_int_args) = 2"
    "nrows (arg_sparse_mat ex_zero_args) = 1" "ncols (arg_sparse_mat ex_zero_args) = 2"
    and dt: "arg_dtype ex_args = Float64" "arg_dtype ex_int_args = Int64"
    and sel: "selected (arg_pos_missing ex_args) 0 1" "\<not> selected (arg_pos_missing ex_args) 0 0"
      "selected (arg_pos_missing ex_int_args) 0 1" "selected (arg_pos_missing ex_zero_args) 0 1"
    and nz: "filter (\<lambda>x. x \<noteq> 0) (concat (rows (arg_sparse_mat ex_args))) = [3, 5]"
      "filter (\<lambda>x. x \<noteq> 0) (concat (rows (arg_sparse_mat ex_int_args))) = [3, 6]"
    and zero: "\<forall>x \<in> set (concat (rows (arg_sparse_mat ex_zero_args))). x = 0"
    and ok: "index_ok (arg_pos_missing ex_zero_args) (arg_sparse_mat ex_zero_args)"
    by (simp_all add: ex_args_def ex_int_args_def ex_zero_args_def ex_S_def ex_int_S_def
        ex_zero_S_def ex_pos_def selected_def entry_def index_ok_def same_shape_def)
  note t1 = initial_fill_is_nonzero_mean [OF wf(1,2)]
  note t2 = initial_fill_is_nonzero_mean [OF wf(3,4)]
  note t3 = initial_fill_is_nonzero_mean [OF wf(5,6)]
  from t1 have n1: "nonzero_entries (arg_sparse_mat ex_args) = Inr [3, 5]"
    by (simp only: nz)
  from t1 ex_init have
    "\<forall>i < nrows (arg_sparse_mat ex_args). \<forall>j < ncols (arg_sparse_mat ex_args).
       (selected (arg_pos_missing ex_args) i j \<longrightarrow>
          (arg_dtype ex_args = Float64 \<longrightarrow>
             entry (st_Z ex_st0) i j =
               sum_list (filter (\<lambda>x. x \<noteq> 0) (concat (rows (arg_sparse_mat ex_args))))
                 / real (length (filter (\<lambda>x. x \<noteq> 0) (concat (rows (arg_sparse_mat ex_args))))))) \<and>
       (\<not> selected (arg_pos_missing ex_args) i j \<longrightarrow>
          entry (st_Z ex_st0) i j = entry (arg_sparse_mat ex_args) i j)"
    by blast
  note f1 = this
  have e1: "entry (st_Z ex_st0) 0 1 = (3 + 5) / 2"
    using f1 sel(1,2) dt(1) by (simp add: sh nz)
  have e1': "entry (st_Z ex_st0) 0 0 = 3"
    using f1 sel(1,2) dt(1) by (simp add: sh nz) (simp add: ex_args_def ex_S_def entry_def)
  from t2 have n2: "nonzero_entries (arg_sparse_mat ex_int_args) = Inr [3, 6]"
    by (simp only: nz)
  from t2 ex_int_init have
    "\<forall>i < nrows (arg_sparse_mat ex_int_args). \<forall>j < ncols (arg_sparse_mat ex_int_args).
       (selected (arg_pos_missing ex_int_args) i j \<longrightarrow>
          (arg_dtype ex_int_args = Int64 \<longrightarrow>
             entry (st_Z ex_int_st0) i j =
               (if 0 \<le> sum_list (filter (\<lambda>x. x \<noteq> 0) (concat (rows (arg_sparse_mat ex_int_args))))
                then of_int \<lfloor>sum_list (filter (\<lambda>x. x \<noteq> 0) (concat (rows (arg_sparse_mat ex_int_args))))
                       / real (length (filter (\<lambda>x. x \<noteq> 0) (concat (rows (arg_sparse_mat ex_int_args)))))\<rfloor>
                else of_int \<lceil>sum_list (filter (\<lambda>x. x \<noteq> 0) (concat (rows (arg_sparse_mat ex_int_args))))
                       / real (length (filter (\<lambda>x. x \<noteq> 0) (concat (rows (arg_sparse_mat ex_int_args)))))\<rceil>)))"
    by blast
  then have e2: "entry (st_Z ex_int_st0) 0 1 = of_int \<lfloor>(3 + 6) / (2::real)\<rfloor>"
    using sel(3) dt(2) by (simp add: sh nz)
  from t3 zero ok sel(4) have
    z: "filter (\<lambda>x. x \<noteq> 0) (concat (rows (arg_sparse_mat ex_zero_args))) = []"
      "initial_Z (arg_dtype ex_zero_args) (arg_sparse_mat ex_zero_args) (arg_pos_missing ex_zero_args)
         = Inr None"
    by (auto simp: sh)
  from t3 z(1) have n3: "nonzero_entries (arg_sparse_mat ex_zero_args) = Inr []"
    by simp
  have i3: "imputer_init ex_zero_args = Inl NotANumber"
    using imputer_init_outcome(3) [of ex_zero_args] z(2) by (simp add: ex_variants)
  have la: "list_all (\<lambda>x. x = 0) (concat (rows (arg_sparse_mat ex_zero_args)))"
    using zero by (simp add: list_all_iff)
  show ?thesis
    using wf ex_init dt n1 sel e1 e1' ex_int_init n2 e2 la ok z(2) n3 i3 by simp
qed

text \<open>
  Claim C10 as stated fails for an array of integers: the nonzero entries of \<open>[[3, 6]]\<close>
  have the mean \<open>4.5\<close>, and the missing entry of \<open>Z\<close> is filled with \<open>4\<close>.
\<close>

theorem integer_fill_counterexample:
  "arg_sparse_mat ex_int_args = \<lparr>nrows = 1, ncols = 2, rows = [[3, 6]]\<rparr> \<and>
   arg_dtype ex_int_args = Int64 \<and>
   arg_pos_missing ex_int_args = Some \<lparr>nrows = 1, ncols = 2, rows = [[False, True]]\<rparr> \<and>
   imputer_init ex_int_args = Inr (ex_int_pr, ex_int_st0) \<and>
   nonzero_entries (arg_sparse_mat ex_int_args) = Inr [3, 6] \<and>
   np_mean [3, 6] = Some (9 / 2) \<and>
   selected (arg_pos_missing ex_int_args) 0 1 \<and>
   entry (st_Z ex_int_st0) 0 1 = 4 \<and>
   entry (st_Z ex_int_st0) 0 1 \<noteq> 9 / 2"
  using ex_int_init ex_int_init_parts(2)
  by (simp add: ex_int_args_def ex_int_S_def ex_pos_def ex_int_st0_def np_mean_def selected_def
      entry_def)

section \<open>The loop ends within maxiter iterations\<close>

lemma bindE_assoc: "bindE (bindE x f) g = bindE x (\<lambda>v. bindE (f v) g)"
  by (cases x) simp_all

lemma repeat_Suc_right: "repeat (Suc n) f st = bindE (repeat n f st) f"
proof (induction n arbitrary: st)
  case 0
  show ?case by (cases "f st") simp_all
next
  case (Suc n)
  have ih: "repeat (Suc n) f = (\<lambda>s. bindE (repeat n f s) f)"
    by (rule ext) (rule Suc.IH)
  have "repeat (Suc (Suc n)) f st = bindE (f st) (repeat (Suc n) f)"
    by (rule repeat.simps)
  also have "\<dots> = bindE (f st) (\<lambda>s. bindE (repeat n f s) f)"
    by (simp only: ih)
  also have "\<dots> = bindE (bindE (f st) (repeat n f)) f"
    by (simp only: bindE_assoc)
  also have "\<dots> = bindE (repeat (Suc n) f st) f"
    by (simp only: repeat.simps)
  finally show ?case .
qed







































section \<open>The relative change tol\<close>

lemma inner_step_last_mat:
  "inner_step lib a pr B st = Inr st' \<Longrightarrow> st_last_mat st' = st_last_mat st"
  unfolding inner_step_def Let_def
  by (auto simp: bindE_eq_Inr split: if_splits option.splits)

lemma outer_iteration_tol:
  assumes "outer_iteration lib a pr st = Inr st'"
  shows "\<exists>X diff. st_X st' = Some X \<and> st_last_mat st' = X \<and>
           ew_sub X (st_last_mat st) = Inr diff \<and> st_tol st' = tol_of (pr_snorm pr) diff"
proof -
  from outer_iteration_parts [OF assms] obtain B st1 X diff where
    rep: "repeat (arg_K a) (inner_step lib a pr B) st = Inr st1"
    and X: "st_X st' = Some X" "st_last_mat st' = X"
    and d: "ew_sub X (st_last_mat st1) = Inr diff" "st_tol st' = tol_of (pr_snorm pr) diff"
    by blast
  have "st_last_mat st1 = st_last_mat st"
    using repeat_invariant [where P = "\<lambda>s. st_last_mat s = st_last_mat st"
        and f = "inner_step lib a pr B", OF _ rep]
    by (simp add: inner_step_last_mat)
  with X d show ?thesis by simp
qed

text \<open>
  Claim C7, amended.  In every outer iteration after the first, \<open>tol\<close> is the Frobenius
  norm of the difference between the \<open>X\<close> of this iteration and the \<open>X\<close> of the previous
  one, divided by the Frobenius norm of \<open>sparse_mat\<close>.  In the first iteration the
  difference is taken to \<open>sparse_mat\<close> itself, the initial value of \<open>last_mat\<close>.  (When
  the norm of \<open>sparse_mat\<close> is zero the quotient is \<open>nan\<close> or \<open>inf\<close>.)
\<close>

theorem tol_is_relative_change:
  assumes init: "imputer_init a = Inr (pr, st0)"
  shows "(\<forall>s1. outer_iteration lib a pr st0 = Inr s1 \<longrightarrow>
            (\<exists>X diff. st_X s1 = Some X \<and> ew_sub X (arg_sparse_mat a) = Inr diff \<and>
               st_tol s1 = (if norm_fro (arg_sparse_mat a) = 0 then None
                            else Some (norm_fro diff / norm_fro (arg_sparse_mat a))))) \<and>
         (\<forall>n sn sn'. 1 \<le> n \<and> repeat n (outer_iteration lib a pr) st0 = Inr sn \<and>
                      outer_iteration lib a pr sn = Inr sn' \<longrightarrow>
            (\<exists>Xprev X diff. st_X sn = Some Xprev \<and> st_X sn' = Some X \<and>
               ew_sub X Xprev = Inr diff \<and>
               st_tol sn' = (if norm_fro (arg_sparse_mat a) = 0 then None
                             else Some (norm_fro diff / norm_fro (arg_sparse_mat a)))))"
proof (intro conjI allI impI)
  note sn = imputer_init_Inr(7) [OF init] and last0 = imputer_init_Inr(4) [OF init]
  { fix s1
    assume "outer_iteration lib a pr st0 = Inr s1"
    from outer_iteration_tol [OF this]
    show "\<exists>X diff. st_X s1 = Some X \<and> ew_sub X (arg_sparse_mat a) = Inr diff \<and>
        st_tol s1 = (if norm_fro (arg_sparse_mat a) = 0 then None
                     else Some (norm_fro diff / norm_fro (arg_sparse_mat a)))"
      by (auto simp: sn last0 tol_of_def) }
  { fix n sn sn'
    assume h: "1 \<le> n \<and> repeat n (outer_iteration lib a pr) st0 = Inr sn \<and>
       outer_iteration lib a pr sn = Inr sn'"
    then obtain m where m: "n = Suc m" by (cases n) auto
    from h obtain s where "outer_iteration lib a pr s = Inr sn"
      by (auto simp only: m repeat_Suc_right bindE_eq_Inr)
    from outer_iteration_tol [OF this] obtain Xprev where
      p: "st_X sn = Some Xprev" "st_last_mat sn = Xprev" by blast
    from h outer_iteration_tol [of lib a pr sn sn'] obtain X diff where
      "st_X sn' = Some X" "ew_sub X (st_last_mat sn) = Inr diff"
      "st_tol sn' = tol_of (pr_snorm pr) diff"
      by blast
    with p show "\<exists>Xprev X diff. st_X sn = Some Xprev \<and> st_X sn' = Some X \<and>
        ew_sub X Xprev = Inr diff \<and>
        st_tol sn' = (if norm_fro (arg_sparse_mat a) = 0 then None
                      else Some (norm_fro diff / norm_fro (arg_sparse_mat a)))"
      by (auto simp: sn tol_of_def) }
qed

lemma ex2_init_parts:
  "take_mask ex2_S ex2_pos = Inr []"
  "np_pick ex2_S ex2_pos = Inr (Flat [])"
  "initial_Z Float64 ex2_S ex2_pos = Inr (Some ex2_S)"
  by code_simp+

lemma ex2_S_shape: "nrows ex2_S = 1" "ncols ex2_S = 2"
  by (simp_all add: ex2_S_def)

lemma ex2_init: "imputer_init ex2_args = Inr (ex2_pr, ex2_st0)"
  by (simp add: imputer_init_def ex2_args_def ex2_S_shape ex2_init_parts ex_init_parts ex2_pr_def
      ex_pr_def ex2_st0_def Let_def mk_array_1_1)

lemma ex2_outer1: "outer_iteration ex2_lib ex2_args ex2_pr ex2_st0 = Inr ex2_st1"
  by (simp add: outer_iteration_def build_B_def inner_step_def update_A_row_def tol_of_def norm_fro_def
      svt_tnn.simps svt_direct_part_def solve_rows_def row_system_def store_all_def store_def
      ex2_args_def ex2_lib_def ex2_pr_def ex_pr_def ex2_st0_def ex2_st1_def ex2_pos_def
      ex_X1_def ex2_S_def Let_def array_eval)

lemma ex2_outer2: "outer_iteration ex2_lib ex2_args ex2_pr ex2_st1 = Inr ex2_st2"
  by (simp add: outer_iteration_def build_B_def inner_step_def update_A_row_def tol_of_def norm_fro_def
      svt_tnn.simps svt_direct_part_def solve_rows_def row_system_def store_all_def store_def
      ex2_args_def ex2_lib_def ex2_pr_def ex_pr_def ex2_st1_def ex2_st2_def ex2_pos_def
      ex_X1_def ex2_S_def Let_def array_eval)

lemma ex2_snorm: "norm_fro ex2_S = 5"
proof -
  have "norm_fro ex2_S = sqrt (5 * 5)" by (simp add: norm_fro_def ex2_S_def)
  then show ?thesis by (simp only: real_sqrt_mult_self) simp
qed

text \<open>The first two iterations of the second call.\<close>

theorem tol_is_relative_change_witness:
  "imputer_init ex2_args = Inr (ex2_pr, ex2_st0) \<and>
   outer_iteration ex2_lib ex2_args ex2_pr ex2_st0 = Inr ex2_st1 \<and>
   (\<exists>diff. ew_sub ex_X1 (arg_sparse_mat ex2_args) = Inr diff \<and>
      st_tol ex2_st1 = Some (norm_fro diff / norm_fro (arg_sparse_mat ex2_args))) \<and>
   repeat 1 (outer_iteration ex2_lib ex2_args ex2_pr) ex2_st0 = Inr ex2_st1 \<and>
   outer_iteration ex2_lib ex2_args ex2_pr ex2_st1 = Inr ex2_st2 \<and>
   st_X ex2_st1 = Some ex_X1 \<and> st_X ex2_st2 = Some ex2_S \<and>
   (\<exists>diff. ew_sub ex2_S ex_X1 = Inr diff \<and>
      st_tol ex2_st2 = Some (norm_fro diff / norm_fro (arg_sparse_mat ex2_args)))"
proof -
  have r1: "repeat 1 (outer_iteration ex2_lib ex2_args ex2_pr) ex2_st0 = Inr ex2_st1"
    by (simp add: ex2_outer1)
  have S: "arg_sparse_mat ex2_args = ex2_S" by (simp add: ex2_args_def)
  have nz: "norm_fro (arg_sparse_mat ex2_args) \<noteq> 0" by (simp add: S ex2_snorm)
  have X1: "st_X ex2_st1 = Some ex_X1" and X2: "st_X ex2_st2 = Some ex2_S"
    by (simp_all add: ex2_st1_def ex2_st2_def)
  note t = tol_is_relative_change [OF ex2_init, of ex2_lib]
  from t ex2_outer1 X1 nz
  have a: "\<exists>diff. ew_sub ex_X1 (arg_sparse_mat ex2_args) = Inr diff \<and>
      st_tol ex2_st1 = Some (norm_fro diff / norm_fro (arg_sparse_mat ex2_args))"
    by (metis option.inject)
  from t r1 ex2_outer2 obtain Xprev X diff where
    "st_X ex2_st1 = Some Xprev" "st_X ex2_st2 = Some X" "ew_sub X Xprev = Inr diff"
    "st_tol ex2_st2 = (if norm_fro (arg_sparse_mat ex2_args) = 0 then None
                       else Some (norm_fro diff / norm_fro (arg_sparse_mat ex2_args)))"
    by (metis le_refl)
  with X1 X2 nz have b: "\<exists>diff. ew_sub ex2_S ex_X1 = Inr diff \<and>
      st_tol ex2_st2 = Some (norm_fro diff / norm_fro (arg_sparse_mat ex2_args))"
    by auto
  show ?thesis using ex2_init ex2_outer1 a r1 ex2_outer2 X1 X2 b by blast
qed

text \<open>
  Claim C7 as stated fails in the first iteration: no \<open>X\<close> has been produced before
  it, and \<open>tol\<close> is \<open>1 / 5\<close>, the norm of \<open>X - sparse_mat\<close> over the norm of \<open>sparse_mat\<close>.
\<close>

theorem first_tol_counterexample:
  "imputer_init ex2_args = Inr (ex2_pr, ex2_st0) \<and>
   st_X ex2_st0 = None \<and>
   outer_iteration ex2_lib ex2_args ex2_pr ex2_st0 = Inr ex2_st1 \<and>
   st_X ex2_st1 = Some ex_X1 \<and>
   st_tol ex2_st1 = Some (1 / 5) \<and>
   \<not> (\<exists>Xprev diff. st_X ex2_st0 = Some Xprev \<and> ew_sub ex_X1 Xprev = Inr diff \<and>
         st_tol ex2_st1 = Some (norm_fro diff / norm_fro (arg_sparse_mat ex2_args))) \<and>
   ew_sub ex_X1 (arg_sparse_mat ex2_args)
     = Inr \<lparr>nrows = 1, ncols = 2, rows = [[- 3 / 5, - 4 / 5]]\<rparr> \<and>
   norm_fro \<lparr>nrows = 1, ncols = 2, rows = [[- 3 / 5, - 4 / 5]]\<rparr>
     / norm_fro (arg_sparse_mat ex2_args) = 1 / 5"
proof -
  have S: "arg_sparse_mat ex2_args = ex2_S" by (simp add: ex2_args_def)
  have d: "ew_sub ex_X1 (arg_sparse_mat ex2_args)
     = Inr \<lparr>nrows = 1, ncols = 2, rows = [[- 3 / 5, - 4 / 5]]\<rparr>"
    by (simp add: S ex_X1_def ex2_S_def array_eval)
  have n: "norm_fro \<lparr>nrows = 1, ncols = 2, rows = [[- 3 / 5, - 4 / 5]]\<rparr> = 1"
    by (simp add: norm_fro_def)
  have tol: "st_tol ex2_st1 = Some (1 / 5)"
    by (simp add: ex2_st1_def n [simplified] ex2_snorm)
  have X0: "st_X ex2_st0 = None" and X1: "st_X ex2_st1 = Some ex_X1"
    by (simp_all add: ex2_st0_def ex2_st1_def)
  show ?thesis
    using ex2_init X0 ex2_outer1 X1 tol d by (simp add: n [simplified] S ex2_snorm)
qed

section \<open>The per-row update solves the system of the specification\<close>

lemma mk_array_cong:
  "(\<And>i j. i < r \<Longrightarrow> j < c \<Longrightarrow> f i j = g i j) \<Longrightarrow> mk_array r c f = mk_array r c g"
  by (simp add: mk_array_def)











lemma matmul_Inr:
  "matmul M N = Inr R \<Longrightarrow>
     ncols M = nrows N \<and>
     R = mk_array (nrows M) (ncols N)
           (\<lambda>i j. sum_list (map (\<lambda>k. entry M i k * entry N k j) [0..<ncols M]))"
  by (simp add: matmul_def split: if_splits)












section \<open>Folding the unfolding of a tensor\<close>

lemma valid_index_Cons:
  "valid_index (n # ns) (i # is) \<longleftrightarrow> i < n \<and> valid_index ns is"
  by (auto simp: valid_index_def nth_Cons split: nat.splits)

lemma valid_index_Nil [simp]: "valid_index [] idx \<longleftrightarrow> idx = []"
  by (auto simp: valid_index_def)

lemma ravel_less: "valid_index sh idx \<Longrightarrow> ravel sh idx < prod_list sh"
proof (induction sh idx rule: ravel.induct)
  case (1 n ns i "is")
  then have i: "i < n" and v: "valid_index ns is" by (simp_all add: valid_index_Cons)
  from "1.IH" [OF v] have "Suc (ravel ns is) \<le> prod_list ns" by simp
  then have "n * Suc (ravel ns is) \<le> n * prod_list ns" by (rule mult_le_mono2)
  with i show ?case by simp
qed (auto simp: valid_index_def)

lemma unravel_valid: "p < prod_list sh \<Longrightarrow> valid_index sh (unravel sh p)"
proof (induction sh arbitrary: p)
  case Nil
  then show ?case by simp
next
  case (Cons n ns)
  then have n: "0 < n" by (cases n) auto
  have "p div n < prod_list ns"
    using Cons.prems n by (simp add: less_mult_imp_div_less mult.commute)
  from Cons.IH [OF this] n show ?case by (simp add: valid_index_Cons)
qed

lemma ravel_unravel: "p < prod_list sh \<Longrightarrow> ravel sh (unravel sh p) = p"
proof (induction sh arbitrary: p)
  case Nil
  then show ?case by simp
next
  case (Cons n ns)
  then have n: "0 < n" by (cases n) auto
  have "p div n < prod_list ns"
    using Cons.prems n by (simp add: less_mult_imp_div_less mult.commute)
  from Cons.IH [OF this] show ?case by simp
qed

lemma unravel_ravel: "valid_index sh idx \<Longrightarrow> unravel sh (ravel sh idx) = idx"
proof (induction sh idx rule: ravel.induct)
  case (1 n ns i "is")
  then have i: "i < n" and v: "valid_index ns is" by (simp_all add: valid_index_Cons)
  from "1.IH" [OF v] i show ?case by simp
qed (auto simp: valid_index_def)

lemma length_unravel [simp]: "length (unravel sh p) = length sh"
  by (induction sh arbitrary: p) simp_all

lemma index_of_nth: "distinct xs \<Longrightarrow> k < length xs \<Longrightarrow> index_of (xs ! k) xs = k"
proof (induction xs arbitrary: k)
  case Nil
  then show ?case by simp
next
  case (Cons x xs)
  show ?case
  proof (cases k)
    case 0
    then show ?thesis by simp
  next
    case (Suc k')
    with Cons.prems have "xs ! k' \<noteq> x" by auto
    with Suc Cons show ?thesis by simp
  qed
qed

lemma index_of_mem: "a \<in> set xs \<Longrightarrow> index_of a xs < length xs \<and> xs ! index_of a xs = a"
  by (induction xs) auto

lemma source_index_valid:
  assumes p: "is_perm order (length sh)" and v: "valid_index (map (\<lambda>a. sh ! a) order) j"
  shows "valid_index sh (source_index order j)"
  unfolding valid_index_def
proof (intro conjI allI impI)
  show "length (source_index order j) = length sh"
    using p by (simp add: source_index_def is_perm_def)
next
  fix a assume a: "a < length sh"
  then have "a \<in> set order" using p by (simp add: is_perm_def)
  from index_of_mem [OF this] have i: "index_of a order < length order"
    and e: "order ! index_of a order = a" by simp_all
  from v i have "j ! index_of a order < sh ! (order ! index_of a order)"
    by (simp add: valid_index_def)
  then show "source_index order j ! a < sh ! a"
    using a p e by (simp add: source_index_def is_perm_def)
qed

lemma source_index_compose:
  assumes p1: "is_perm o1 n" and p2: "is_perm o2 n"
    and comp: "map (\<lambda>k. o1 ! k) o2 = [0..<n]"
    and len: "length u = n"
  shows "source_index o1 (source_index o2 u) = u"
proof (rule nth_equalityI)
  show "length (source_index o1 (source_index o2 u)) = length u"
    using p1 len by (simp add: source_index_def is_perm_def)
next
  fix a assume "a < length (source_index o1 (source_index o2 u))"
  then have a: "a < n" using p1 by (simp add: source_index_def is_perm_def)
  have l1: "length o1 = n" and l2: "length o2 = n" and d1: "distinct o1"
    using p1 p2 by (simp_all add: is_perm_def)
  have "o2 ! a < n" using p2 a l2 by (auto simp: is_perm_def dest: nth_mem)
  have c: "o1 ! (o2 ! a) = a"
    using arg_cong [OF comp, of "\<lambda>xs. xs ! a"] a l2 by simp
  let ?b = "index_of a o1"
  have "a \<in> set o1" using p1 a by (simp add: is_perm_def)
  from index_of_mem [OF this] have b: "?b < n" using l1 by simp
  have "?b = o2 ! a"
    using index_of_nth [OF d1, of "o2 ! a"] \<open>o2 ! a < n\<close> l1 c by simp
  moreover have "index_of (o2 ! a) o2 = a"
    using index_of_nth [of o2 a] p2 a by (simp add: is_perm_def)
  ultimately show "source_index o1 (source_index o2 u) ! a = u ! a"
    using a b l1 l2 by (simp add: source_index_def)
qed

lemma filter_neq_upt:
  "mode < n \<Longrightarrow> filter (\<lambda>a. a \<noteq> mode) [0..<n] = [0..<mode] @ [Suc mode..<n]"
proof -
  assume m: "mode < n"
  have "[0..<n] = [0..<mode] @ mode # [Suc mode..<n]"
    using m by (metis le_add1 less_imp_add_positive less_imp_le_nat upt_add_eq_append upt_conv_Cons plus_nat.add_0)
  then show ?thesis by simp
qed

lemma transpose_twice:
  assumes wf: "wf_tensor t" and p1: "is_perm o1 (length (shape t))"
    and p2: "is_perm o2 (length (shape t))"
    and comp: "map (\<lambda>k. o1 ! k) o2 = [0..<length (shape t)]"
  shows "np_transpose (np_transpose t o1) o2 = t"
proof -
  let ?n = "length (shape t)"
  let ?sh = "shape t"
  let ?sh1 = "map (\<lambda>a. ?sh ! a) o1"
  let ?t1 = "np_transpose t o1"
  have l1: "length o1 = ?n" and l2: "length o2 = ?n" using p1 p2 by (simp_all add: is_perm_def)
  have sh1: "shape ?t1 = ?sh1" by (simp add: np_transpose_def Let_def)
  have in2: "\<And>k. k \<in> set o2 \<Longrightarrow> k < ?n" using p2 by (simp add: is_perm_def)
  have "map (\<lambda>a. ?sh1 ! a) o2 = map (\<lambda>a. ?sh ! a) (map (\<lambda>k. o1 ! k) o2)"
    using in2 l1 by simp
  also have "\<dots> = ?sh" unfolding comp by (simp add: map_nth)
  finally have sh2: "map (\<lambda>a. ?sh1 ! a) o2 = ?sh" .
  have p2': "is_perm o2 (length ?sh1)" using p2 l1 by simp
  have fl: "flat (np_transpose ?t1 o2) = flat t"
  proof (rule nth_equalityI)
    show "length (flat (np_transpose ?t1 o2)) = length (flat t)"
      using wf sh2 by (simp add: np_transpose_def [of ?t1] Let_def sh1 wf_tensor_def)
  next
    fix p assume "p < length (flat (np_transpose ?t1 o2))"
    then have p: "p < prod_list ?sh"
      using sh2 by (simp add: np_transpose_def [of ?t1] Let_def sh1)
    let ?u = "unravel ?sh p"
    have vu: "valid_index ?sh ?u" by (rule unravel_valid [OF p])
    have v2: "valid_index ?sh1 (source_index o2 ?u)"
      by (rule source_index_valid [OF p2']) (simp only: sh2 vu)
    have r: "ravel ?sh1 (source_index o2 ?u) < prod_list ?sh1" by (rule ravel_less [OF v2])
    have "flat (np_transpose ?t1 o2) ! p = flat ?t1 ! ravel ?sh1 (source_index o2 ?u)"
      using p sh2 by (simp add: np_transpose_def [of ?t1] Let_def sh1)
    also have "\<dots> = flat t ! ravel ?sh (source_index o1
        (unravel ?sh1 (ravel ?sh1 (source_index o2 ?u))))"
      using r by (simp add: np_transpose_def [of t] Let_def)
    also have "\<dots> = flat t ! ravel ?sh (source_index o1 (source_index o2 ?u))"
      by (simp only: unravel_ravel [OF v2])
    also have "\<dots> = flat t ! ravel ?sh ?u"
      by (subst source_index_compose [OF p1 p2 comp]) simp_all
    also have "\<dots> = flat t ! p" by (simp only: ravel_unravel [OF p])
    finally show "flat (np_transpose ?t1 o2) ! p = flat t ! p" .
  qed
  have "shape (np_transpose ?t1 o2) = ?sh"
    using sh2 by (simp add: np_transpose_def [of ?t1] Let_def sh1)
  with fl show ?thesis by simp
qed

lemma unfold_order_perm: "mode < n \<Longrightarrow> is_perm (unfold_order n mode) n"
  by (auto simp: is_perm_def unfold_order_def)

lemma fold_order_perm: "mode < n \<Longrightarrow> is_perm (fold_order n mode) n"
  by (auto simp: is_perm_def fold_order_def)

lemma length_fold_order: "mode < n \<Longrightarrow> length (fold_order n mode) = n"
  by (simp add: fold_order_def del: upt_Suc)

lemma length_unfold_order: "mode < n \<Longrightarrow> length (unfold_order n mode) = n"
  by (simp add: unfold_order_def)

lemma fold_unfold_order:
  assumes "mode < n"
  shows "map (\<lambda>k. unfold_order n mode ! k) (fold_order n mode) = [0..<n]"
proof (rule nth_equalityI)
  show "length (map (\<lambda>k. unfold_order n mode ! k) (fold_order n mode)) = length [0..<n]"
    using assms by (simp add: length_fold_order)
next
  fix a assume "a < length (map (\<lambda>k. unfold_order n mode ! k) (fold_order n mode))"
  then have a: "a < n" using assms by (simp add: length_fold_order)
  have "unfold_order n mode ! (fold_order n mode ! a) = a"
    using a assms by (auto simp: fold_order_def unfold_order_def nth_append nth_Cons
        simp del: upt_Suc split: nat.splits)
  then show "map (\<lambda>k. unfold_order n mode ! k) (fold_order n mode) ! a = [0..<n] ! a"
    using a assms by (simp add: length_fold_order)
qed

lemma moveaxis_to_front:
  assumes "mode < length (shape t)"
  shows "moveaxis t mode 0 = Inr (np_transpose t (unfold_order (length (shape t)) mode))"
proof -
  have "shape t \<noteq> []" using assms by auto
  with assms show ?thesis
    by (simp add: moveaxis_def Let_def filter_neq_upt unfold_order_def)
qed

lemma moveaxis_from_front:
  assumes "mode < length (shape t)"
  shows "moveaxis t 0 mode = Inr (np_transpose t (fold_order (length (shape t)) mode))"
proof -
  let ?n = "length (shape t)"
  have ne: "shape t \<noteq> []" using assms by auto
  then have "0 < ?n" by simp
  then have "[0..<?n] = 0 # [Suc 0..<?n]" by (rule upt_conv_Cons)
  then have f: "filter (\<lambda>a. a \<noteq> 0) [0..<?n] = [Suc 0..<?n]"
    by (simp add: filter_id_conv)
  have t: "take mode [Suc 0..<?n] = [Suc 0..<Suc mode]" using assms by (simp add: take_upt)
  have d: "drop mode [Suc 0..<?n] = [Suc mode..<?n]" by (simp add: drop_upt)
  have "moveaxis t 0 mode = Inr (np_transpose t
      (take mode (filter (\<lambda>a. a \<noteq> 0) [0..<?n]) @ [0] @
       drop mode (filter (\<lambda>a. a \<noteq> 0) [0..<?n])))"
    unfolding moveaxis_def Let_def using assms ne by (simp del: neq0_conv)
  also have "\<dots> = Inr (np_transpose t (fold_order ?n mode))"
    unfolding f t d fold_order_def by simp
  finally show ?thesis .
qed

lemma np_transpose_shape: "shape (np_transpose t order) = map (\<lambda>a. shape t ! a) order"
  by (simp add: np_transpose_def Let_def)

lemma np_transpose_length:
  "length (flat (np_transpose t order)) = prod_list (map (\<lambda>a. shape t ! a) order)"
  by (simp add: np_transpose_def Let_def)

lemma ten2mat_Inr:
  assumes m: "mode < length (shape T)" and nz: "shape T ! mode \<noteq> 0"
  shows "ten2mat T mode =
    Inr \<lparr>shape = [shape T ! mode,
                   length (flat (np_transpose T (unfold_order (length (shape T)) mode)))
                     div (shape T ! mode)],
         flat = flat (np_transpose T (unfold_order (length (shape T)) mode))\<rparr>"
proof -
  let ?t1 = "np_transpose T (unfold_order (length (shape T)) mode)"
  have "length (flat ?t1) mod (shape T ! mode) = 0"
    by (simp add: np_transpose_length unfold_order_def)
  with nz show ?thesis
    by (simp add: ten2mat_def moveaxis_to_front [OF m] reshape_infer_def)
qed

text \<open>
  Claim C9, amended.  For every tensor \<open>T\<close> and every axis \<open>mode\<close> of it along which \<open>T\<close>
  is not empty, folding the unfolding restores the tensor exactly:
  \<open>mat2ten(ten2mat(T, mode), shape(T), mode) = T\<close>.  A tensor is a shape with as many
  entries as the product of the shape.
\<close>

theorem fold_unfold_round_trip:
  assumes wf: "wf_tensor T" and m: "mode < length (shape T)" and nz: "shape T ! mode \<noteq> 0"
  shows "bindE (ten2mat T mode) (\<lambda>M. mat2ten M (shape T) mode) = Inr T"
proof -
  let ?n = "length (shape T)"
  let ?o1 = "unfold_order ?n mode"
  let ?t1 = "np_transpose T ?o1"
  let ?M = "\<lparr>shape = [shape T ! mode, length (flat ?t1) div (shape T ! mode)],
            flat = flat ?t1\<rparr>"
  have idx: "mode # filter (\<lambda>i. i \<noteq> mode) [0..<?n] = ?o1"
    using m by (simp add: filter_neq_upt unfold_order_def)
  have t1: "\<lparr>shape = map (\<lambda>i. shape T ! i) ?o1, flat = flat ?t1\<rparr> = ?t1"
    by (simp add: np_transpose_shape)
  have "reshape ?M (map (\<lambda>i. shape T ! i) ?o1) = Inr ?t1"
    unfolding reshape_def using t1 by (simp add: np_transpose_length)
  then have "mat2ten ?M (shape T) mode = moveaxis ?t1 0 mode"
    unfolding mat2ten_def Let_def idx using m by simp
  also have "\<dots> = Inr (np_transpose ?t1 (fold_order ?n mode))"
    using moveaxis_from_front [of mode ?t1] m
    by (simp add: np_transpose_shape length_unfold_order)
  also have "np_transpose ?t1 (fold_order ?n mode) = T"
    by (rule transpose_twice [OF wf unfold_order_perm [OF m] fold_order_perm [OF m]
          fold_unfold_order [OF m]])
  finally show ?thesis by (simp add: ten2mat_Inr [OF m nz])
qed

text \<open>A tensor of shape \<open>(2, 3)\<close>, unfolded and folded along its second axis.\<close>

theorem fold_unfold_round_trip_witness:
  "wf_tensor ex_ten \<and> 1 < length (shape ex_ten) \<and> shape ex_ten ! 1 \<noteq> 0
   \<and> bindE (ten2mat ex_ten 1) (\<lambda>M. mat2ten M (shape ex_ten) 1) = Inr ex_ten"
  using fold_unfold_round_trip [of ex_ten 1] by (simp add: ex_ten_def wf_tensor_def)

lemma ex_ten_unfolded:
  "ten2mat ex_ten 1 = Inr \<lparr>shape = [3, 2], flat = [1, 3, 5, 2, 4, 6]\<rparr>"
  by code_simp

text \<open>
  Claim C9 as stated fails for a tensor of shape \<open>(0, 3)\<close> and its first axis, which is a
  valid axis: \<open>ten2mat\<close> asks \<open>np.reshape\<close> for the shape \<open>(0, -1)\<close>, the unknown length
  cannot be inferred, and the call raises \<open>ValueError\<close> instead of returning a matrix to
  fold.
\<close>

theorem unfold_empty_mode_counterexample:
  "wf_tensor ex_empty_ten \<and> 0 < length (shape ex_empty_ten)
   \<and> bindE (ten2mat ex_empty_ten 0) (\<lambda>M. mat2ten M (shape ex_empty_ten) 0) = Inl ValueError"
  by code_simp

section \<open>Singular value thresholding: the paths of svt_tnn\<close>

lemma sum_list_upt_sum: "sum_list (map f [0..<k]) = sum f {..<k}"
  by (simp add: interv_sum_list_conv_sum_set_nat atLeast0LessThan)

lemma sum_delta_lessThan:
  fixes a k :: nat
  shows "a < k \<Longrightarrow> (\<Sum>b<k. f b * (if a = b then 1 else 0)) = (f a :: real)"
proof -
  assume a: "a < k"
  have "(\<Sum>b<k. f b * (if a = b then 1 else 0)) = (\<Sum>b\<in>{..<k}. if a = b then f b else 0)"
    by (intro sum.cong refl) simp
  also have "\<dots> = f a" using a by (simp only: sum.delta' finite_lessThan lessThan_iff if_True)
  finally show ?thesis .
qed

lemma sum_delta_lessThan':
  fixes a k :: nat
  shows "a < k \<Longrightarrow> (\<Sum>b<k. f b * (if b = a then 1 else 0)) = (f a :: real)"
proof -
  assume a: "a < k"
  have "(\<Sum>b<k. f b * (if b = a then 1 else 0)) = (\<Sum>b\<in>{..<k}. if b = a then f b else 0)"
    by (intro sum.cong refl) simp
  also have "\<dots> = f a" using a by (simp only: sum.delta finite_lessThan lessThan_iff if_True)
  finally show ?thesis .
qed

lemma sum_of_products:
  fixes f f' :: "nat \<Rightarrow> real"
  shows "(\<Sum>j\<in>S. (\<Sum>a\<in>T. f a * g a j) * (\<Sum>b\<in>T'. f' b * g' b j))
       = (\<Sum>a\<in>T. \<Sum>b\<in>T'. f a * f' b * (\<Sum>j\<in>S. g a j * g' b j))"
proof -
  have "(\<Sum>j\<in>S. (\<Sum>a\<in>T. f a * g a j) * (\<Sum>b\<in>T'. f' b * g' b j))
      = (\<Sum>j\<in>S. \<Sum>a\<in>T. \<Sum>b\<in>T'. f a * f' b * (g a j * g' b j))"
    by (simp add: sum_product mult_ac)
  also have "\<dots> = (\<Sum>a\<in>T. \<Sum>j\<in>S. \<Sum>b\<in>T'. f a * f' b * (g a j * g' b j))"
    by (rule sum.swap)
  also have "\<dots> = (\<Sum>a\<in>T. \<Sum>b\<in>T'. \<Sum>j\<in>S. f a * f' b * (g a j * g' b j))"
    by (rule sum.cong [OF refl]) (rule sum.swap)
  finally show ?thesis by (simp add: sum_distrib_left)
qed

text \<open>
  When \<open>X = A @ diag(d) @ B\<close> and the rows of \<open>B\<close> are orthonormal,
  \<open>X @ X.T = A @ diag(d * d) @ A.T\<close>.
\<close>

lemma gram_of_factorisation:
  fixes X A B :: "nat \<Rightarrow> nat \<Rightarrow> real" and p q k :: nat
  assumes X: "\<And>i j. i < p \<Longrightarrow> j < q \<Longrightarrow> X i j = (\<Sum>a<k. A i a * d a * B a j)"
    and B: "\<And>a b. a < k \<Longrightarrow> b < k \<Longrightarrow> (\<Sum>j<q. B a j * B b j) = (if a = b then 1 else 0)"
    and i: "i < p" "i' < p"
  shows "(\<Sum>j<q. X i j * X i' j) = (\<Sum>a<k. A i a * (d a * d a) * A i' a)"
proof -
  have "(\<Sum>j<q. X i j * X i' j)
      = (\<Sum>j<q. (\<Sum>a<k. (A i a * d a) * B a j) * (\<Sum>b<k. (A i' b * d b) * B b j))"
    using i by (intro sum.cong refl) (simp add: X)
  also have "\<dots> = (\<Sum>a<k. \<Sum>b<k. (A i a * d a) * (A i' b * d b) * (\<Sum>j<q. B a j * B b j))"
    by (rule sum_of_products [where f = "\<lambda>a. A i a * d a" and f' = "\<lambda>b. A i' b * d b"
          and g = B and g' = B])
  also have "\<dots> = (\<Sum>a<k. \<Sum>b<k. (A i a * d a) * (A i' b * d b) * (if a = b then 1 else 0))"
    by (intro sum.cong refl) (simp add: B)
  also have "\<dots> = (\<Sum>a<k. (A i a * d a) * (A i' a * d a))"
    by (intro sum.cong refl) (simp add: sum_delta_lessThan)
  also have "\<dots> = (\<Sum>a<k. A i a * (d a * d a) * A i' a)"
    by (intro sum.cong refl) (simp add: mult_ac)
  finally show ?thesis .
qed

lemma orthonormal_colsD:
  "orthonormal_cols p k U \<Longrightarrow> a < k \<Longrightarrow> b < k \<Longrightarrow>
     (\<Sum>r<p. U r a * U r b) = (if a = b then 1 else 0)"
  by (simp add: orthonormal_cols_def)

lemma orthogonal_rowsD:
  "orthogonal m U \<Longrightarrow> i < m \<Longrightarrow> j < m \<Longrightarrow>
     (\<Sum>a<m. U i a * U j a) = (if i = j then 1 else 0)"
  by (simp add: orthogonal_def orthonormal_cols_def)

lemma overlap_sym: "overlap m U' U b a = overlap m U U' a b"
  by (simp add: overlap_def mult.commute)

lemma sum_pull_left:
  fixes f :: "nat \<Rightarrow> real"
  shows "(\<Sum>b\<in>S. (\<Sum>r\<in>T. f r * g r b) * h b) = (\<Sum>r\<in>T. f r * (\<Sum>b\<in>S. g r b * h b))"
proof -
  have "(\<Sum>b\<in>S. (\<Sum>r\<in>T. f r * g r b) * h b) = (\<Sum>b\<in>S. \<Sum>r\<in>T. f r * (g r b * h b))"
    by (intro sum.cong refl) (simp add: sum_distrib_right mult.assoc)
  also have "\<dots> = (\<Sum>r\<in>T. \<Sum>b\<in>S. f r * (g r b * h b))" by (rule sum.swap)
  finally show ?thesis by (simp add: sum_distrib_left)
qed

lemma overlap_expand:
  assumes o: "orthogonal m U'" and a: "a < m" and j: "j < m"
  shows "(\<Sum>b<m. overlap m U U' a b * U' j b) = U j a"
proof -
  have "(\<Sum>b<m. overlap m U U' a b * U' j b)
      = (\<Sum>r<m. U r a * (\<Sum>b<m. U' r b * U' j b))"
    unfolding overlap_def by (rule sum_pull_left)
  also have "\<dots> = (\<Sum>r<m. U r a * (if r = j then 1 else 0))"
    using j by (intro sum.cong refl) (simp add: orthogonal_rowsD [OF o])
  also have "\<dots> = U j a" by (rule sum_delta_lessThan' [OF j])
  finally show ?thesis .
qed

lemma overlap_rows:
  assumes c: "orthonormal_cols m m U" and o: "orthogonal m U'" and a: "a < m" and a': "a' < m"
  shows "(\<Sum>b<m. overlap m U U' a b * overlap m U U' a' b) = (if a = a' then 1 else 0)"
proof -
  have "(\<Sum>b<m. overlap m U U' a b * overlap m U U' a' b)
      = (\<Sum>b<m. (\<Sum>r<m. U r a' * U' r b) * overlap m U U' a b)"
    by (simp add: overlap_def mult.commute)
  also have "\<dots> = (\<Sum>r<m. U r a' * (\<Sum>b<m. U' r b * overlap m U U' a b))"
    by (rule sum_pull_left)
  also have "\<dots> = (\<Sum>r<m. U r a' * U r a)"
    using overlap_expand [OF o a] by (intro sum.cong refl) (simp add: mult.commute)
  also have "\<dots> = (if a = a' then 1 else 0)"
    using orthonormal_colsD [OF c a' a] by (simp add: eq_commute)
  finally show ?thesis .
qed

lemma overlap_intertwines:
  assumes cU: "orthonormal_cols m m U" and cU': "orthonormal_cols m m U'"
    and H: "\<And>i j. i < m \<Longrightarrow> j < m \<Longrightarrow>
              (\<Sum>c<m. U i c * e c * U j c) = (\<Sum>c<m. U' i c * e' c * U' j c)"
    and a: "a < m" and b: "b < m"
  shows "e a * overlap m U U' a b = overlap m U U' a b * e' b"
proof -
  let ?P = "overlap m U U'"
  have left: "(\<Sum>j<m. (\<Sum>i<m. U i a * (\<Sum>c<m. U i c * e c * U j c)) * U' j b) = e a * ?P a b"
  proof -
    have in1: "(\<Sum>i<m. U i a * (\<Sum>c<m. U i c * e c * U j c)) = e a * U j a" for j
    proof -
      have "(\<Sum>i<m. U i a * (\<Sum>c<m. U i c * e c * U j c))
          = (\<Sum>i<m. (\<Sum>c<m. (e c * U j c) * U i c) * U i a)"
        by (simp add: mult_ac)
      also have "\<dots> = (\<Sum>c<m. (e c * U j c) * (\<Sum>i<m. U i c * U i a))"
        by (rule sum_pull_left)
      also have "\<dots> = (\<Sum>c<m. (e c * U j c) * (if c = a then 1 else 0))"
        using a by (intro sum.cong refl) (simp add: orthonormal_colsD [OF cU])
      also have "\<dots> = e a * U j a" by (rule sum_delta_lessThan' [OF a])
      finally show ?thesis .
    qed
    show ?thesis
      by (simp only: in1) (simp add: overlap_def sum_distrib_left mult.assoc)
  qed
  have right: "(\<Sum>j<m. (\<Sum>i<m. U i a * (\<Sum>c<m. U' i c * e' c * U' j c)) * U' j b) = ?P a b * e' b"
  proof -
    have in1: "(\<Sum>i<m. U i a * (\<Sum>c<m. U' i c * e' c * U' j c))
             = (\<Sum>c<m. ?P a c * e' c * U' j c)" for j
    proof -
      have "(\<Sum>i<m. U i a * (\<Sum>c<m. U' i c * e' c * U' j c))
          = (\<Sum>i<m. (\<Sum>c<m. (e' c * U' j c) * U' i c) * U i a)"
        by (simp add: mult_ac)
      also have "\<dots> = (\<Sum>c<m. (e' c * U' j c) * (\<Sum>i<m. U' i c * U i a))"
        by (rule sum_pull_left)
      finally show ?thesis by (simp add: overlap_def mult_ac)
    qed
    have "(\<Sum>j<m. (\<Sum>c<m. ?P a c * e' c * U' j c) * U' j b)
        = (\<Sum>c<m. (?P a c * e' c) * (\<Sum>j<m. U' j c * U' j b))"
      by (rule sum_pull_left)
    also have "\<dots> = (\<Sum>c<m. (?P a c * e' c) * (if c = b then 1 else 0))"
      using b by (intro sum.cong refl) (simp add: orthonormal_colsD [OF cU'])
    also have "\<dots> = ?P a b * e' b" by (rule sum_delta_lessThan' [OF b])
    finally show ?thesis by (simp only: in1)
  qed
  have "(\<Sum>j<m. (\<Sum>i<m. U i a * (\<Sum>c<m. U i c * e c * U j c)) * U' j b)
      = (\<Sum>j<m. (\<Sum>i<m. U i a * (\<Sum>c<m. U' i c * e' c * U' j c)) * U' j b)"
  proof (rule sum.cong [OF refl])
    fix j assume "j \<in> {..<m}"
    then have j: "j < m" by simp
    have "(\<Sum>i<m. U i a * (\<Sum>c<m. U i c * e c * U j c))
        = (\<Sum>i<m. U i a * (\<Sum>c<m. U' i c * e' c * U' j c))"
      by (rule sum.cong [OF refl]) (simp add: H j)
    then show "(\<Sum>i<m. U i a * (\<Sum>c<m. U i c * e c * U j c)) * U' j b
        = (\<Sum>i<m. U i a * (\<Sum>c<m. U' i c * e' c * U' j c)) * U' j b"
      by (rule arg_cong)
  qed
  then show ?thesis by (simp only: left right)
qed

lemma overlap_counts:
  fixes P :: "nat \<Rightarrow> nat \<Rightarrow> real"
  assumes rows: "\<And>a. a < m \<Longrightarrow> (\<Sum>b<m. P a b * P a b) = 1"
    and cols: "\<And>b. b < m \<Longrightarrow> (\<Sum>a<m. P a b * P a b) = 1"
    and link: "\<And>a b. a < m \<Longrightarrow> b < m \<Longrightarrow> P a b \<noteq> 0 \<Longrightarrow> (Q a \<longleftrightarrow> Q' b)"
  shows "card {a. a < m \<and> Q a} = card {b. b < m \<and> Q' b}"
proof -
  let ?A = "{a. a < m \<and> Q a}" and ?B = "{b. b < m \<and> Q' b}"
  have fA: "finite ?A" and fB: "finite ?B" by simp_all
  have "real (card ?A) = (\<Sum>a\<in>?A. 1)" by simp
  also have "\<dots> = (\<Sum>a\<in>?A. \<Sum>b<m. P a b * P a b)"
    by (intro sum.cong refl) (simp add: rows)
  also have "\<dots> = (\<Sum>a\<in>?A. \<Sum>b\<in>?B. P a b * P a b)"
  proof (rule sum.cong [OF refl])
    fix a assume a: "a \<in> ?A"
    show "(\<Sum>b<m. P a b * P a b) = (\<Sum>b\<in>?B. P a b * P a b)"
    proof (rule sum.mono_neutral_right)
      show "\<forall>b\<in>{..<m} - ?B. P a b * P a b = 0"
        using a link [of a] by auto
    qed auto
  qed
  also have "\<dots> = (\<Sum>b\<in>?B. \<Sum>a\<in>?A. P a b * P a b)" by (rule sum.swap)
  also have "\<dots> = (\<Sum>b\<in>?B. \<Sum>a<m. P a b * P a b)"
  proof (rule sum.cong [OF refl])
    fix b assume b: "b \<in> ?B"
    show "(\<Sum>a\<in>?A. P a b * P a b) = (\<Sum>a<m. P a b * P a b)"
    proof (rule sum.mono_neutral_left)
      show "\<forall>a\<in>{..<m} - ?A. P a b * P a b = 0"
        using b link [of _ b] by auto
    qed auto
  qed
  also have "\<dots> = (\<Sum>b\<in>?B. 1)"
    by (intro sum.cong refl) (simp add: cols)
  also have "\<dots> = real (card ?B)" by simp
  finally show ?thesis by simp
qed

lemma descending_filter_prefix:
  fixes s :: "real list"
  assumes "sorted (rev s)" and "a < length s"
  shows "a < length (filter (\<lambda>x. x > c) s) \<longleftrightarrow> s ! a > c"
  using assms
proof (induction s arbitrary: a)
  case Nil
  then show ?case by simp
next
  case (Cons x xs)
  from Cons.prems(1) have sx: "sorted (rev xs)" and le: "\<forall>y\<in>set xs. y \<le> x"
    by (auto simp: sorted_append)
  show ?case
  proof (cases "x > c")
    case True
    show ?thesis
    proof (cases a)
      case 0
      with True show ?thesis by simp
    next
      case (Suc a')
      with Cons.prems have "a' < length xs" by simp
      from Cons.IH [OF sx this] True Suc show ?thesis by simp
    qed
  next
    case False
    with le have "\<forall>y\<in>set xs. \<not> y > c" by fastforce
    then have "filter (\<lambda>x. x > c) xs = []" by (simp add: filter_empty_conv)
    moreover have "\<not> (x # xs) ! a > c"
    proof (cases a)
      case 0
      with False show ?thesis by simp
    next
      case (Suc a')
      with Cons.prems have "xs ! a' \<in> set xs" by simp
      with \<open>\<forall>y\<in>set xs. \<not> y > c\<close> Suc show ?thesis by simp
    qed
    ultimately show ?thesis using False by simp
  qed
qed

lemma length_filter_card:
  "length (filter p xs) = card {i. i < length xs \<and> p (xs ! i)}"
  by (rule length_filter_conv_card)

lemma overlap_transfer:
  assumes oU: "orthogonal m U" and oU': "orthogonal m U'"
    and link: "\<And>a b. a < m \<Longrightarrow> b < m \<Longrightarrow> overlap m U U' a b \<noteq> 0 \<Longrightarrow> w a = w' b"
    and i: "i < m" and j: "j < m"
  shows "(\<Sum>a<m. U i a * w a * U j a) = (\<Sum>b<m. U' i b * w' b * U' j b)"
proof -
  let ?P = "overlap m U U'"
  have comm: "w a * ?P a b = ?P a b * w' b" if "a < m" "b < m" for a b
    using link [OF that] by (cases "?P a b = 0") simp_all
  have "(\<Sum>a<m. U i a * w a * U j a) = (\<Sum>a<m. (U i a * w a) * (\<Sum>b<m. ?P a b * U' j b))"
    using j by (intro sum.cong refl) (simp add: overlap_expand [OF oU'])
  also have "\<dots> = (\<Sum>a<m. \<Sum>b<m. U i a * (w a * ?P a b) * U' j b)"
    by (intro sum.cong refl) (simp add: sum_distrib_left mult.assoc)
  also have "\<dots> = (\<Sum>a<m. \<Sum>b<m. U i a * (?P a b * w' b) * U' j b)"
    by (intro sum.cong refl) (simp add: comm)
  also have "\<dots> = (\<Sum>b<m. \<Sum>a<m. U i a * (?P a b * w' b) * U' j b)" by (rule sum.swap)
  also have "\<dots> = (\<Sum>b<m. (\<Sum>a<m. overlap m U' U b a * U i a) * (w' b * U' j b))"
    by (intro sum.cong refl) (simp add: sum_distrib_left sum_distrib_right overlap_sym mult_ac)
  also have "\<dots> = (\<Sum>b<m. U' i b * (w' b * U' j b))"
    using i by (intro sum.cong refl) (simp add: overlap_expand [OF oU])
  finally show ?thesis by (simp add: mult.assoc)
qed

lemma gram_fn_factorised:
  assumes f: "factorises p k q X A d B"
    and B: "orthonormal_cols q k (\<lambda>j a. B a j)"
    and i: "i < p" "i' < p"
  shows "gram_fn q X i i' = (\<Sum>a<k. A i a * (d ! a * d ! a) * A i' a)"
  unfolding gram_fn_def
  by (rule gram_of_factorisation [where d = "\<lambda>a. d ! a" and B = B and p = p])
     (use f B i in \<open>simp_all add: factorises_def orthonormal_cols_def\<close>)

lemma overlap_links_values:
  assumes oU: "orthogonal m u" and oU': "orthogonal m u'"
    and vv: "orthonormal_cols n m (\<lambda>j a. v a j)"
    and ww: "orthonormal_cols m m (\<lambda>j a. w' a j)"
    and fM: "factorises m m n X u s v"
    and fG: "factorises m m m (gram_fn n X) u' s' w'"
    and ns: "list_all (\<lambda>x. 0 \<le> x) s" "list_all (\<lambda>x. 0 \<le> x) s'"
    and len: "length s = m" "length s' = m"
    and a: "a < m" and b: "b < m" and nz: "overlap m u u' a b \<noteq> 0"
  shows "s ! a = sqrt (s' ! b)"
proof -
  have cU: "orthonormal_cols m m u" and cU': "orthonormal_cols m m u'"
    using oU oU' by (simp_all add: orthogonal_def)
  let ?s2 = "map (\<lambda>x. x * x) s"
  have G1: "gram_fn n X i j = (\<Sum>a<m. u i a * (s ! a * s ! a) * u j a)" if "i < m" "j < m" for i j
    by (rule gram_fn_factorised [OF fM vv that])
  have fG1: "factorises m m m (gram_fn n X) u ?s2 (\<lambda>a j. u j a)"
    unfolding factorises_def using len by (simp add: G1)
  have GG1: "gram_fn m (gram_fn n X) i j
      = (\<Sum>a<m. u i a * (?s2 ! a * ?s2 ! a) * u j a)" if "i < m" "j < m" for i j
    by (rule gram_fn_factorised [OF fG1 _ that]) (use cU in \<open>simp add: orthonormal_cols_def\<close>)
  have GG2: "gram_fn m (gram_fn n X) i j
      = (\<Sum>a<m. u' i a * (s' ! a * s' ! a) * u' j a)" if "i < m" "j < m" for i j
    by (rule gram_fn_factorised [OF fG ww that])
  have "(?s2 ! a * ?s2 ! a) * overlap m u u' a b = overlap m u u' a b * (s' ! b * s' ! b)"
    by (rule overlap_intertwines [OF cU cU' _ a b, where e = "\<lambda>a. ?s2 ! a * ?s2 ! a"
          and e' = "\<lambda>a. s' ! a * s' ! a"]) (simp add: GG1 [symmetric] GG2 [symmetric])
  with nz have e: "?s2 ! a * ?s2 ! a = s' ! b * s' ! b" by simp
  have sa: "0 \<le> s ! a" and sb: "0 \<le> s' ! b"
    using ns len a b by (simp_all add: list_all_length)
  from e a len have "(s ! a * s ! a) * (s ! a * s ! a) = s' ! b * s' ! b" by simp
  then have "(s ! a * s ! a)\<^sup>2 = (s' ! b)\<^sup>2" by (simp add: power2_eq_square)
  then have "s ! a * s ! a = s' ! b"
    using sa sb by (simp add: power2_eq_iff_nonneg)
  then have "sqrt (s' ! b) = sqrt ((s ! a)\<^sup>2)" by (simp add: power2_eq_square)
  with sa show ?thesis by simp
qed

lemma overlap_same_counts:
  assumes oU: "orthogonal m u" and oU': "orthogonal m u'"
    and link: "\<And>a b. a < m \<Longrightarrow> b < m \<Longrightarrow> overlap m u u' a b \<noteq> 0 \<Longrightarrow> s ! a = t ! b"
    and len: "length s = m" "length t = m"
  shows "length (filter (\<lambda>x. x > c) s) = length (filter (\<lambda>x. x > (c::real)) t)"
proof -
  have cU: "orthonormal_cols m m u" and cU': "orthonormal_cols m m u'"
    using oU oU' by (simp_all add: orthogonal_def)
  have rows: "(\<Sum>b<m. overlap m u u' a b * overlap m u u' a b) = 1" if "a < m" for a
    using overlap_rows [OF cU oU' that that] by simp
  have cols: "(\<Sum>a<m. overlap m u u' a b * overlap m u u' a b) = 1" if "b < m" for b
    using overlap_rows [OF cU' oU that that, of ] by (simp add: overlap_sym [of m u' u])
  have "card {a. a < m \<and> s ! a > c} = card {b. b < m \<and> t ! b > c}"
    by (rule overlap_counts [where P = "overlap m u u'", OF rows cols])
       (simp_all add: link)
  then show ?thesis by (simp add: length_filter_conv_card len)
qed

lemma boundary_count:
  fixes s :: "real list"
  assumes sorted: "sorted (rev s)" and th: "0 < theta" "theta < length s"
    and gap: "s ! theta < s ! (theta - 1)"
  shows "length (filter (\<lambda>x. x > s ! theta) s) = theta"
proof -
  let ?L = "length (filter (\<lambda>x. x > s ! theta) s)"
  have "theta - 1 < ?L"
    using descending_filter_prefix [OF sorted, of "theta - 1" "s ! theta"] th gap by simp
  moreover have "\<not> theta < ?L"
    using descending_filter_prefix [OF sorted, of theta "s ! theta"] th by simp
  ultimately show ?thesis using th by linarith
qed

lemma keep_weight_link:
  fixes s t :: "real list"
  assumes counts: "\<And>c. length (filter (\<lambda>x. x > c) s) = length (filter (\<lambda>x. x > c) t)"
    and sorted: "sorted (rev s)" "sorted (rev t)"
    and len: "length s = m" "length t = m"
    and nt: "no_tie tau theta s"
    and a: "a < m" and b: "b < m" and eq: "s ! a = t ! b"
  shows "keep_weight tau theta s a = keep_weight tau theta t b"
proof (cases "s ! a > tau")
  case False
  with eq show ?thesis by (simp add: keep_weight_def)
next
  case True
  have pa: "a < length (filter (\<lambda>x. x > c) s) \<longleftrightarrow> s ! a > c" for c
    using descending_filter_prefix [OF sorted(1)] a len by simp
  have pb: "b < length (filter (\<lambda>x. x > c) s) \<longleftrightarrow> t ! b > c" for c
    using descending_filter_prefix [OF sorted(2), of b c] b len counts [of c] by simp
  have "a < theta \<longleftrightarrow> b < theta"
  proof -
    consider "theta = 0" | "length (filter (\<lambda>x. x > tau) s) \<le> theta"
      | "0 < theta" "theta < length (filter (\<lambda>x. x > tau) s)" "s ! theta < s ! (theta - 1)"
      using nt unfolding no_tie_def by linarith
    then show ?thesis
    proof cases
      case 1
      then show ?thesis by simp
    next
      case 2
      with pa [of tau] pb [of tau] True eq show ?thesis by simp
    next
      case 3
      have "length (filter (\<lambda>x. x > tau) s) \<le> length s" by simp
      with 3 have "theta < length s" by linarith
      from boundary_count [OF sorted(1) 3(1) this 3(3)] pa [of "s ! theta"] pb [of "s ! theta"] eq
      show ?thesis by simp
    qed
  qed
  with eq show ?thesis by (simp add: keep_weight_def)
qed

lemma keep_weight_shrunk:
  "0 \<le> tau \<Longrightarrow> keep_weight tau theta s a * s ! a = shrunk tau theta s a"
  by (auto simp: keep_weight_def shrunk_def)

lemma sorted_rev_map_sqrt:
  assumes "sorted (rev s)" shows "sorted (rev (map sqrt s))"
proof -
  have "sorted (map sqrt (rev s))"
    using assms by (simp add: sorted_map sorted_wrt_mono_rel [of _ "(\<le>)"] )
  then show ?thesis by (simp add: rev_map)
qed

lemma cols_times_factorised:
  assumes cU: "orthonormal_cols m m u" and fM: "factorises m m n X u s v"
    and a: "a < m" and j: "j < n"
  shows "(\<Sum>r<m. u r a * X r j) = s ! a * v a j"
proof -
  have "(\<Sum>r<m. u r a * X r j) = (\<Sum>r<m. (\<Sum>b<m. (s ! b * v b j) * u r b) * u r a)"
    using fM j by (intro sum.cong refl) (simp add: factorises_def mult_ac)
  also have "\<dots> = (\<Sum>b<m. (s ! b * v b j) * (\<Sum>r<m. u r b * u r a))"
    by (rule sum_pull_left)
  also have "\<dots> = (\<Sum>b<m. (s ! b * v b j) * (if b = a then 1 else 0))"
    using a by (intro sum.cong refl) (simp add: orthonormal_colsD [OF cU])
  also have "\<dots> = s ! a * v a j" by (rule sum_delta_lessThan' [OF a])
  finally show ?thesis .
qed

lemma gram_reconstruction:
  assumes oU: "orthogonal m u" and oU': "orthogonal m u'"
    and vv: "orthonormal_cols n m (\<lambda>j a. v a j)"
    and ww: "orthonormal_cols m m (\<lambda>j a. w' a j)"
    and fM: "factorises m m n X u s v"
    and fG: "factorises m m m (gram_fn n X) u' s' w'"
    and ns: "list_all (\<lambda>x. 0 \<le> x) s" "list_all (\<lambda>x. 0 \<le> x) s'"
    and sorted: "sorted (rev s)" "sorted (rev s')"
    and len: "length s = m" "length s' = m"
    and tau: "0 < tau" and nt: "no_tie tau theta s"
    and i: "i < m" and j: "j < n"
  shows "(\<Sum>a<m. u' i a * keep_weight tau theta (map sqrt s') a * (\<Sum>r<m. u' r a * X r j))
       = (\<Sum>a<m. shrunk tau theta s a * u i a * v a j)"
proof -
  let ?t = "map sqrt s'"
  let ?w = "keep_weight tau theta s" and ?w' = "keep_weight tau theta ?t"
  have cU: "orthonormal_cols m m u" using oU by (simp add: orthogonal_def)
  have lt: "length ?t = m" using len by simp
  have vals: "s ! a = ?t ! b" if "a < m" "b < m" "overlap m u u' a b \<noteq> 0" for a b
    using overlap_links_values [OF oU oU' vv ww fM fG ns len that] that(2) len by simp
  have counts: "length (filter (\<lambda>x. x > c) s) = length (filter (\<lambda>x. x > c) ?t)" for c
    by (rule overlap_same_counts [OF oU oU' vals len(1) lt])
  have weights: "?w a = ?w' b" if "a < m" "b < m" "overlap m u u' a b \<noteq> 0" for a b
    by (rule keep_weight_link [OF counts sorted(1) sorted_rev_map_sqrt [OF sorted(2)]
          len(1) lt nt that(1,2) vals [OF that]])
  have transfer: "(\<Sum>a<m. u i a * ?w a * u r a) = (\<Sum>b<m. u' i b * ?w' b * u' r b)"
    if "r < m" for r
    by (rule overlap_transfer [OF oU oU' weights i that])
  have "(\<Sum>a<m. u' i a * ?w' a * (\<Sum>r<m. u' r a * X r j))
      = (\<Sum>a<m. \<Sum>r<m. u' i a * ?w' a * u' r a * X r j)"
    by (intro sum.cong refl) (simp add: sum_distrib_left mult.assoc)
  also have "\<dots> = (\<Sum>r<m. \<Sum>a<m. u' i a * ?w' a * u' r a * X r j)" by (rule sum.swap)
  also have "\<dots> = (\<Sum>r<m. (\<Sum>a<m. u' i a * ?w' a * u' r a) * X r j)"
    by (intro sum.cong refl) (simp add: sum_distrib_right)
  also have "\<dots> = (\<Sum>r<m. (\<Sum>a<m. (u i a * ?w a) * u r a) * X r j)"
    by (intro sum.cong refl) (simp add: transfer)
  also have "\<dots> = (\<Sum>a<m. (u i a * ?w a) * (\<Sum>r<m. u r a * X r j))"
    by (rule sum_pull_left)
  also have "\<dots> = (\<Sum>a<m. (u i a * ?w a) * (s ! a * v a j))"
    using j by (intro sum.cong refl) (simp add: cols_times_factorised [OF cU fM])
  also have "\<dots> = (\<Sum>a<m. shrunk tau theta s a * u i a * v a j)"
    using tau by (intro sum.cong refl)
      (simp add: keep_weight_shrunk [of tau theta s, symmetric] mult_ac)
  finally show ?thesis .
qed

lemma matmul_entries:
  assumes "matmul A B = Inr R"
  shows "ncols A = nrows B" and "nrows R = nrows A" and "ncols R = ncols B" and "wf_array R"
    and "\<And>i j. i < nrows A \<Longrightarrow> j < ncols B \<Longrightarrow>
           entry R i j = (\<Sum>k<ncols A. entry A i k * entry B k j)"
  using matmul_Inr [OF assms] by (simp_all add: sum_list_upt_sum)

lemma matmul_ok:
  "ncols A = nrows B \<Longrightarrow>
   matmul A B = Inr (mk_array (nrows A) (ncols B)
                      (\<lambda>i j. \<Sum>k<ncols A. entry A i k * entry B k j))"
  by (simp add: matmul_def sum_list_upt_sum)

lemma identity_entry: "i < k \<Longrightarrow> j < k \<Longrightarrow> entry (identity k) i j = (if i = j then 1 else 0)"
  by (simp add: identity_def)

lemma identity_shape [simp]: "nrows (identity k) = k" "ncols (identity k) = k"
  by (simp_all add: identity_def)

lemma transposeA_shape [simp]:
  "nrows (transposeA M) = ncols M" "ncols (transposeA M) = nrows M"
  by (simp_all add: transposeA_def)

lemma transposeA_entry [simp]:
  "i < ncols M \<Longrightarrow> j < nrows M \<Longrightarrow> entry (transposeA M) i j = entry M j i"
  by (simp add: transposeA_def)

lemma wf_transposeA [simp]: "wf_array (transposeA M)"
  by (simp add: transposeA_def)

lemma transposeA_twice: "wf_array M \<Longrightarrow> transposeA (transposeA M) = M"
  by (rule array_eqI) simp_all

lemma gram_identity_cols:
  assumes "matmul (transposeA u) u = Inr (identity k)"
  shows "ncols u = k \<and> orthonormal_cols (nrows u) k (entry u)"
proof -
  note e = matmul_entries [OF assms]
  from e(2) have k: "ncols u = k" by simp
  have "(\<Sum>r<nrows u. entry u r a * entry u r b) = (if a = b then 1 else 0)"
    if "a < k" "b < k" for a b
  proof -
    have "entry (identity k) a b = (\<Sum>r<nrows u. entry (transposeA u) a r * entry u r b)"
      using e(5) [of a b] that k by simp
    also have "\<dots> = (\<Sum>r<nrows u. entry u r a * entry u r b)"
      using that k by (intro sum.cong refl) simp
    finally show ?thesis using that by (simp add: identity_entry)
  qed
  with k show ?thesis by (simp add: orthonormal_cols_def)
qed

lemma gram_identity_rows:
  assumes "matmul v (transposeA v) = Inr (identity k)"
  shows "nrows v = k \<and> orthonormal_cols (ncols v) k (\<lambda>j a. entry v a j)"
proof -
  note e = matmul_entries [OF assms]
  from e(2) have k: "nrows v = k" by simp
  have "(\<Sum>r<ncols v. entry v a r * entry v b r) = (if a = b then 1 else 0)"
    if "a < k" "b < k" for a b
  proof -
    have "entry (identity k) a b = (\<Sum>r<ncols v. entry v a r * entry (transposeA v) r b)"
      using e(5) [of a b] that k by simp
    also have "\<dots> = (\<Sum>r<ncols v. entry v a r * entry v b r)"
      using that k by (intro sum.cong refl) simp
    finally show ?thesis using that by (simp add: identity_entry)
  qed
  with k show ?thesis by (simp add: orthonormal_cols_def)
qed

lemma factorisation_entries:
  assumes "bindE (matmul u (np_diag s)) (\<lambda>us. matmul us v) = Inr M"
  shows "wf_array M" and "nrows M = nrows u" and "ncols M = ncols v"
    and "ncols u = length s" and "nrows v = length s"
    and "factorises (nrows u) (length s) (ncols v) (entry M) (entry u) s (entry v)"
proof -
  from assms obtain us where 1: "matmul u (np_diag s) = Inr us" and 2: "matmul us v = Inr M"
    by (auto simp: bindE_eq_Inr)
  note e1 = matmul_entries [OF 1] and e2 = matmul_entries [OF 2]
  have d: "nrows (np_diag s) = length s" "ncols (np_diag s) = length s"
    by (simp_all add: np_diag_def)
  show "wf_array M" by (rule e2(4))
  show "nrows M = nrows u" using e2(2) e1(2) by simp
  show "ncols M = ncols v" by (rule e2(3))
  show cu: "ncols u = length s" using e1(1) d by simp
  show rv: "nrows v = length s" using e2(1) e1(3) d by simp
  have us: "entry us i a = entry u i a * s ! a" if "i < nrows u" "a < length s" for i a
  proof -
    have "entry us i a = (\<Sum>k<length s. entry u i k * entry (np_diag s) k a)"
      using e1(5) [of i a] that cu d by simp
    also have "\<dots> = (\<Sum>k<length s. entry u i k * (if k = a then s ! k else 0))"
      using that by (intro sum.cong refl) (simp add: np_diag_def)
    also have "\<dots> = (\<Sum>k<length s. (entry u i k * s ! k) * (if k = a then 1 else 0))"
      by (intro sum.cong refl) simp
    also have "\<dots> = entry u i a * s ! a" by (rule sum_delta_lessThan' [OF that(2)])
    finally show ?thesis .
  qed
  show "factorises (nrows u) (length s) (ncols v) (entry M) (entry u) s (entry v)"
    unfolding factorises_def
  proof (intro allI impI)
    fix i j assume i: "i < nrows u" and j: "j < ncols v"
    have "entry M i j = (\<Sum>a<length s. entry us i a * entry v a j)"
      using e2(5) [of i j] i j e1(2) e1(3) d by simp
    also have "\<dots> = (\<Sum>a<length s. entry u i a * s ! a * entry v a j)"
      using i by (intro sum.cong refl) (simp add: us)
    finally show "entry M i j = (\<Sum>a<length s. entry u i a * s ! a * entry v a j)" .
  qed
qed

lemma assign_slice_weights:
  assumes "length xs = idx" and "idx \<le> length s"
  shows "length (assign_slice theta idx xs (map f (slice theta idx s))) = idx"
    and "\<And>a. a < idx \<Longrightarrow> assign_slice theta idx xs (map f (slice theta idx s)) ! a
           = (if a < theta then xs ! a else f (s ! a))"
proof -
  show "length (assign_slice theta idx xs (map f (slice theta idx s))) = idx"
    using assms by (auto simp: assign_slice_def slice_def min_def max_def)
next
  fix a assume a: "a < idx"
  show "assign_slice theta idx xs (map f (slice theta idx s)) ! a
           = (if a < theta then xs ! a else f (s ! a))"
  proof (cases "a < theta")
    case True
    with a assms show ?thesis by (simp add: assign_slice_def nth_append)
  next
    case False
    then have b: "a - theta < idx - theta" and c: "theta + (a - theta) = a"
      and d: "theta \<le> length s" and l: "length (take theta xs) = theta"
      using a assms by simp_all
    have "length (take (idx - theta) (drop theta s)) = idx - theta"
      using assms d by simp
    with b have "map f (take (idx - theta) (drop theta s)) ! (a - theta)
        = f (drop theta s ! (a - theta))" by simp
    also have "\<dots> = f (s ! a)" using d c by simp
    finally have e: "map f (take (idx - theta) (drop theta s)) ! (a - theta) = f (s ! a)" .
    have "assign_slice theta idx xs (map f (slice theta idx s)) ! a
        = (map f (take (idx - theta) (drop theta s)) @ drop (max theta idx) xs) ! (a - theta)"
      using False l by (simp add: assign_slice_def slice_def nth_append)
    also have "\<dots> = f (s ! a)"
      using b e \<open>length (take (idx - theta) (drop theta s)) = idx - theta\<close>
      by (simp add: nth_append)
    finally show ?thesis using False by simp
  qed
qed

lemma fill_ones:
  "length (fill_slice 0 theta (replicate idx (0::real)) 1) = idx"
  "a < idx \<Longrightarrow> fill_slice 0 theta (replicate idx (0::real)) 1 ! a = (if a < theta then 1 else 0)"
  by (auto simp: fill_slice_def assign_slice_def slice_def nth_append min_def max_def)

lemma sum_times_diag:
  assumes "a < n" and "length d = n"
  shows "(\<Sum>k<n. f k * entry (np_diag d) k a) = f a * d ! a"
proof -
  have "(\<Sum>k<n. f k * entry (np_diag d) k a) = (\<Sum>k<n. (f k * d ! k) * (if k = a then 1 else 0))"
    using assms by (intro sum.cong refl) (simp add: np_diag_def)
  also have "\<dots> = f a * d ! a" by (rule sum_delta_lessThan' [OF assms(1)])
  finally show ?thesis .
qed

lemma np_diag_shape [simp]: "nrows (np_diag d) = length d" "ncols (np_diag d) = length d"
  by (simp_all add: np_diag_def)

lemma cols_upto_shape [simp]:
  "nrows (cols_upto idx u) = nrows u" "ncols (cols_upto idx u) = min idx (ncols u)"
  by (simp_all add: cols_upto_def)

lemma rows_upto_shape [simp]:
  "nrows (rows_upto idx v) = min idx (nrows v)" "ncols (rows_upto idx v) = ncols v"
  by (simp_all add: rows_upto_def)

lemma cols_upto_entry [simp]:
  "i < nrows u \<Longrightarrow> a < idx \<Longrightarrow> a < ncols u \<Longrightarrow> entry (cols_upto idx u) i a = entry u i a"
  by (simp add: cols_upto_def)

lemma rows_upto_entry [simp]:
  "a < idx \<Longrightarrow> a < nrows v \<Longrightarrow> j < ncols v \<Longrightarrow> entry (rows_upto idx v) a j = entry v a j"
  by (simp add: rows_upto_def)

lemma shrunk_beyond:
  assumes "sorted (rev s)" and "a < length s" and "\<not> a < length (filter (\<lambda>x. x > tau) s)"
  shows "shrunk tau theta s a = 0"
  using descending_filter_prefix [OF assms(1,2), of tau] assms(3) by (simp add: shrunk_def)

lemma direct_part_is_spec:
  assumes cu: "ncols u = length s" and rv: "nrows v = length s" and sorted: "sorted (rev s)"
  shows "svt_direct_part tau theta (u, s, v) = Inr (svt_spec tau theta (u, s, v))"
proof -
  let ?idx = "length (filter (\<lambda>x. x > tau) s)"
  let ?vec = "assign_slice theta ?idx (take ?idx s) (map (\<lambda>x. x - tau) (slice theta ?idx s))"
  have le: "?idx \<le> length s" by simp
  have lt: "length (take ?idx s) = ?idx" by simp
  note w = assign_slice_weights [OF lt le, where theta = theta and f = "\<lambda>x. x - tau"]
  let ?uv = "mk_array (nrows u) ?idx
      (\<lambda>i a. \<Sum>k<?idx. entry (cols_upto ?idx u) i k * entry (np_diag ?vec) k a)"
  have 1: "matmul (cols_upto ?idx u) (np_diag ?vec) = Inr ?uv"
    using matmul_ok [of "cols_upto ?idx u" "np_diag ?vec"] w(1) cu by (simp add: min_absorb1)
  have 2: "matmul ?uv (rows_upto ?idx v)
      = Inr (mk_array (nrows u) (ncols v)
               (\<lambda>i j. \<Sum>a<?idx. entry ?uv i a * entry (rows_upto ?idx v) a j))"
    using matmul_ok [of ?uv "rows_upto ?idx v"] rv by (simp add: min_absorb1)
  have 3: "mk_array (nrows u) (ncols v)
               (\<lambda>i j. \<Sum>a<?idx. entry ?uv i a * entry (rows_upto ?idx v) a j)
         = svt_spec tau theta (u, s, v)"
    unfolding svt_spec_def prod.case sum_list_upt_sum
  proof (rule mk_array_cong)
    fix i j assume i: "i < nrows u" and j: "j < ncols v"
    have "(\<Sum>a<?idx. entry ?uv i a * entry (rows_upto ?idx v) a j)
        = (\<Sum>a<?idx. shrunk tau theta s a * entry u i a * entry v a j)"
    proof (rule sum.cong [OF refl])
      fix a assume "a \<in> {..<?idx}"
      then have a: "a < ?idx" by simp
      with le have al: "a < length s" by linarith
      have gt: "s ! a > tau"
        using descending_filter_prefix [OF sorted al, of tau] a by simp
      have "entry ?uv i a = (\<Sum>k<?idx. entry (cols_upto ?idx u) i k * entry (np_diag ?vec) k a)"
        using i a by simp
      also have "\<dots> = entry (cols_upto ?idx u) i a * ?vec ! a"
        by (rule sum_times_diag [OF a w(1)])
      also have "\<dots> = entry u i a * shrunk tau theta s a"
        using i a al cu gt by (simp add: w(2) shrunk_def)
      finally show "entry ?uv i a * entry (rows_upto ?idx v) a j
          = shrunk tau theta s a * entry u i a * entry v a j"
        using a al rv j by (simp add: mult.commute)
    qed
    also have "\<dots> = (\<Sum>a<length s. shrunk tau theta s a * entry u i a * entry v a j)"
    proof (rule sum.mono_neutral_left)
      show "\<forall>a\<in>{..<length s} - {..<?idx}. shrunk tau theta s a * entry u i a * entry v a j = 0"
        using shrunk_beyond [OF sorted] by auto
    qed (use le in auto)
    finally show "(\<Sum>a<?idx. entry ?uv i a * entry (rows_upto ?idx v) a j)
        = (\<Sum>a<length s. shrunk tau theta s a * entry u i a * entry v a j)" .
  qed
  show ?thesis
    unfolding svt_direct_part_def prod.case Let_def by (simp only: 1 2 3 bindE_Inr)
qed

lemma keep_weight_beyond:
  assumes "sorted (rev s)" and "a < length s" and "\<not> a < length (filter (\<lambda>x. x > tau) s)"
  shows "keep_weight tau theta s a = 0"
  using descending_filter_prefix [OF assms(1,2), of tau] assms(3) by (simp add: keep_weight_def)

lemma gram_part_entries:
  assumes ru: "nrows u' = nrows N" and cu: "ncols u' = length s'"
    and ns: "list_all (\<lambda>x. 0 \<le> x) s'" and sorted: "sorted (rev s')" and tau: "0 \<le> tau"
  shows "svt_gram_part N tau theta (u', s', w') =
    Inr (mk_array (nrows N) (ncols N)
          (\<lambda>i j. \<Sum>a<length s'. entry u' i a * keep_weight tau theta (map sqrt s') a *
                     (\<Sum>r<nrows N. entry u' r a * entry N r j)))"
proof -
  define s where "s = map sqrt s'"
  define idx where "idx = length (filter (\<lambda>x. x > tau) s)"
  have ls: "length s = length s'" by (simp add: s_def)
  let ?mid0 = "fill_slice 0 theta (replicate idx (0::real)) 1"
  let ?mid = "assign_slice theta idx ?mid0 (map (\<lambda>x. (x - tau) / x) (slice theta idx s))"
  let ?cu = "cols_upto idx u'"
  have neg: "\<not> (\<exists>x\<in>set s'. x < 0)" using ns by (auto simp: list_all_iff)
  have srt: "sorted (rev s)" unfolding s_def by (rule sorted_rev_map_sqrt [OF sorted])
  have le: "idx \<le> length s" unfolding idx_def by (rule length_filter_le)
  have le': "idx \<le> length s'" using le ls by simp
  have gt: "s ! a > tau" if "a < idx" for a
  proof -
    from that le have "a < length s" by linarith
    from descending_filter_prefix [OF srt this, of tau] that show ?thesis by (simp add: idx_def)
  qed
  have nz: "0 \<notin> set (slice theta idx s)"
  proof
    assume "0 \<in> set (slice theta idx s)"
    then obtain k where k: "k < length (slice theta idx s)" and z: "slice theta idx s ! k = 0"
      by (auto simp: in_set_conv_nth)
    from k have k1: "k < idx - theta" by (simp add: slice_def)
    with le have k2: "theta + k < length s" by linarith
    with k1 have "slice theta idx s ! k = s ! (theta + k)"
      unfolding slice_def by simp
    moreover have "s ! (theta + k) > tau" using k1 by (intro gt) simp
    ultimately show False using z tau by simp
  qed
  note w = assign_slice_weights [OF fill_ones(1) le, where theta = theta
      and f = "\<lambda>x. (x - tau) / x"]
  have mid: "?mid ! a = keep_weight tau theta s a" if "a < idx" for a
    using w(2) [OF that] gt [OF that] that by (simp add: fill_ones(2) keep_weight_def)
  let ?left = "mk_array (nrows u') idx (\<lambda>i a. \<Sum>k<idx. entry ?cu i k * entry (np_diag ?mid) k a)"
  let ?right = "mk_array idx (ncols N)
      (\<lambda>a j. \<Sum>r<nrows u'. entry (transposeA ?cu) a r * entry N r j)"
  have cc: "ncols ?cu = idx" using cu le' by (simp add: min_absorb1)
  have 1: "matmul ?cu (np_diag ?mid) = Inr ?left"
    using matmul_ok [of ?cu "np_diag ?mid"] w(1) cc by simp
  have 2: "matmul (transposeA ?cu) N = Inr ?right"
    using matmul_ok [of "transposeA ?cu" N] ru cc by simp
  have 3: "matmul ?left ?right = Inr (mk_array (nrows N) (ncols N)
      (\<lambda>i j. \<Sum>a<idx. entry ?left i a * entry ?right a j))"
    using matmul_ok [of ?left ?right] ru by simp
  have 4: "mk_array (nrows N) (ncols N) (\<lambda>i j. \<Sum>a<idx. entry ?left i a * entry ?right a j)
      = mk_array (nrows N) (ncols N)
          (\<lambda>i j. \<Sum>a<length s'. entry u' i a * keep_weight tau theta s a *
                     (\<Sum>r<nrows N. entry u' r a * entry N r j))"
  proof (rule mk_array_cong)
    fix i j assume i: "i < nrows N" and j: "j < ncols N"
    have "(\<Sum>a<idx. entry ?left i a * entry ?right a j)
        = (\<Sum>a<idx. entry u' i a * keep_weight tau theta s a *
                     (\<Sum>r<nrows N. entry u' r a * entry N r j))"
    proof (rule sum.cong [OF refl])
      fix a assume "a \<in> {..<idx}"
      then have a: "a < idx" by simp
      with le' cu have au: "a < ncols u'" by linarith
      have "entry ?left i a = (\<Sum>k<idx. entry ?cu i k * entry (np_diag ?mid) k a)"
        using i a ru by simp
      also have "\<dots> = entry ?cu i a * ?mid ! a" by (rule sum_times_diag [OF a w(1)])
      also have "\<dots> = entry u' i a * keep_weight tau theta s a"
        using i a au ru by (simp only: mid) simp
      finally have l: "entry ?left i a = entry u' i a * keep_weight tau theta s a" .
      have "entry ?right a j = (\<Sum>r<nrows u'. entry (transposeA ?cu) a r * entry N r j)"
        using a j by simp
      also have "\<dots> = (\<Sum>r<nrows N. entry u' r a * entry N r j)"
        unfolding ru using a au cc ru by (intro sum.cong refl) simp
      finally show "entry ?left i a * entry ?right a j
          = entry u' i a * keep_weight tau theta s a *
              (\<Sum>r<nrows N. entry u' r a * entry N r j)"
        by (simp only: l)
    qed
    also have "\<dots> = (\<Sum>a<length s'. entry u' i a * keep_weight tau theta s a *
                     (\<Sum>r<nrows N. entry u' r a * entry N r j))"
    proof (rule sum.mono_neutral_left)
      show "\<forall>a\<in>{..<length s'} - {..<idx}. entry u' i a * keep_weight tau theta s a *
                     (\<Sum>r<nrows N. entry u' r a * entry N r j) = 0"
        using keep_weight_beyond [OF srt, of _ tau theta] ls by (auto simp: idx_def)
    qed (use le' in auto)
    finally show "(\<Sum>a<idx. entry ?left i a * entry ?right a j)
        = (\<Sum>a<length s'. entry u' i a * keep_weight tau theta s a *
                     (\<Sum>r<nrows N. entry u' r a * entry N r j))" .
  qed
  show ?thesis
    unfolding svt_gram_part_def prod.case Let_def s_def [symmetric] idx_def [symmetric]
    by (simp only: neg nz if_False 1 2 3 4 bindE_Inr)
qed

lemma is_svd_facts:
  assumes "is_svd M (u, s, v)"
  defines "k \<equiv> min (nrows M) (ncols M)"
  shows "wf_array M" and "wf_array u" and "wf_array v"
    and "nrows u = nrows M" and "ncols u = k" and "length s = k"
    and "nrows v = k" and "ncols v = ncols M"
    and "list_all (\<lambda>x. 0 \<le> x) s" and "sorted (rev s)"
    and "orthonormal_cols (nrows M) k (entry u)"
    and "orthonormal_cols (ncols M) k (\<lambda>j a. entry v a j)"
    and "factorises (nrows M) k (ncols M) (entry M) (entry u) s (entry v)"
    and "nrows M \<le> ncols M \<Longrightarrow> orthogonal (nrows M) (entry u)"
    and "ncols M \<le> nrows M \<Longrightarrow> orthogonal (ncols M) (\<lambda>i a. entry v a i)"
proof -
  from assms have a: "wf_array u" "wf_array v" "nrows u = nrows M" "ncols u = k"
    "length s = k" "nrows v = k" "ncols v = ncols M" "list_all (\<lambda>x. 0 \<le> x) s" "sorted (rev s)"
    and uu: "matmul (transposeA u) u = Inr (identity k)"
    and vv: "matmul v (transposeA v) = Inr (identity k)"
    and uu2: "nrows u = k \<longrightarrow> matmul u (transposeA u) = Inr (identity k)"
    and vv2: "ncols v = k \<longrightarrow> matmul (transposeA v) v = Inr (identity k)"
    and f: "bindE (matmul u (np_diag s)) (\<lambda>us. matmul us v) = Inr M"
    by (simp_all add: is_svd_def Let_def)
  note fe = factorisation_entries [OF f]
  show "wf_array M" by (rule fe(1))
  show "wf_array u" "wf_array v" "nrows u = nrows M" "ncols u = k" "length s = k"
    "nrows v = k" "ncols v = ncols M" "list_all (\<lambda>x. 0 \<le> x) s" "sorted (rev s)"
    by (rule a)+
  show cu: "orthonormal_cols (nrows M) k (entry u)"
    using gram_identity_cols [OF uu] a(3) by simp
  show rv: "orthonormal_cols (ncols M) k (\<lambda>j a. entry v a j)"
    using gram_identity_rows [OF vv] a(7) by simp
  show "factorises (nrows M) k (ncols M) (entry M) (entry u) s (entry v)"
    using fe(6) a by simp
  show "orthogonal (nrows M) (entry u)" if "nrows M \<le> ncols M"
  proof -
    from that have k: "k = nrows M" by (simp add: k_def)
    with uu2 a(3) have "matmul u (transposeA u) = Inr (identity k)" by simp
    from gram_identity_rows [OF this] a(4) cu k show ?thesis
      by (simp add: orthogonal_def)
  qed
  show "orthogonal (ncols M) (\<lambda>i a. entry v a i)" if "ncols M \<le> nrows M"
  proof -
    from that have k: "k = ncols M" by (simp add: k_def)
    with vv2 a(7) have "matmul (transposeA v) v = Inr (identity k)" by simp
    from gram_identity_cols [OF this] a(6) rv k show ?thesis
      by (simp add: orthogonal_def)
  qed
qed

lemma factorises_cong:
  assumes "factorises p k q X A d B" and "\<And>i j. i < p \<Longrightarrow> j < q \<Longrightarrow> X i j = Y i j"
  shows "factorises p k q Y A d B"
  using assms by (simp add: factorises_def)

lemma gram_entries:
  assumes "matmul N (transposeA N) = Inr G"
  shows "nrows G = nrows N" and "ncols G = nrows N"
    and "\<And>i j. i < nrows N \<Longrightarrow> j < nrows N \<Longrightarrow> entry G i j = gram_fn (ncols N) (entry N) i j"
proof -
  note e = matmul_entries [OF assms]
  show "nrows G = nrows N" "ncols G = nrows N" using e by simp_all
  fix i j assume i: "i < nrows N" and j: "j < nrows N"
  have "entry G i j = (\<Sum>k<ncols N. entry N i k * entry (transposeA N) k j)"
    using e(5) [of i j] i j by simp
  also have "\<dots> = gram_fn (ncols N) (entry N) i j"
    unfolding gram_fn_def using j by (intro sum.cong refl) simp
  finally show "entry G i j = gram_fn (ncols N) (entry N) i j" .
qed

lemma gram_path_is_spec:
  assumes svd: "is_svd N (u, s, v)" and shape: "nrows N \<le> ncols N"
    and G: "matmul N (transposeA N) = Inr G" and svd': "is_svd G (u', s', w')"
    and tau: "0 < tau" and nt: "no_tie tau theta s"
  shows "svt_gram_part N tau theta (u', s', w') = Inr (svt_spec tau theta (u, s, v))"
proof -
  let ?m = "nrows N" and ?n = "ncols N"
  have k: "min ?m ?n = ?m" using shape by simp
  note f = is_svd_facts [OF svd, unfolded k]
  note g = gram_entries [OF G]
  have k': "min (nrows G) (ncols G) = ?m" using g by simp
  have sh': "nrows G \<le> ncols G" using g by simp
  note f' = is_svd_facts [OF svd', unfolded g(1) g(2) min.idem]
  have oU: "orthogonal ?m (entry u)" by (rule f(14) [OF shape])
  have oU': "orthogonal ?m (entry u')" using f'(14) by simp
  have fG: "factorises ?m ?m ?m (gram_fn ?n (entry N)) (entry u') s' (entry w')"
    by (rule factorises_cong [OF f'(13)]) (simp add: g(3))
  have "svt_gram_part N tau theta (u', s', w') =
    Inr (mk_array ?m ?n
          (\<lambda>i j. \<Sum>a<length s'. entry u' i a * keep_weight tau theta (map sqrt s') a *
                     (\<Sum>r<?m. entry u' r a * entry N r j)))"
    by (rule gram_part_entries) (use f' tau in simp_all)
  also have "mk_array ?m ?n
          (\<lambda>i j. \<Sum>a<length s'. entry u' i a * keep_weight tau theta (map sqrt s') a *
                     (\<Sum>r<?m. entry u' r a * entry N r j))
      = svt_spec tau theta (u, s, v)"
    unfolding svt_spec_def prod.case sum_list_upt_sum f(4) f(8) f(6) f'(6)
    by (rule mk_array_cong)
       (rule gram_reconstruction [OF oU oU' f(12) f'(12) f(13) fG f(9) f'(9) f(10) f'(10)
          f(6) f'(6) tau nt])
  finally show ?thesis .
qed

lemma svt_spec_transpose:
  assumes cu: "ncols u = length s" and rv: "nrows v = length s"
  shows "svt_spec tau theta (transposeA v, s, transposeA u)
       = transposeA (svt_spec tau theta (u, s, v))"
proof -
  have "svt_spec tau theta (transposeA v, s, transposeA u)
      = mk_array (ncols v) (nrows u)
          (\<lambda>i j. \<Sum>a<length s. shrunk tau theta s a * entry (transposeA v) i a
                                   * entry (transposeA u) a j)"
    by (simp add: svt_spec_def sum_list_upt_sum)
  also have "\<dots> = mk_array (ncols v) (nrows u)
          (\<lambda>i j. \<Sum>a<length s. shrunk tau theta s a * entry u j a * entry v a i)"
    using cu rv by (intro mk_array_cong sum.cong refl) simp
  also have "\<dots> = mk_array (ncols v) (nrows u)
          (\<lambda>i j. entry (svt_spec tau theta (u, s, v)) j i)"
    by (rule mk_array_cong) (simp add: svt_spec_def sum_list_upt_sum)
  also have "\<dots> = transposeA (svt_spec tau theta (u, s, v))"
    by (simp add: transposeA_def svt_spec_def)
  finally show ?thesis .
qed

lemma is_svd_transpose:
  assumes svd: "is_svd M (u, s, v)"
  shows "is_svd (transposeA M) (transposeA v, s, transposeA u)"
proof -
  let ?k = "min (nrows M) (ncols M)"
  from svd have a: "wf_array u" "wf_array v" "nrows u = nrows M" "ncols u = ?k"
    "length s = ?k" "nrows v = ?k" "ncols v = ncols M" "list_all (\<lambda>x. 0 \<le> x) s" "sorted (rev s)"
    and uu: "matmul (transposeA u) u = Inr (identity ?k)"
    and vv: "matmul v (transposeA v) = Inr (identity ?k)"
    and uu2: "nrows u = ?k \<longrightarrow> matmul u (transposeA u) = Inr (identity ?k)"
    and vv2: "ncols v = ?k \<longrightarrow> matmul (transposeA v) v = Inr (identity ?k)"
    by (simp_all add: is_svd_def Let_def)
  note f = is_svd_facts [OF svd]
  have tu: "transposeA (transposeA u) = u" and tv: "transposeA (transposeA v) = v"
    using a by (simp_all add: transposeA_twice)
  let ?vs = "mk_array (ncols v) (length s)
      (\<lambda>i a. \<Sum>b<length s. entry (transposeA v) i b * entry (np_diag s) b a)"
  have 1: "matmul (transposeA v) (np_diag s) = Inr ?vs"
    using matmul_ok [of "transposeA v" "np_diag s"] a by simp
  have 2: "matmul ?vs (transposeA u)
      = Inr (mk_array (ncols M) (nrows M)
          (\<lambda>i j. \<Sum>a<length s. entry ?vs i a * entry (transposeA u) a j))"
    using matmul_ok [of ?vs "transposeA u"] a by simp
  have 3: "mk_array (ncols M) (nrows M)
          (\<lambda>i j. \<Sum>a<length s. entry ?vs i a * entry (transposeA u) a j) = transposeA M"
    unfolding transposeA_def [of M]
  proof (rule mk_array_cong)
    fix i j assume i: "i < ncols M" and j: "j < nrows M"
    have "(\<Sum>a<length s. entry ?vs i a * entry (transposeA u) a j)
        = (\<Sum>a<length s. entry u j a * s ! a * entry v a i)"
    proof (rule sum.cong [OF refl])
      fix b assume "b \<in> {..<length s}"
      then have b: "b < length s" by simp
      have "entry ?vs i b = (\<Sum>c<length s. entry (transposeA v) i c * entry (np_diag s) c b)"
        using i b a by simp
      also have "\<dots> = entry (transposeA v) i b * s ! b" by (rule sum_times_diag [OF b refl])
      finally show "entry ?vs i b * entry (transposeA u) b j = entry u j b * s ! b * entry v b i"
        using i j b a by simp
    qed
    also have "\<dots> = entry M j i"
      using f(13) i j a(5) by (simp add: factorises_def)
    finally show "(\<Sum>a<length s. entry ?vs i a * entry (transposeA u) a j) = entry M j i" .
  qed
  have 4: "bindE (matmul (transposeA v) (np_diag s)) (\<lambda>us. matmul us (transposeA u))
      = Inr (transposeA M)"
    by (simp only: 1 2 3 bindE_Inr)
  show ?thesis
    unfolding is_svd_def prod.case Let_def
    using a uu vv uu2 vv2 4 by (simp add: tu tv min.commute)
qed

lemma svt_tnn_gram_shape:
  "2 * nrows M < ncols M \<Longrightarrow>
   svt_tnn svdf M tau theta =
     bindE (matmul M (transposeA M)) (\<lambda>gram. bindE (svdf gram) (svt_gram_part M tau theta))"
  by (subst svt_tnn.simps) (simp add: Let_def)

lemma svt_tnn_transposed_shape:
  "nrows M > 2 * ncols M \<Longrightarrow>
   svt_tnn svdf M tau theta =
     bindE (svt_tnn svdf (transposeA M) tau theta) (\<lambda>r. Inr (transposeA r))"
  by (subst svt_tnn.simps) (simp add: Let_def)

lemma svt_tnn_direct_shape:
  "\<not> 2 * nrows M < ncols M \<Longrightarrow> \<not> nrows M > 2 * ncols M \<Longrightarrow>
   svt_tnn svdf M tau theta = svt_direct svdf M tau theta"
  by (subst svt_tnn.simps) (simp add: Let_def svt_direct_def)

lemma svt_direct_is_spec:
  assumes "svdf M = Inr (u, s, v)" and "is_svd M (u, s, v)"
  shows "svt_direct svdf M tau theta = Inr (svt_spec tau theta (u, s, v))"
proof -
  note f = is_svd_facts [OF assms(2)]
  have "svt_direct_part tau theta (u, s, v) = Inr (svt_spec tau theta (u, s, v))"
    by (rule direct_part_is_spec) (simp_all add: f)
  then show ?thesis by (simp add: svt_direct_def assms(1))
qed

lemma wf_svt_spec [simp]: "wf_array (svt_spec tau theta (u, s, v))"
  by (simp add: svt_spec_def)

lemma svt_tnn_fast_is_spec:
  assumes tau: "0 < tau"
    and fast: "2 * nrows M < ncols M \<or> nrows M > 2 * ncols M"
    and svd: "is_svd M (u, s, v)"
    and dec: "decomposed M = Inr D" and svd': "svdf D = Inr usv'" "is_svd D usv'"
    and nt: "no_tie tau theta s"
  shows "svt_tnn svdf M tau theta = Inr (svt_spec tau theta (u, s, v))"
proof -
  obtain u' s' w' where usv': "usv' = (u', s', w')" by (cases usv') auto
  note f = is_svd_facts [OF svd]
  from fast show ?thesis
  proof
    assume sh: "2 * nrows M < ncols M"
    then have G: "matmul M (transposeA M) = Inr D"
      using dec by (simp add: decomposed_def Let_def)
    have "svt_gram_part M tau theta (u', s', w') = Inr (svt_spec tau theta (u, s, v))"
      by (rule gram_path_is_spec [OF svd _ G svd'(2) [unfolded usv'] tau nt]) (use sh in simp)
    then show ?thesis
      by (simp add: svt_tnn_gram_shape [OF sh] G svd'(1) usv')
  next
    assume sh: "nrows M > 2 * ncols M"
    let ?N = "transposeA M"
    have shN: "2 * nrows ?N < ncols ?N" using sh by simp
    have G: "matmul ?N (transposeA ?N) = Inr D"
      using dec sh by (simp add: decomposed_def Let_def)
    have "svt_gram_part ?N tau theta (u', s', w')
        = Inr (svt_spec tau theta (transposeA v, s, transposeA u))"
      by (rule gram_path_is_spec [OF is_svd_transpose [OF svd] _ G svd'(2) [unfolded usv'] tau nt])
         (use sh in simp)
    also have "svt_spec tau theta (transposeA v, s, transposeA u)
        = transposeA (svt_spec tau theta (u, s, v))"
      by (rule svt_spec_transpose) (simp_all add: f)
    finally have "svt_tnn svdf ?N tau theta = Inr (transposeA (svt_spec tau theta (u, s, v)))"
      by (simp add: svt_tnn_gram_shape [OF shN] G svd'(1) usv')
    then show ?thesis
      by (simp add: svt_tnn_transposed_shape [OF sh] transposeA_twice)
  qed
qed

text \<open>
  Claim C3, amended.  Take a matrix \<open>M\<close> with \<open>2 m < n\<close> or \<open>m > 2 n\<close>, \<open>tau > 0\<close> and
  \<open>theta \<ge> 0\<close>, and let \<open>np.linalg.svd\<close> meet its contract on \<open>M\<close> and on the Gram
  matrix that \<open>svt_tnn\<close> decomposes.  If the singular values of \<open>M\<close> that are kept
  unshrunk differ from those that are shrunk (\<open>theta = 0\<close>, or at most \<open>theta\<close> singular
  values are greater than \<open>tau\<close>, or the singular value at position \<open>theta\<close> is smaller
  than the one before it), the Gram path and the transposed path return what the
  direct path returns on \<open>M\<close>.
\<close>

theorem fast_paths_agree_with_direct:
  assumes "0 < tau"
    and "2 * nrows M < ncols M \<or> nrows M > 2 * ncols M"
    and "svdf M = Inr (u, s, v)" and "is_svd M (u, s, v)"
    and "decomposed M = Inr D" and "svdf D = Inr usv'" and "is_svd D usv'"
    and "no_tie tau theta s"
  shows "\<exists>R. svt_tnn svdf M tau theta = Inr R \<and> svt_direct svdf M tau theta = Inr R"
proof -
  have "svt_tnn svdf M tau theta = Inr (svt_spec tau theta (u, s, v))"
    using assms(1,2,4,5,6,7,8) by (rule svt_tnn_fast_is_spec)
  moreover have "svt_direct svdf M tau theta = Inr (svt_spec tau theta (u, s, v))"
    using assms(3,4) by (rule svt_direct_is_spec)
  ultimately show ?thesis by simp
qed

lemmas ex_svt_defs = ex_id2_def ex_swap2_def ex_wide_def ex_wide_v_def ex_wide_gram_def
  ex_wide_result_def

lemma ex_wide_is_svd: "is_svd ex_wide (ex_id2, [2, 1], ex_wide_v)"
  by (simp add: is_svd_def ex_svt_defs identity_def wf_array_def array_eval)

lemma ex_wide_decomposed: "decomposed ex_wide = Inr ex_wide_gram"
  by (simp add: decomposed_def ex_svt_defs array_eval)

lemma ex_wide_gram_is_svd: "is_svd ex_wide_gram (ex_id2, [4, 1], ex_id2)"
  by (simp add: is_svd_def ex_svt_defs identity_def wf_array_def array_eval)

lemma ex_wide_direct: "svt_direct ex_wide_svd ex_wide (1 / 2) 1 = Inr ex_wide_result"
  by (simp add: svt_direct_def svt_direct_part_def ex_wide_svd_def ex_svt_defs array_eval)

lemma ex_tie_is_svd: "is_svd ex_wide_v (ex_id2, [1, 1], ex_wide_v)"
  by (simp add: is_svd_def ex_svt_defs identity_def wf_array_def array_eval)

lemma ex_tie_decomposed: "decomposed ex_wide_v = Inr ex_id2"
  by (simp add: decomposed_def ex_svt_defs array_eval)

lemma ex_tie_gram_is_svd: "is_svd ex_id2 (ex_swap2, [1, 1], ex_swap2)"
  by (simp add: is_svd_def ex_svt_defs identity_def wf_array_def array_eval)

lemma ex_tall_is_svd: "is_svd ex_tall (ex_tall_u, [2, 1], ex_id2)"
  by (simp add: is_svd_def ex_svt_defs ex_tall_def ex_tall_u_def identity_def wf_array_def
      array_eval)

lemma ex_tall_decomposed: "decomposed ex_tall = Inr ex_wide_gram"
  by (simp add: decomposed_def ex_svt_defs ex_tall_def array_eval)

lemma ex_tall_direct: "svt_direct ex_wide_svd ex_tall (1 / 2) 1 = Inr ex_tall_result"
  by (simp add: svt_direct_def svt_direct_part_def ex_wide_svd_def ex_svt_defs ex_tall_def
      ex_tall_u_def ex_tall_result_def array_eval)

text \<open>
  A \<open>2 \<times> 5\<close> matrix and a \<open>5 \<times> 2\<close> matrix with the singular values \<open>2\<close> and \<open>1\<close>,
  thresholded with \<open>tau = 1 / 2\<close> and \<open>theta = 1\<close>: the Gram path and the transposed path.
\<close>

theorem fast_paths_agree_with_direct_witness:
  "(0::real) < 1 / 2 \<and> 2 * nrows ex_wide < ncols ex_wide \<and>
   ex_wide_svd ex_wide = Inr (ex_id2, [2, 1], ex_wide_v) \<and>
   is_svd ex_wide (ex_id2, [2, 1], ex_wide_v) \<and>
   decomposed ex_wide = Inr ex_wide_gram \<and>
   ex_wide_svd ex_wide_gram = Inr (ex_id2, [4, 1], ex_id2) \<and>
   is_svd ex_wide_gram (ex_id2, [4, 1], ex_id2) \<and>
   no_tie (1 / 2) 1 [2, 1] \<and>
   svt_tnn ex_wide_svd ex_wide (1 / 2) 1 = Inr ex_wide_result \<and>
   svt_direct ex_wide_svd ex_wide (1 / 2) 1 = Inr ex_wide_result \<and>
   2 * ncols ex_tall < nrows ex_tall \<and>
   ex_wide_svd ex_tall = Inr (ex_tall_u, [2, 1], ex_id2) \<and>
   is_svd ex_tall (ex_tall_u, [2, 1], ex_id2) \<and>
   decomposed ex_tall = Inr ex_wide_gram \<and>
   svt_tnn ex_wide_svd ex_tall (1 / 2) 1 = Inr ex_tall_result \<and>
   svt_direct ex_wide_svd ex_tall (1 / 2) 1 = Inr ex_tall_result"
proof -
  have sh: "2 * nrows ex_wide < ncols ex_wide \<or> nrows ex_wide > 2 * ncols ex_wide"
    by (simp add: ex_wide_def)
  have l1: "ex_wide_svd ex_wide = Inr (ex_id2, [2, 1], ex_wide_v)"
    by (simp add: ex_wide_svd_def)
  have l2: "ex_wide_svd ex_wide_gram = Inr (ex_id2, [4, 1], ex_id2)"
    by (simp add: ex_wide_svd_def ex_wide_def ex_wide_gram_def)
  have nt: "no_tie (1 / 2) 1 [2, 1]" by (simp add: no_tie_def)
  have "\<exists>R. svt_tnn ex_wide_svd ex_wide (1 / 2) 1 = Inr R \<and>
            svt_direct ex_wide_svd ex_wide (1 / 2) 1 = Inr R"
    by (rule fast_paths_agree_with_direct [OF _ sh l1 ex_wide_is_svd ex_wide_decomposed l2
          ex_wide_gram_is_svd nt]) simp
  then obtain R where t: "svt_tnn ex_wide_svd ex_wide (1 / 2) 1 = Inr R"
    and d: "svt_direct ex_wide_svd ex_wide (1 / 2) 1 = Inr R" by blast
  from d have "R = ex_wide_result" by (simp only: ex_wide_direct sum.inject)
  with t have a: "svt_tnn ex_wide_svd ex_wide (1 / 2) 1 = Inr ex_wide_result" by (simp only:)
  have sh': "2 * nrows ex_tall < ncols ex_tall \<or> nrows ex_tall > 2 * ncols ex_tall"
    by (simp add: ex_tall_def)
  have l3: "ex_wide_svd ex_tall = Inr (ex_tall_u, [2, 1], ex_id2)"
    by (simp add: ex_wide_svd_def ex_wide_def ex_wide_gram_def ex_tall_def)
  have "\<exists>R. svt_tnn ex_wide_svd ex_tall (1 / 2) 1 = Inr R \<and>
            svt_direct ex_wide_svd ex_tall (1 / 2) 1 = Inr R"
    by (rule fast_paths_agree_with_direct [OF _ sh' l3 ex_tall_is_svd ex_tall_decomposed l2
          ex_wide_gram_is_svd nt]) simp
  then obtain R' where t': "svt_tnn ex_wide_svd ex_tall (1 / 2) 1 = Inr R'"
    and d': "svt_direct ex_wide_svd ex_tall (1 / 2) 1 = Inr R'" by blast
  from d' have "R' = ex_tall_result" by (simp only: ex_tall_direct sum.inject)
  with t' have b: "svt_tnn ex_wide_svd ex_tall (1 / 2) 1 = Inr ex_tall_result" by (simp only:)
  from l1 l2 l3 nt a b ex_wide_is_svd ex_wide_decomposed ex_wide_gram_is_svd ex_wide_direct
    ex_tall_is_svd ex_tall_decomposed ex_tall_direct
  show ?thesis by (simp add: ex_wide_def ex_tall_def)
qed

lemmas ex_rot_defs = ex_id2_def ex_rot_M_def ex_rot_u_def ex_rot_v_def ex_rot_gram_def
  ex_rot_gram_result_def ex_rot_direct_result_def

lemma ex_rot_is_svd: "is_svd ex_rot_M (ex_rot_u, [2, 2], ex_rot_v)"
  by (simp add: is_svd_def ex_rot_defs identity_def wf_array_def array_eval)

lemma ex_rot_decomposed: "decomposed ex_rot_M = Inr ex_rot_gram"
  by (simp add: decomposed_def ex_rot_defs array_eval)

lemma ex_rot_gram_is_svd: "is_svd ex_rot_gram (ex_id2, [4, 4], ex_id2)"
  by (simp add: is_svd_def ex_rot_defs identity_def wf_array_def array_eval)

lemma ex_rot_direct: "svt_direct ex_rot_svd ex_rot_M (1 / 2) 1 = Inr ex_rot_direct_result"
  by (simp add: svt_direct_def svt_direct_part_def ex_rot_svd_def ex_rot_defs array_eval)

lemma ex_rot_tnn: "svt_tnn ex_rot_svd ex_rot_M (1 / 2) 1 = Inr ex_rot_gram_result"
  by (subst svt_tnn.simps)
     (simp add: svt_gram_part_def ex_rot_svd_def ex_rot_defs array_eval)

text \<open>
  Claim C3 as stated fails when a singular value that is kept unshrunk equals one that
  is shrunk.  The \<open>2 \<times> 5\<close> matrix with the rows \<open>(1, 1, 1, 1, 0)\<close> and \<open>(1, -1, 1, -1, 0)\<close>
  has the singular values \<open>2\<close> and \<open>2\<close>.  Its decomposition with \<open>u = [[0, -1], [1, 0]]\<close>
  is the one LAPACK computes for it up to rounding, and the Gram matrix \<open>4 I\<close> is
  decomposed with \<open>u = I\<close>.  With \<open>tau = 1 / 2\<close> and \<open>theta = 1\<close> the Gram path keeps the
  first row of the matrix and shrinks the second; the direct path on the same matrix
  shrinks the first row and keeps the second.
\<close>

theorem tied_singular_values_counterexample:
  "(0::real) < 1 / 2 \<and> 2 * nrows ex_rot_M < ncols ex_rot_M \<and>
   ex_rot_svd ex_rot_M = Inr (ex_rot_u, [2, 2], ex_rot_v) \<and>
   is_svd ex_rot_M (ex_rot_u, [2, 2], ex_rot_v) \<and>
   decomposed ex_rot_M = Inr ex_rot_gram \<and>
   ex_rot_svd ex_rot_gram = Inr (ex_id2, [4, 4], ex_id2) \<and>
   is_svd ex_rot_gram (ex_id2, [4, 4], ex_id2) \<and>
   svt_tnn ex_rot_svd ex_rot_M (1 / 2) 1 = Inr ex_rot_gram_result \<and>
   svt_direct ex_rot_svd ex_rot_M (1 / 2) 1 = Inr ex_rot_direct_result \<and>
   ex_rot_gram_result \<noteq> ex_rot_direct_result"
proof -
  have l1: "ex_rot_svd ex_rot_M = Inr (ex_rot_u, [2, 2], ex_rot_v)"
    by (simp add: ex_rot_svd_def)
  have l2: "ex_rot_svd ex_rot_gram = Inr (ex_id2, [4, 4], ex_id2)"
    by (simp add: ex_rot_svd_def ex_rot_M_def ex_rot_gram_def)
  have l3: "ex_rot_gram_result \<noteq> ex_rot_direct_result"
    by (simp add: ex_rot_gram_result_def ex_rot_direct_result_def)
  from l1 l2 l3 ex_rot_is_svd ex_rot_decomposed ex_rot_gram_is_svd ex_rot_tnn ex_rot_direct
  show ?thesis by (simp add: ex_rot_M_def)
qed

section \<open>Singular value thresholding: the result of svt_tnn\<close>

lemma same_counts_same_list:
  fixes s t :: "real list"
  assumes counts: "\<And>c. length (filter (\<lambda>x. x > c) s) = length (filter (\<lambda>x. x > c) t)"
    and sorted: "sorted (rev s)" "sorted (rev t)" and len: "length s = length t"
  shows "s = t"
proof (rule nth_equalityI [OF len])
  fix a assume a: "a < length s"
  have iff: "s ! a > c \<longleftrightarrow> t ! a > c" for c
    using descending_filter_prefix [OF sorted(1) a, of c]
      descending_filter_prefix [OF sorted(2), of a c] a len counts [of c] by simp
  show "s ! a = t ! a"
  proof (rule antisym)
    show "s ! a \<le> t ! a" using iff [of "t ! a"] by simp
    show "t ! a \<le> s ! a" using iff [of "s ! a"] by simp
  qed
qed

lemma overlap_cols:
  assumes o: "orthogonal m U" and c: "orthonormal_cols m m U'" and b: "b < m" and b': "b' < m"
  shows "(\<Sum>a<m. overlap m U U' a b * overlap m U U' a b') = (if b = b' then 1 else 0)"
  using overlap_rows [OF c o b b'] by (simp add: overlap_sym [of m U' U])

lemma rotated_rows_orthonormal:
  fixes v :: "nat \<Rightarrow> nat \<Rightarrow> real"
  assumes vv: "orthonormal_cols n m (\<lambda>j a. v a j)"
    and P: "\<And>b b'. b < m \<Longrightarrow> b' < m \<Longrightarrow> (\<Sum>a<m. P a b * P a b') = (if b = b' then 1 else 0)"
    and b: "b < m" and d: "d < m"
  shows "(\<Sum>j<n. (\<Sum>a<m. P a b * v a j) * (\<Sum>c<m. P c d * v c j)) = (if b = d then 1 else 0)"
proof -
  have "(\<Sum>j<n. (\<Sum>a<m. P a b * v a j) * (\<Sum>c<m. P c d * v c j))
      = (\<Sum>a<m. \<Sum>c<m. P a b * P c d * (\<Sum>j<n. v a j * v c j))"
    by (rule sum_of_products [where f = "\<lambda>a. P a b" and f' = "\<lambda>c. P c d" and g = v and g' = v])
  also have "\<dots> = (\<Sum>a<m. \<Sum>c<m. P a b * P c d * (if a = c then 1 else 0))"
    using vv by (intro sum.cong refl) (simp add: orthonormal_cols_def)
  also have "\<dots> = (\<Sum>a<m. P a b * P a d)"
    by (intro sum.cong refl) (simp add: sum_delta_lessThan)
  also have "\<dots> = (if b = d then 1 else 0)" by (rule P [OF b d])
  finally show ?thesis .
qed

lemma rotated_factorises:
  assumes oU': "orthogonal m u'"
    and fM: "factorises m m n X u s v"
    and link: "\<And>a b. a < m \<Longrightarrow> b < m \<Longrightarrow> overlap m u u' a b \<noteq> 0 \<Longrightarrow> s ! a = s ! b"
  shows "factorises m m n X u' s (\<lambda>b j. \<Sum>a<m. overlap m u u' a b * v a j)"
  unfolding factorises_def
proof (intro allI impI)
  fix i j assume i: "i < m" and j: "j < n"
  let ?P = "overlap m u u'"
  have comm: "s ! b * ?P a b = s ! a * ?P a b" if "a < m" "b < m" for a b
    using link [OF that] by (cases "?P a b = 0") simp_all
  have "(\<Sum>b<m. u' i b * s ! b * (\<Sum>a<m. ?P a b * v a j))
      = (\<Sum>b<m. \<Sum>a<m. u' i b * (s ! b * ?P a b) * v a j)"
    by (intro sum.cong refl) (simp add: sum_distrib_left mult.assoc)
  also have "\<dots> = (\<Sum>b<m. \<Sum>a<m. u' i b * (s ! a * ?P a b) * v a j)"
  proof (intro sum.cong refl)
    fix b a assume "b \<in> {..<m}" "a \<in> {..<m}"
    then have "s ! b * ?P a b = s ! a * ?P a b" by (simp add: comm)
    then show "u' i b * (s ! b * ?P a b) * v a j = u' i b * (s ! a * ?P a b) * v a j"
      by (simp only:)
  qed
  also have "\<dots> = (\<Sum>a<m. \<Sum>b<m. u' i b * (s ! a * ?P a b) * v a j)" by (rule sum.swap)
  also have "\<dots> = (\<Sum>a<m. (\<Sum>b<m. ?P a b * u' i b) * (s ! a * v a j))"
    by (intro sum.cong refl) (simp add: sum_distrib_left sum_distrib_right mult_ac)
  also have "\<dots> = (\<Sum>a<m. u i a * (s ! a * v a j))"
    using i by (intro sum.cong refl) (simp add: overlap_expand [OF oU'])
  also have "\<dots> = X i j" using fM i j by (simp add: factorises_def mult.assoc)
  finally show "X i j = (\<Sum>b<m. u' i b * s ! b * (\<Sum>a<m. ?P a b * v a j))" by simp
qed

lemma factorises_cong_right:
  assumes "factorises p k q X A d B" and "\<And>a j. a < k \<Longrightarrow> j < q \<Longrightarrow> B a j = B' a j"
  shows "factorises p k q X A d B'"
  using assms by (simp add: factorises_def)

lemma gram_path_reconstructs:
  assumes svd: "is_svd N (u, s, v)" and shape: "nrows N < ncols N"
    and G: "matmul N (transposeA N) = Inr G" and svd': "is_svd G (u', s', w')"
    and tau: "0 < tau"
  shows "\<exists>u2 v2. is_svd N (u2, s, v2) \<and>
           svt_gram_part N tau theta (u', s', w') = Inr (svt_spec tau theta (u2, s, v2))"
proof -
  let ?m = "nrows N" and ?n = "ncols N"
  let ?P = "overlap ?m (entry u) (entry u')"
  have k: "min ?m ?n = ?m" using shape by simp
  have shape': "?m \<le> ?n" using shape by simp
  note f = is_svd_facts [OF svd, unfolded k]
  note g = gram_entries [OF G]
  note f' = is_svd_facts [OF svd', unfolded g(1) g(2) min.idem]
  from svd' have uu': "matmul (transposeA u') u' = Inr (identity ?m)"
    and uu2': "nrows u' = ?m \<longrightarrow> matmul u' (transposeA u') = Inr (identity ?m)"
    by (simp_all add: is_svd_def Let_def g)
  have oU: "orthogonal ?m (entry u)" by (rule f(14) [OF shape'])
  have oU': "orthogonal ?m (entry u')" using f'(14) by simp
  have cU': "orthonormal_cols ?m ?m (entry u')" using oU' by (simp add: orthogonal_def)
  have fG: "factorises ?m ?m ?m (gram_fn ?n (entry N)) (entry u') s' (entry w')"
    by (rule factorises_cong [OF f'(13)]) (simp add: g(3))
  let ?t = "map sqrt s'"
  have lt: "length ?t = ?m" using f'(6) by simp
  have vals: "s ! a = ?t ! b" if "a < ?m" "b < ?m" "?P a b \<noteq> 0" for a b
    using overlap_links_values [OF oU oU' f(12) f'(12) f(13) fG f(9) f'(9) f(6) f'(6) that]
      that(2) f'(6) by simp
  have counts: "length (filter (\<lambda>x. x > c) s) = length (filter (\<lambda>x. x > c) ?t)" for c
    by (rule overlap_same_counts [OF oU oU' vals f(6) lt])
  have st: "?t = s"
    by (rule same_counts_same_list [OF counts [symmetric] sorted_rev_map_sqrt [OF f'(10)] f(10)])
       (simp add: f(6) f'(6))
  have link: "s ! a = s ! b" if "a < ?m" "b < ?m" "?P a b \<noteq> 0" for a b
    using vals [OF that] by (simp only: st)
  define v2 where "v2 = mk_array ?m ?n (\<lambda>b j. \<Sum>a<?m. ?P a b * entry v a j)"
  have v2s: "nrows v2 = ?m" "ncols v2 = ?n" "wf_array v2" by (simp_all add: v2_def)
  have v2e: "entry v2 b j = (\<Sum>a<?m. ?P a b * entry v a j)" if "b < ?m" "j < ?n" for b j
    using that by (simp add: v2_def)
  have fN2: "factorises ?m ?m ?n (entry N) (entry u') s (entry v2)"
    by (rule factorises_cong_right [OF rotated_factorises [OF oU' f(13) link]])
       (simp_all add: v2e)
  have Pc: "(\<Sum>a<?m. ?P a b * ?P a b') = (if b = b' then 1 else 0)" if "b < ?m" "b' < ?m" for b b'
    by (rule overlap_cols [OF oU cU' that])
  have vv2: "matmul v2 (transposeA v2) = Inr (identity ?m)"
  proof -
    have "matmul v2 (transposeA v2) = Inr (mk_array ?m ?m
        (\<lambda>b d. \<Sum>j<?n. entry v2 b j * entry (transposeA v2) j d))"
      using matmul_ok [of v2 "transposeA v2"] v2s by simp
    also have "mk_array ?m ?m (\<lambda>b d. \<Sum>j<?n. entry v2 b j * entry (transposeA v2) j d)
        = identity ?m"
      unfolding identity_def
    proof (rule mk_array_cong)
      fix b d assume b: "b < ?m" and d: "d < ?m"
      have "(\<Sum>j<?n. entry v2 b j * entry (transposeA v2) j d)
          = (\<Sum>j<?n. (\<Sum>a<?m. ?P a b * entry v a j) * (\<Sum>c<?m. ?P c d * entry v c j))"
        using b d v2s by (intro sum.cong refl) (simp add: v2e)
      also have "\<dots> = (if b = d then 1 else 0)"
        by (rule rotated_rows_orthonormal [OF f(12) Pc b d])
      finally show "(\<Sum>j<?n. entry v2 b j * entry (transposeA v2) j d)
          = (if b = d then 1 else 0)" .
    qed
    finally show ?thesis .
  qed
  have fac: "bindE (matmul u' (np_diag s)) (\<lambda>us. matmul us v2) = Inr N"
  proof -
    let ?us = "mk_array ?m ?m (\<lambda>i a. \<Sum>b<?m. entry u' i b * entry (np_diag s) b a)"
    have 1: "matmul u' (np_diag s) = Inr ?us"
      using matmul_ok [of u' "np_diag s"] f' f(6) by simp
    have 2: "matmul ?us v2 = Inr (mk_array ?m ?n (\<lambda>i j. \<Sum>a<?m. entry ?us i a * entry v2 a j))"
      using matmul_ok [of ?us v2] v2s by simp
    have 3: "mk_array ?m ?n (\<lambda>i j. \<Sum>a<?m. entry ?us i a * entry v2 a j)
        = mk_array ?m ?n (entry N)"
    proof (rule mk_array_cong)
      fix i j assume i: "i < ?m" and j: "j < ?n"
      have "(\<Sum>a<?m. entry ?us i a * entry v2 a j)
          = (\<Sum>a<?m. entry u' i a * s ! a * entry v2 a j)"
      proof (rule sum.cong [OF refl])
        fix a assume "a \<in> {..<?m}"
        then have a: "a < ?m" by simp
        have "entry ?us i a = (\<Sum>b<?m. entry u' i b * entry (np_diag s) b a)"
          using i a by simp
        also have "\<dots> = entry u' i a * s ! a" by (rule sum_times_diag [OF a f(6)])
        finally show "entry ?us i a * entry v2 a j = entry u' i a * s ! a * entry v2 a j"
          by (simp only:)
      qed
      also have "\<dots> = entry N i j" using fN2 i j by (simp add: factorises_def)
      finally show "(\<Sum>a<?m. entry ?us i a * entry v2 a j) = entry N i j" .
    qed
    show ?thesis by (simp only: 1 2 3 bindE_Inr mk_array_entries [OF f(1)])
  qed
  have svd2: "is_svd N (u', s, v2)"
    unfolding is_svd_def prod.case Let_def k
    using f f' v2s uu' uu2' vv2 fac shape by simp
  have "svt_gram_part N tau theta (u', s', w') =
    Inr (mk_array ?m ?n
          (\<lambda>i j. \<Sum>a<length s'. entry u' i a * keep_weight tau theta (map sqrt s') a *
                     (\<Sum>r<?m. entry u' r a * entry N r j)))"
    by (rule gram_part_entries) (use f' tau in simp_all)
  also have "mk_array ?m ?n
          (\<lambda>i j. \<Sum>a<length s'. entry u' i a * keep_weight tau theta (map sqrt s') a *
                     (\<Sum>r<?m. entry u' r a * entry N r j))
      = svt_spec tau theta (u', s, v2)"
    unfolding svt_spec_def prod.case sum_list_upt_sum f'(4) v2s f(6) f'(6) st
  proof (rule mk_array_cong)
    fix i j assume i: "i < ?m" and j: "j < ?n"
    show "(\<Sum>a<?m. entry u' i a * keep_weight tau theta s a * (\<Sum>r<?m. entry u' r a * entry N r j))
        = (\<Sum>a<?m. shrunk tau theta s a * entry u' i a * entry v2 a j)"
    proof (rule sum.cong [OF refl])
      fix a assume "a \<in> {..<?m}"
      then have a: "a < ?m" by simp
      have "(\<Sum>r<?m. entry u' r a * entry N r j) = s ! a * entry v2 a j"
        by (rule cols_times_factorised [OF cU' fN2 a j])
      then show "entry u' i a * keep_weight tau theta s a * (\<Sum>r<?m. entry u' r a * entry N r j)
          = shrunk tau theta s a * entry u' i a * entry v2 a j"
        using tau by (simp add: keep_weight_shrunk [of tau theta s, symmetric] mult_ac)
    qed
  qed
  finally show ?thesis using svd2 by blast
qed

text \<open>
  Claim C2.  For every matrix \<open>M\<close>, \<open>tau > 0\<close> and \<open>theta \<ge> 0\<close>, with an \<open>np.linalg.svd\<close>
  that meets its contract on \<open>M\<close> and on the matrix that \<open>svt_tnn\<close> decomposes:
  \<open>svt_tnn(M, tau, theta)\<close> is the reconstruction from a singular value decomposition
  of \<open>M\<close>, with the singular values \<open>s\<close> of \<open>M\<close> in descending order, in which the
  components with a singular value greater than \<open>tau\<close> are kept, the first \<open>theta\<close> of
  them with their singular value and the others with it less \<open>tau\<close>, and all other
  components are dropped (\<open>svt_spec\<close>).  The decomposition is the one the library
  returns for \<open>M\<close> on the direct path, and on the other paths when no singular value
  that is kept unshrunk equals one that is shrunk; singular vectors are not unique
  otherwise.
\<close>

theorem svt_tnn_is_thresholded_reconstruction:
  assumes tau: "0 < tau"
    and lib: "svdf M = Inr (u0, s, v0)" and svd: "is_svd M (u0, s, v0)"
    and dec: "decomposed M = Inr D" and lib': "svdf D = Inr usv'" and svd': "is_svd D usv'"
  shows "\<exists>u v. is_svd M (u, s, v) \<and>
           svt_tnn svdf M tau theta = Inr (svt_spec tau theta (u, s, v)) \<and>
           ((nrows M \<le> 2 * ncols M \<and> ncols M \<le> 2 * nrows M) \<or> no_tie tau theta s
              \<longrightarrow> u = u0 \<and> v = v0)"
proof -
  obtain u' s' w' where usv': "usv' = (u', s', w')" by (cases usv') auto
  note f = is_svd_facts [OF svd]
  consider (direct) "nrows M \<le> 2 * ncols M" "ncols M \<le> 2 * nrows M"
    | (untied) "2 * nrows M < ncols M \<or> nrows M > 2 * ncols M" "no_tie tau theta s"
    | (wide) "2 * nrows M < ncols M" "\<not> no_tie tau theta s"
    | (tall) "nrows M > 2 * ncols M" "\<not> no_tie tau theta s"
    by linarith
  then show ?thesis
  proof cases
    case direct
    then have "svt_tnn svdf M tau theta = svt_direct svdf M tau theta"
      by (intro svt_tnn_direct_shape) simp_all
    moreover have "svt_direct svdf M tau theta = Inr (svt_spec tau theta (u0, s, v0))"
      using lib svd by (rule svt_direct_is_spec)
    ultimately show ?thesis using svd by auto
  next
    case untied
    have "svt_tnn svdf M tau theta = Inr (svt_spec tau theta (u0, s, v0))"
      using tau untied(1) svd dec lib' svd' untied(2) by (rule svt_tnn_fast_is_spec)
    with svd show ?thesis by auto
  next
    case wide
    then have G: "matmul M (transposeA M) = Inr D"
      using dec by (simp add: decomposed_def Let_def)
    from wide have sh: "nrows M < ncols M" by simp
    from gram_path_reconstructs [OF svd sh G svd' [unfolded usv'] tau, of theta]
    obtain u2 v2 where 2: "is_svd M (u2, s, v2)"
      and r: "svt_gram_part M tau theta (u', s', w') = Inr (svt_spec tau theta (u2, s, v2))"
      by blast
    have "svt_tnn svdf M tau theta = Inr (svt_spec tau theta (u2, s, v2))"
      by (simp add: svt_tnn_gram_shape [OF wide(1)] G lib' usv' r)
    with 2 wide show ?thesis by auto
  next
    case tall
    let ?N = "transposeA M"
    have shN: "2 * nrows ?N < ncols ?N" using tall by simp
    then have sh: "nrows ?N < ncols ?N" by simp
    have G: "matmul ?N (transposeA ?N) = Inr D"
      using dec tall by (simp add: decomposed_def Let_def)
    from gram_path_reconstructs [OF is_svd_transpose [OF svd] sh G svd' [unfolded usv'] tau,
        of theta]
    obtain u2 v2 where 2: "is_svd ?N (u2, s, v2)"
      and r: "svt_gram_part ?N tau theta (u', s', w') = Inr (svt_spec tau theta (u2, s, v2))"
      by blast
    note f2 = is_svd_facts [OF 2]
    have "is_svd (transposeA ?N) (transposeA v2, s, transposeA u2)"
      by (rule is_svd_transpose [OF 2])
    then have 3: "is_svd M (transposeA v2, s, transposeA u2)"
      by (simp add: transposeA_twice [OF f(1)])
    have "svt_tnn svdf ?N tau theta = Inr (svt_spec tau theta (u2, s, v2))"
      by (simp add: svt_tnn_gram_shape [OF shN] G lib' usv' r)
    then have "svt_tnn svdf M tau theta = Inr (transposeA (svt_spec tau theta (u2, s, v2)))"
      by (simp add: svt_tnn_transposed_shape [OF tall(1)])
    also have "transposeA (svt_spec tau theta (u2, s, v2))
        = svt_spec tau theta (transposeA v2, s, transposeA u2)"
      by (rule svt_spec_transpose [symmetric]) (simp_all add: f2)
    finally show ?thesis using 3 tall by auto
  qed
qed

lemma ex_gram_decomposed: "decomposed ex_wide_gram = Inr ex_wide_gram"
  by (simp add: decomposed_def ex_wide_gram_def)

lemma ex_gram_spec: "svt_spec (1 / 2) 1 (ex_id2, [4, 1], ex_id2) = ex_gram_result"
  by (simp add: svt_spec_def shrunk_def ex_id2_def ex_gram_result_def array_eval)

text \<open>
  A \<open>2 \<times> 2\<close> matrix on the direct path, and the \<open>2 \<times> 5\<close> matrix with two equal singular
  values on the Gram path.
\<close>

theorem svt_tnn_is_thresholded_reconstruction_witness:
  "(0::real) < 1 / 2 \<and>
   ex_wide_svd ex_wide_gram = Inr (ex_id2, [4, 1], ex_id2) \<and>
   is_svd ex_wide_gram (ex_id2, [4, 1], ex_id2) \<and>
   decomposed ex_wide_gram = Inr ex_wide_gram \<and>
   svt_tnn ex_wide_svd ex_wide_gram (1 / 2) 1 = Inr ex_gram_result \<and>
   ex_tie_svd ex_wide_v = Inr (ex_id2, [1, 1], ex_wide_v) \<and>
   is_svd ex_wide_v (ex_id2, [1, 1], ex_wide_v) \<and>
   decomposed ex_wide_v = Inr ex_id2 \<and>
   ex_tie_svd ex_id2 = Inr (ex_swap2, [1, 1], ex_swap2) \<and>
   is_svd ex_id2 (ex_swap2, [1, 1], ex_swap2) \<and>
   (\<exists>u v. is_svd ex_wide_v (u, [1, 1], v) \<and>
      svt_tnn ex_tie_svd ex_wide_v (1 / 2) 1 = Inr (svt_spec (1 / 2) 1 (u, [1, 1], v)))"
proof -
  have l1: "ex_wide_svd ex_wide_gram = Inr (ex_id2, [4, 1], ex_id2)"
    by (simp add: ex_wide_svd_def ex_wide_def ex_wide_gram_def)
  have sq: "nrows ex_wide_gram \<le> 2 * ncols ex_wide_gram \<and> ncols ex_wide_gram \<le> 2 * nrows ex_wide_gram"
    by (simp add: ex_wide_gram_def)
  have "\<exists>u v. is_svd ex_wide_gram (u, [4, 1], v) \<and>
      svt_tnn ex_wide_svd ex_wide_gram (1 / 2) 1 = Inr (svt_spec (1 / 2) 1 (u, [4, 1], v)) \<and>
      ((nrows ex_wide_gram \<le> 2 * ncols ex_wide_gram \<and> ncols ex_wide_gram \<le> 2 * nrows ex_wide_gram)
          \<or> no_tie (1 / 2) 1 [4, 1] \<longrightarrow> u = ex_id2 \<and> v = ex_id2)"
    by (rule svt_tnn_is_thresholded_reconstruction [where D = ex_wide_gram
          and usv' = "(ex_id2, [4, 1], ex_id2)"])
       (simp, fact l1, fact ex_wide_gram_is_svd, fact ex_gram_decomposed, fact l1,
        fact ex_wide_gram_is_svd)
  then obtain u v where r: "svt_tnn ex_wide_svd ex_wide_gram (1 / 2) 1
        = Inr (svt_spec (1 / 2) 1 (u, [4, 1], v))"
    and i: "(nrows ex_wide_gram \<le> 2 * ncols ex_wide_gram \<and> ncols ex_wide_gram \<le> 2 * nrows ex_wide_gram)
          \<or> no_tie (1 / 2) 1 [4, 1] \<longrightarrow> u = ex_id2 \<and> v = ex_id2"
    by blast
  from i sq have "u = ex_id2" "v = ex_id2" by blast+
  with r have a: "svt_tnn ex_wide_svd ex_wide_gram (1 / 2) 1 = Inr ex_gram_result"
    by (simp only: ex_gram_spec)
  have l2: "ex_tie_svd ex_wide_v = Inr (ex_id2, [1, 1], ex_wide_v)"
    by (simp add: ex_tie_svd_def)
  have l3: "ex_tie_svd ex_id2 = Inr (ex_swap2, [1, 1], ex_swap2)"
    by (simp add: ex_tie_svd_def ex_id2_def ex_wide_v_def)
  have "\<exists>u v. is_svd ex_wide_v (u, [1, 1], v) \<and>
      svt_tnn ex_tie_svd ex_wide_v (1 / 2) 1 = Inr (svt_spec (1 / 2) 1 (u, [1, 1], v)) \<and>
      ((nrows ex_wide_v \<le> 2 * ncols ex_wide_v \<and> ncols ex_wide_v \<le> 2 * nrows ex_wide_v)
          \<or> no_tie (1 / 2) 1 [1, 1] \<longrightarrow> u = ex_id2 \<and> v = ex_wide_v)"
    by (rule svt_tnn_is_thresholded_reconstruction [where D = ex_id2
          and usv' = "(ex_swap2, [1, 1], ex_swap2)"])
       (simp, fact l2, fact ex_tie_is_svd, fact ex_tie_decomposed, fact l3,
        fact ex_tie_gram_is_svd)
  then have b: "\<exists>u v. is_svd ex_wide_v (u, [1, 1], v) \<and>
      svt_tnn ex_tie_svd ex_wide_v (1 / 2) 1 = Inr (svt_spec (1 / 2) 1 (u, [1, 1], v))"
    by blast
  from l1 l2 l3 a b ex_wide_gram_is_svd ex_gram_decomposed ex_tie_is_svd ex_tie_decomposed
    ex_tie_gram_is_svd
  show ?thesis by simp
qed

end
